(* ===== verification/Prelude.thy ===== *)
theory Prelude
  imports Main "HOL-Library.Word" "HOL-Library.AList"
begin

text \<open>
  Shared vocabulary of the development: names for the machine types of the C++ code,
  the byte layout of packed structs (little endian, as on the supported targets),
  \<open>memcpy\<close> into a fixed buffer, byte strings, the interface of a fixed-width codec
  (locale \<open>wire_codec\<close>) and the interface of a guarded step system
  (locale \<open>step_system\<close>).
\<close>

unbundle bit_operations_syntax

subsection \<open>Machine types\<close>

type_synonym u8 = "8 word"
type_synonym u16 = "16 word"
type_synonym u32 = "32 word"
type_synonym u64 = "64 word"
type_synonym bytes = "u8 list"

named_theorems wire_simps \<open>unfolding rules of the byte layouts\<close>
named_theorems inv_intros \<open>preservation lemmas of the component invariants\<close>

subsection \<open>Little endian layout of unsigned integers\<close>

primrec le_bytes :: "nat \<Rightarrow> 'a::len word \<Rightarrow> bytes" where
  "le_bytes 0 w = []"
| "le_bytes (Suc n) w = ucast w # le_bytes n (drop_bit 8 w)"

primrec le_word :: "bytes \<Rightarrow> 'a::len word" where
  "le_word [] = 0"
| "le_word (b # bs) = ucast b OR push_bit 8 (le_word bs)"

lemma length_le_bytes [simp]: "length (le_bytes n w) = n"
  by (induction n arbitrary: w) auto

lemma bit_le_word_Cons:
  "bit (le_word (b # bs) :: 'a::len word) i \<longleftrightarrow>
     i < LENGTH('a) \<and> (if i < 8 then bit b i else bit (le_word bs :: 'a word) (i - 8))"
  by (auto simp: bit_simps dest: bit_imp_le_length)

lemma le_word_le_bytes:
  "le_word (le_bytes n w) = (take_bit (8 * n) w :: 'a::len word)"
proof (induction n arbitrary: w)
  case 0
  then show ?case by simp
next
  case (Suc n)
  show ?case
  proof (rule bit_word_eqI)
    fix i assume i: "i < LENGTH('a)"
    have "bit (le_word (le_bytes (Suc n) w) :: 'a word) i
        \<longleftrightarrow> (if i < 8 then bit w i else bit (take_bit (8 * n) (drop_bit 8 w)) (i - 8))"
      unfolding le_bytes.simps bit_le_word_Cons Suc.IH using i
      by (auto simp: bit_simps)
    also have "\<dots> \<longleftrightarrow> bit (take_bit (8 * Suc n) w) i"
      using i by (auto simp: bit_simps)
    finally show "bit (le_word (le_bytes (Suc n) w) :: 'a word) i
        \<longleftrightarrow> bit (take_bit (8 * Suc n) w) i" .
  qed
qed

lemma le_word_le_bytes_full:
  assumes "LENGTH('a) \<le> 8 * n"
  shows "le_word (le_bytes n w) = (w :: 'a::len word)"
proof -
  have "take_bit (8 * n) w = w"
    by (rule bit_word_eqI) (use assms in \<open>auto simp: bit_simps\<close>)
  then show ?thesis by (simp add: le_word_le_bytes)
qed

subsection \<open>Copying into a buffer\<close>

text \<open>
  \<open>memcpy_at off src buf\<close> is the buffer after \<open>memcpy(buf + off, src, size)\<close>; it is
  \<open>None\<close> when the copy would leave the buffer, which in C++ is undefined behaviour.
\<close>

definition memcpy_at :: "nat \<Rightarrow> 'a list \<Rightarrow> 'a list \<Rightarrow> 'a list option" where
  "memcpy_at off src buf =
     (if off + length src \<le> length buf
      then Some (take off buf @ src @ drop (off + length src) buf) else None)"

text \<open>\<open>overlay old new\<close> is a buffer whose first bytes were overwritten by a shorter read.\<close>

definition overlay :: "'a list \<Rightarrow> 'a list \<Rightarrow> 'a list" where
  "overlay old new = take (length old) new @ drop (length new) old"

lemma length_overlay [simp]: "length (overlay old new) = length old"
  by (simp add: overlay_def)

lemma take_overlay:
  "n \<le> length new \<Longrightarrow> n \<le> length old \<Longrightarrow> take n (overlay old new) = take n new"
  by (simp add: overlay_def min_def)

lemma length_memcpy_at: "memcpy_at off src buf = Some buf' \<Longrightarrow> length buf' = length buf"
  by (auto simp: memcpy_at_def split: if_splits)

lemma memcpy_at_read:
  assumes "memcpy_at off src buf = Some buf'"
  shows "take (length src) (drop off buf') = src"
  using assms by (auto simp: memcpy_at_def split: if_splits)

lemma memcpy_at_0_eq:
  "length src \<le> length buf \<Longrightarrow> memcpy_at 0 src buf = Some (src @ drop (length src) buf)"
  by (simp add: memcpy_at_def)

subsection \<open>Byte strings and text\<close>

definition str_of_bytes :: "bytes \<Rightarrow> string" where
  "str_of_bytes bs = map (\<lambda>b. char_of (unat b)) bs"

definition bytes_of_str :: "string \<Rightarrow> bytes" where
  "bytes_of_str s = map (\<lambda>c. word_of_nat (of_char c)) s"

lemma str_of_bytes_of_str [simp]: "str_of_bytes (bytes_of_str s) = s"
proof -
  have "char_of (unat (word_of_nat (of_char c) :: u8)) = c" for c
  proof -
    have "of_char c < (256 :: nat)" by simp
    then have "unat (word_of_nat (of_char c) :: u8) = of_char c"
      by (simp add: unsigned_of_nat take_bit_nat_eq_self)
    then show ?thesis by simp
  qed
  then show ?thesis
    unfolding str_of_bytes_def bytes_of_str_def map_map by (intro map_idI) (simp only: comp_def)
qed

lemma bytes_of_str_of_bytes [simp]: "bytes_of_str (str_of_bytes bs) = bs"
proof -
  have "word_of_nat (of_char (char_of (unat b) :: char)) = (b :: u8)" for b
  proof -
    have "unat b < 256" using unsigned_less [of b] by simp
    then have "of_char (char_of (unat b) :: char) = unat b" by simp
    then show ?thesis by simp
  qed
  then show ?thesis
    unfolding str_of_bytes_def bytes_of_str_def map_map by (intro map_idI) (simp only: comp_def)
qed

lemma length_str_of_bytes [simp]: "length (str_of_bytes bs) = length bs"
  by (simp add: str_of_bytes_def)

lemma length_bytes_of_str [simp]: "length (bytes_of_str s) = length s"
  by (simp add: bytes_of_str_def)

subsection \<open>Interface: a fixed-width codec\<close>

text \<open>
  A packed struct of the wire format is a codec of constant width: encoding then
  decoding is the identity. Everything a user of the layout needs (injectivity, reading
  a header off the front of a longer buffer, unique parsing of a concatenation) follows.
\<close>

locale wire_codec =
  fixes enc :: "'a \<Rightarrow> bytes" and dec :: "bytes \<Rightarrow> 'a" and width :: nat
  assumes length_enc: "length (enc x) = width"
    and dec_enc: "dec (enc x) = x"
begin

lemma dec_front: "dec (take width (enc x @ rest)) = x"
  by (simp add: length_enc dec_enc)

lemma enc_inject: "enc x = enc y \<longleftrightarrow> x = y"
  by (metis dec_enc)

lemma enc_append_inject: "enc x @ r = enc y @ s \<longleftrightarrow> x = y \<and> r = s"
  by (metis append_eq_append_conv dec_enc length_enc)

lemma length_concat_enc: "length (concat (map enc xs)) = width * length xs"
  by (induction xs) (auto simp: length_enc)

lemma concat_enc_inject:
  assumes "length xs = length ys"
  shows "concat (map enc xs) = concat (map enc ys) \<longleftrightarrow> xs = ys"
  using assms by (induction xs ys rule: list_induct2) (auto simp: enc_append_inject)

end

interpretation le16: wire_codec "le_bytes 2 :: u16 \<Rightarrow> bytes" le_word 2
  by unfold_locales (auto simp: le_word_le_bytes_full)

interpretation le32: wire_codec "le_bytes 4 :: u32 \<Rightarrow> bytes" le_word 4
  by unfold_locales (auto simp: le_word_le_bytes_full)

interpretation le64: wire_codec "le_bytes 8 :: u64 \<Rightarrow> bytes" le_word 8
  by unfold_locales (auto simp: le_word_le_bytes_full)

subsection \<open>Interface: an invariant of a step system\<close>

text \<open>
  A component that is driven by events is a step function on its state. Once an
  invariant is preserved by every step whose event satisfies the guard, it holds after
  every run of guarded events.
\<close>

fun run_steps :: "('s \<Rightarrow> 'e \<Rightarrow> 's) \<Rightarrow> 's \<Rightarrow> 'e list \<Rightarrow> 's" where
  "run_steps f s [] = s"
| "run_steps f s (e # es) = run_steps f (f s e) es"

lemma run_steps_append:
  "run_steps f s (xs @ ys) = run_steps f (run_steps f s xs) ys"
  by (induction xs arbitrary: s) auto

locale step_system =
  fixes step :: "'s \<Rightarrow> 'e \<Rightarrow> 's" and inv :: "'s \<Rightarrow> bool" and guard :: "'e \<Rightarrow> bool"
  assumes step_inv: "inv s \<Longrightarrow> guard e \<Longrightarrow> inv (step s e)"
begin

lemma run_inv: "inv s \<Longrightarrow> list_all guard es \<Longrightarrow> inv (run_steps step s es)"
  by (induction es arbitrary: s) (auto intro: step_inv)

lemma run_inv_prefix:
  "inv s \<Longrightarrow> list_all guard (xs @ ys) \<Longrightarrow> inv (run_steps step s xs)"
  by (auto intro: run_inv)

end

subsection \<open>Lists and association lists\<close>

lemma map_of_delete_eq: "map_of (AList.delete k m) = (map_of m)(k := None)"
  by (rule ext) (simp add: delete_conv')

lemma length_update_le: "length (AList.update k v m) \<le> Suc (length m)"
  by (induction m) auto

lemma length_update_new: "k \<notin> fst ` set m \<Longrightarrow> length (AList.update k v m) = Suc (length m)"
  by (induction m) auto

lemma set_update_subset: "set (AList.update k v m) \<subseteq> insert (k, v) (set m)"
  by (induction m) auto

lemma set_delete_subset: "set (AList.delete k m) \<subseteq> set m"
  by (auto simp: AList.delete_eq)

lemma length_delete_in:
  assumes "distinct (map fst m)" "k \<in> fst ` set m"
  shows "Suc (length (AList.delete k m)) = length m"
  using assms by (induction m) (auto simp: delete_id)

lemma map_of_eq_None_delete_id: "map_of m k = None \<Longrightarrow> AList.delete k m = m"
  by (simp add: map_of_eq_None_iff delete_id)

end
