(* ===== verification/Errors.thy ===== *)
theory Errors
  imports Prelude "HOL-Library.Char_ord"
begin

text \<open>
  The error vocabulary (\<open>include/errors/filehopz_error.hpp\<close>,
  \<open>src/errors/filehopz_error.cpp\<close>): the enum \<open>Error_code\<close>, its category with the
  message table, and the \<open>boost::system::error_code\<close> values that every operation of
  the program returns. A Boost error code is a pair of an integer and a category, and it
  is a failure exactly when the integer is not zero; the default-constructed value is
  success.
\<close>

subsection \<open>The enum\<close>

datatype Error_code =
  crypto_context_not_ready
| crypto_key_generation_failed
| crypto_peer_key_failed
| crypto_hkdf_failed
| crypto_random_failed
| crypto_encrypt_failed
| crypto_decrypt_failed
| crypto_ciphertext_too_short
| loops_not_running
| packet_too_large
| invalid_handshake_key_size
| transport_encrypt_failed
| transport_decrypt_failed
| stream_payload_too_large
| connection_idle_timeout
| malformed_packet
| receiver_refused_transfer
| unknown_packet_type
| transfer_size_exceeded
| premature_end_transfer
| unsupported_file_type
| symlink_payload_too_large
| malformed_symlink_payload
| unknown_file_id
| file_open_failed
| file_write_failed

primrec error_value :: "Error_code \<Rightarrow> int" where
  "error_value crypto_context_not_ready = 0"
| "error_value crypto_key_generation_failed = 1"
| "error_value crypto_peer_key_failed = 2"
| "error_value crypto_hkdf_failed = 3"
| "error_value crypto_random_failed = 4"
| "error_value crypto_encrypt_failed = 5"
| "error_value crypto_decrypt_failed = 6"
| "error_value crypto_ciphertext_too_short = 7"
| "error_value loops_not_running = 8"
| "error_value packet_too_large = 9"
| "error_value invalid_handshake_key_size = 10"
| "error_value transport_encrypt_failed = 11"
| "error_value transport_decrypt_failed = 12"
| "error_value stream_payload_too_large = 13"
| "error_value connection_idle_timeout = 14"
| "error_value malformed_packet = 15"
| "error_value receiver_refused_transfer = 16"
| "error_value unknown_packet_type = 17"
| "error_value transfer_size_exceeded = 18"
| "error_value premature_end_transfer = 19"
| "error_value unsupported_file_type = 20"
| "error_value symlink_payload_too_large = 21"
| "error_value malformed_symlink_payload = 22"
| "error_value unknown_file_id = 23"
| "error_value file_open_failed = 24"
| "error_value file_write_failed = 25"

instantiation Error_code :: enum
begin

definition enum_Error_code :: "Error_code list" where
  "enum_Error_code =
     [crypto_context_not_ready, crypto_key_generation_failed, crypto_peer_key_failed,
      crypto_hkdf_failed, crypto_random_failed, crypto_encrypt_failed,
      crypto_decrypt_failed, crypto_ciphertext_too_short, loops_not_running,
      packet_too_large, invalid_handshake_key_size, transport_encrypt_failed,
      transport_decrypt_failed, stream_payload_too_large, connection_idle_timeout,
      malformed_packet, receiver_refused_transfer, unknown_packet_type,
      transfer_size_exceeded, premature_end_transfer, unsupported_file_type,
      symlink_payload_too_large, malformed_symlink_payload, unknown_file_id,
      file_open_failed, file_write_failed]"

definition enum_all_Error_code :: "(Error_code \<Rightarrow> bool) \<Rightarrow> bool" where
  "enum_all_Error_code P = list_all P enum_class.enum"

definition enum_ex_Error_code :: "(Error_code \<Rightarrow> bool) \<Rightarrow> bool" where
  "enum_ex_Error_code P = list_ex P enum_class.enum"

instance
proof
  show *: "(UNIV :: Error_code set) = set enum_class.enum"
  proof (rule set_eqI)
    fix x :: Error_code
    show "x \<in> UNIV \<longleftrightarrow> x \<in> set enum_class.enum"
      by (cases x) (simp_all add: enum_Error_code_def)
  qed
  show "distinct (enum_class.enum :: Error_code list)"
    by (simp add: enum_Error_code_def)
  show "enum_class.enum_all P \<longleftrightarrow> Ball UNIV P" for P :: "Error_code \<Rightarrow> bool"
    unfolding enum_all_Error_code_def * by (simp add: list_all_iff)
  show "enum_class.enum_ex P \<longleftrightarrow> Bex UNIV P" for P :: "Error_code \<Rightarrow> bool"
    unfolding enum_ex_Error_code_def * by (simp add: list_ex_iff)
qed

end

lemma error_value_range: "0 \<le> error_value c \<and> error_value c \<le> 25"
  by (cases c) simp_all

definition error_of_value :: "int \<Rightarrow> Error_code option" where
  "error_of_value v = find (\<lambda>c. error_value c = v) enum_class.enum"

lemma error_of_value [simp]: "error_of_value (error_value c) = Some c"
  by (cases c) (simp_all add: error_of_value_def enum_Error_code_def)

lemma error_value_inject: "error_value c = error_value d \<longleftrightarrow> c = d"
  by (metis error_of_value option.inject)

instantiation Error_code :: linorder
begin

definition less_eq_Error_code :: "Error_code \<Rightarrow> Error_code \<Rightarrow> bool" where
  "less_eq_Error_code c d \<longleftrightarrow> error_value c \<le> error_value d"

definition less_Error_code :: "Error_code \<Rightarrow> Error_code \<Rightarrow> bool" where
  "less_Error_code c d \<longleftrightarrow> error_value c < error_value d"

instance
  by standard (auto simp: less_eq_Error_code_def less_Error_code_def error_value_inject)

end

subsection \<open>Boost error codes\<close>

datatype error_category = System_category | Generic_category | Filehopz_category

record error_code =
  ec_value :: int
  ec_category :: error_category

definition no_error :: error_code where
  "no_error = \<lparr>ec_value = 0, ec_category = System_category\<rparr>"

definition ec_failed :: "error_code \<Rightarrow> bool" where
  "ec_failed ec \<longleftrightarrow> ec_value ec \<noteq> 0"

definition make_error_code :: "Error_code \<Rightarrow> error_code" where
  "make_error_code c = \<lparr>ec_value = error_value c, ec_category = Filehopz_category\<rparr>"

text \<open>\<open>boost::asio::error::operation_aborted\<close> is \<open>ECANCELED\<close> of the system category.\<close>

definition operation_aborted :: error_code where
  "operation_aborted = \<lparr>ec_value = 125, ec_category = System_category\<rparr>"

definition generic_error :: "int \<Rightarrow> error_code" where
  "generic_error v = \<lparr>ec_value = v, ec_category = Generic_category\<rparr>"

definition no_such_file_or_directory :: error_code where
  "no_such_file_or_directory = generic_error 2"

definition file_exists :: error_code where
  "file_exists = generic_error 17"

definition is_a_directory :: error_code where
  "is_a_directory = generic_error 21"

definition invalid_argument :: error_code where
  "invalid_argument = generic_error 22"

lemmas error_code_defs =
  no_error_def ec_failed_def make_error_code_def operation_aborted_def generic_error_def
  no_such_file_or_directory_def file_exists_def is_a_directory_def invalid_argument_def

lemma ec_failed_no_error [simp]: "\<not> ec_failed no_error"
  by (simp add: error_code_defs)

lemma ec_failed_operation_aborted [simp]: "ec_failed operation_aborted"
  by (simp add: error_code_defs)

lemma ec_failed_make_error_code [simp]:
  "ec_failed (make_error_code c) \<longleftrightarrow> c \<noteq> crypto_context_not_ready"
  by (cases c) (simp_all add: error_code_defs)

lemma make_error_code_inject [simp]: "make_error_code c = make_error_code d \<longleftrightarrow> c = d"
  by (simp add: make_error_code_def error_value_inject)

lemma make_error_code_neq [simp]:
  "make_error_code c \<noteq> operation_aborted" "make_error_code c \<noteq> no_error"
  by (simp_all add: error_code_defs)

subsection \<open>Names and messages\<close>

primrec error_name :: "Error_code \<Rightarrow> string" where
  "error_name crypto_context_not_ready = ''crypto_context_not_ready''"
| "error_name crypto_key_generation_failed = ''crypto_key_generation_failed''"
| "error_name crypto_peer_key_failed = ''crypto_peer_key_failed''"
| "error_name crypto_hkdf_failed = ''crypto_hkdf_failed''"
| "error_name crypto_random_failed = ''crypto_random_failed''"
| "error_name crypto_encrypt_failed = ''crypto_encrypt_failed''"
| "error_name crypto_decrypt_failed = ''crypto_decrypt_failed''"
| "error_name crypto_ciphertext_too_short = ''crypto_ciphertext_too_short''"
| "error_name loops_not_running = ''loops_not_running''"
| "error_name packet_too_large = ''packet_too_large''"
| "error_name invalid_handshake_key_size = ''invalid_handshake_key_size''"
| "error_name transport_encrypt_failed = ''transport_encrypt_failed''"
| "error_name transport_decrypt_failed = ''transport_decrypt_failed''"
| "error_name stream_payload_too_large = ''stream_payload_too_large''"
| "error_name connection_idle_timeout = ''connection_idle_timeout''"
| "error_name malformed_packet = ''malformed_packet''"
| "error_name receiver_refused_transfer = ''receiver_refused_transfer''"
| "error_name unknown_packet_type = ''unknown_packet_type''"
| "error_name transfer_size_exceeded = ''transfer_size_exceeded''"
| "error_name premature_end_transfer = ''premature_end_transfer''"
| "error_name unsupported_file_type = ''unsupported_file_type''"
| "error_name symlink_payload_too_large = ''symlink_payload_too_large''"
| "error_name malformed_symlink_payload = ''malformed_symlink_payload''"
| "error_name unknown_file_id = ''unknown_file_id''"
| "error_name file_open_failed = ''file_open_failed''"
| "error_name file_write_failed = ''file_write_failed''"

primrec message_of :: "Error_code \<Rightarrow> string" where
  "message_of crypto_context_not_ready =
     ''crypto context is not ready: handshake did not finish before encryption or decryption''"
| "message_of crypto_key_generation_failed =
     ''failed to generate local crypto key material with OpenSSL''"
| "message_of crypto_peer_key_failed =
     ''failed to accept peer public key or derive shared X25519 secret''"
| "message_of crypto_hkdf_failed =
     ''failed to derive session encryption key with HKDF''"
| "message_of crypto_random_failed =
     ''failed to generate cryptographic random nonce''"
| "message_of crypto_encrypt_failed =
     ''failed to encrypt packet payload with ChaCha20-Poly1305''"
| "message_of crypto_decrypt_failed =
     ''failed to decrypt or authenticate packet payload; data may be corrupted or keys do not match''"
| "message_of crypto_ciphertext_too_short =
     ''encrypted packet is too short to contain nonce, payload and authentication tag''"
| "message_of loops_not_running =
     ''transport loops are not running; protocol operation cannot continue''"
| "message_of packet_too_large =
     ''packet size exceeds FileHopZ protocol limit''"
| "message_of invalid_handshake_key_size =
     ''handshake packet contains public key with unexpected size''"
| "message_of transport_encrypt_failed =
     ''transport failed to encrypt outgoing packet''"
| "message_of transport_decrypt_failed =
     ''transport failed to decrypt incoming packet''"
| "message_of stream_payload_too_large =
     ''stream payload is larger than one FileHopZ transport packet''"
| "message_of connection_idle_timeout =
     ''connection timed out: no packets received from peer for 30 seconds''"
| "message_of malformed_packet =
     ''received malformed FileHopZ packet; sender and receiver may use incompatible versions or data is corrupted''"
| "message_of receiver_refused_transfer =
     ''receiver refused the file transfer''"
| "message_of unknown_packet_type =
     ''received unknown FileHopZ file-transfer packet type''"
| "message_of transfer_size_exceeded =
     ''sender attempted to send more file data than was announced before transfer''"
| "message_of premature_end_transfer =
     ''sender ended transfer before all announced file data was received''"
| "message_of unsupported_file_type =
     ''input contains unsupported filesystem entry type''"
| "message_of symlink_payload_too_large =
     ''symlink path and target are too large for one FileHopZ file-transfer packet''"
| "message_of malformed_symlink_payload =
     ''received malformed symlink packet payload''"
| "message_of unknown_file_id =
     ''packet references unknown file id; file was not opened or was already closed''"
| "message_of file_open_failed =
     ''failed to open destination or source file''"
| "message_of file_write_failed =
     ''failed to write destination file data''"

definition message :: "int \<Rightarrow> string" where
  "message v = (case error_of_value v of Some c \<Rightarrow> message_of c
                | None \<Rightarrow> ''unknown FileHopZ error'')"


lemma distinct_error_names: "distinct (map error_name enum_class.enum)"
  by (simp add: enum_Error_code_def)

lemma distinct_messages: "distinct (map message_of enum_class.enum)"
  by (simp add: enum_Error_code_def)

lemma enum_inj_onD:
  fixes f :: "'a::enum \<Rightarrow> 'b"
  assumes "distinct (map f enum_class.enum)" and "f c = f d"
  shows "c = d"
  using assms by (auto simp: distinct_map enum_UNIV inj_on_def)

end
