(* ===== verification/Double_Arith.thy ===== *)
theory Double_Arith
  imports Complex_Main "HOL-Library.Log_Nat"
begin

text \<open>
  IEEE binary64 arithmetic as far as the congestion window uses it. A C++ \<open>double\<close> is
  modelled by the rational it stands for; every arithmetic operation is the exact
  rational operation followed by \<open>to_double\<close>, rounding to nearest with ties to even at 53
  significant bits. The values of the program stay in \<open>[2\<^sup>-\<^sup>1\<^sup>0, 2\<^sup>1\<^sup>1]\<close>, so
  overflow, subnormals, infinities and NaN do not occur and are not modelled.
\<close>

text \<open>The exponent \<open>e\<close> with \<open>2^e \<le> x < 2^(e+1)\<close>.\<close>

definition binade :: "rat \<Rightarrow> int" where
  "binade x =
     (if 1 \<le> x then int (floorlog 2 (nat \<lfloor>x\<rfloor>)) - 1
      else - int (floorlog 2 (nat (\<lceil>1 / x\<rceil> - 1))))"

definition round_even :: "rat \<Rightarrow> int" where
  "round_even y =
     (let f = \<lfloor>y\<rfloor>; d = y - of_int f in
      if d < 1 / 2 then f else if 1 / 2 < d then f + 1
      else if even f then f else f + 1)"

definition to_double :: "rat \<Rightarrow> rat" where
  "to_double x =
     (if x \<le> 0 then 0
      else let q = 2 powi (binade x - 52) in of_int (round_even (x / q)) * q)"

definition double_add :: "rat \<Rightarrow> rat \<Rightarrow> rat" where
  "double_add x y = to_double (x + y)"

definition double_div :: "rat \<Rightarrow> rat \<Rightarrow> rat" where
  "double_div x y = to_double (x / y)"

text \<open>\<open>static_cast<std::size_t>\<close> of a non-negative double.\<close>

definition double_to_size :: "rat \<Rightarrow> nat" where
  "double_to_size x = nat \<lfloor>x\<rfloor>"

subsection \<open>Rounding to an integer\<close>

lemma round_even_of_int [simp]: "round_even (of_int m) = m"
  by (simp add: round_even_def Let_def)

lemma round_even_ge:
  assumes "of_int m \<le> y"
  shows "m \<le> round_even y"
proof -
  have "m \<le> \<lfloor>y\<rfloor>" using assms by (simp add: le_floor_iff)
  then show ?thesis by (simp add: round_even_def Let_def)
qed

lemma round_even_le: "y \<le> of_int m \<Longrightarrow> round_even y \<le> m"
proof -
  assume y: "y \<le> of_int m"
  then have f: "\<lfloor>y\<rfloor> \<le> m" by (simp add: floor_le_iff)
  show ?thesis
  proof (cases "\<lfloor>y\<rfloor> = m")
    case True
    with y have "y - of_int \<lfloor>y\<rfloor> \<le> 0" by simp
    then have "round_even y = \<lfloor>y\<rfloor>" by (simp add: round_even_def Let_def)
    then show ?thesis using f by simp
  next
    case False
    with f have "\<lfloor>y\<rfloor> + 1 \<le> m" by simp
    then show ?thesis by (auto simp: round_even_def Let_def)
  qed
qed

subsection \<open>Exponents\<close>

lemma binade_bounds:
  assumes "1 \<le> x"
  shows "0 \<le> binade x" "2 powi binade x \<le> x" "x < 2 powi (binade x + 1)"
proof -
  define n where "n = nat \<lfloor>x\<rfloor>"
  have n: "0 < n" "of_nat n = (of_int \<lfloor>x\<rfloor> :: rat)"
    using assms by (simp_all add: n_def zero_less_floor)
  have fl: "2 ^ (floorlog 2 n - 1) \<le> n" "n < 2 ^ floorlog 2 n"
    using floorlog_bounds [of n 2] n(1) by auto
  have pos: "0 < floorlog 2 n" using n(1) by (simp add: floorlog_def)
  have b: "binade x = int (floorlog 2 n - 1)" "binade x + 1 = int (floorlog 2 n)"
    using assms pos by (simp_all add: binade_def n_def)
  show "0 \<le> binade x" using b by simp
  have "(2 :: rat) ^ (floorlog 2 n - 1) \<le> of_nat n"
    using fl(1) by (metis of_nat_le_iff of_nat_numeral of_nat_power)
  also have "\<dots> \<le> x" by (simp add: n)
  finally show "2 powi binade x \<le> x" by (simp add: b(1))
  have "Suc n \<le> 2 ^ floorlog 2 n" using fl(2) by simp
  then have "(of_nat (Suc n) :: rat) \<le> 2 ^ floorlog 2 n"
    by (metis of_nat_le_iff of_nat_numeral of_nat_power)
  moreover have "x < of_nat (Suc n)" using n(2) by (simp add: add.commute) linarith
  ultimately show "x < 2 powi (binade x + 1)" by (simp add: b(2))
qed

lemma powi_2_less_iff: "(2 :: rat) powi a < 2 powi b \<longleftrightarrow> a < b"
  by (meson linorder_not_less one_le_numeral one_less_numeral_iff power_int_increasing
      power_int_strict_increasing semiring_norm(76))

lemma powi_2_pos: "(0 :: rat) < 2 powi a"
  by simp

lemma binade_unique:
  assumes "1 \<le> x" "2 powi e \<le> x" "x < 2 powi (e + 1)"
  shows "binade x = e"
proof -
  have "(2 :: rat) powi binade x < 2 powi (e + 1)" "(2 :: rat) powi e < 2 powi (binade x + 1)"
    using binade_bounds [OF assms(1)] assms(2,3) by linarith+
  then show ?thesis by (simp add: powi_2_less_iff)
qed

subsection \<open>Rounding to a double\<close>

text \<open>A double of binade \<open>e\<close> is \<open>m * 2^(e-52)\<close> with a 53-bit integer \<open>m\<close>.\<close>

lemma powi_2_split: "(2 :: rat) powi e = 2 ^ 52 * 2 powi (e - 52)"
proof -
  have "(2 :: rat) powi e = 2 powi (52 + (e - 52))" by simp
  also have "\<dots> = 2 powi 52 * 2 powi (e - 52)" by (rule power_int_add) simp
  finally show ?thesis by simp
qed

lemma to_double_ge1:
  assumes "1 \<le> x"
  shows "to_double x = of_int (round_even (x / 2 powi (binade x - 52))) * 2 powi (binade x - 52)"
  using assms by (simp add: to_double_def Let_def)

lemma scaled_bounds:
  assumes "1 \<le> x"
  shows "of_int (2 ^ 52) \<le> x / 2 powi (binade x - 52)"
    and "x / 2 powi (binade x - 52) \<le> of_int (2 ^ 53)"
proof -
  define q :: rat where "q = 2 powi (binade x - 52)"
  have q: "0 < q" by (simp add: q_def)
  have "2 ^ 52 * q \<le> x"
    using binade_bounds(2) [OF assms] by (simp add: powi_2_split [of "binade x"] q_def)
  then show "of_int (2 ^ 52) \<le> x / 2 powi (binade x - 52)"
    using q by (simp add: pos_le_divide_eq flip: q_def)
  have "(2 :: rat) powi (binade x + 1) = 2 * 2 powi binade x"
    by (simp add: power_int_add_1')
  then have "x \<le> 2 ^ 53 * q"
    using binade_bounds(3) [OF assms] by (simp add: powi_2_split [of "binade x"] q_def)
  then show "x / 2 powi (binade x - 52) \<le> of_int (2 ^ 53)"
    using q by (simp add: pos_divide_le_eq flip: q_def)
qed

lemma to_double_mantissa:
  assumes "1 \<le> x"
  obtains m where "to_double x = of_int m * 2 powi (binade x - 52)" "2 ^ 52 \<le> m" "m \<le> 2 ^ 53"
  using that [OF to_double_ge1 [OF assms]] round_even_ge [OF scaled_bounds(1) [OF assms]]
    round_even_le [OF scaled_bounds(2) [OF assms]] by blast

lemma to_double_bounds:
  assumes "1 \<le> x"
  shows "2 powi binade x \<le> to_double x" "to_double x \<le> 2 powi (binade x + 1)"
proof -
  define q :: rat where "q = 2 powi (binade x - 52)"
  have q: "0 < q" by (simp add: q_def)
  obtain m where m: "to_double x = of_int m * q" "2 ^ 52 \<le> m" "m \<le> 2 ^ 53"
    using to_double_mantissa [OF assms] unfolding q_def .
  have "(of_int (2 ^ 52) :: rat) \<le> of_int m" "of_int m \<le> (of_int (2 ^ 53) :: rat)"
    using m(2,3) of_int_le_iff by blast+
  then have "2 ^ 52 * q \<le> of_int m * q" "of_int m * q \<le> 2 ^ 53 * q"
    using q by simp_all
  then show "2 powi binade x \<le> to_double x" "to_double x \<le> 2 powi (binade x + 1)"
    by (simp_all add: m(1) powi_2_split [of "binade x"] power_int_add_1' flip: q_def)
qed

lemma to_double_ge_1: "1 \<le> x \<Longrightarrow> 1 \<le> to_double x"
proof -
  assume x: "1 \<le> x"
  have "(2 :: rat) powi 0 \<le> 2 powi binade x"
    using binade_bounds(1) [OF x] by (intro power_int_increasing) simp_all
  then show ?thesis using to_double_bounds(1) [OF x] by simp
qed

lemma to_double_nonneg: "0 \<le> to_double x"
proof (cases "x \<le> 0")
  case False
  then have "0 \<le> round_even (x / 2 powi (binade x - 52))"
    by (intro round_even_ge) simp
  with False show ?thesis by (simp add: to_double_def Let_def)
qed (simp add: to_double_def)

text \<open>A rational is a double when rounding leaves it alone.\<close>

definition is_double :: "rat \<Rightarrow> bool" where
  "is_double x \<longleftrightarrow> to_double x = x"

lemma is_double_mantissa:
  assumes "2 ^ 52 \<le> m" "m < 2 ^ 53" "0 \<le> e"
  shows "is_double (of_int m * 2 powi (e - 52))"
proof -
  define x :: rat where "x = of_int m * 2 powi (e - 52)"
  have "(of_int (2 ^ 52) :: rat) \<le> of_int m" "of_int m < (of_int (2 ^ 53) :: rat)"
    using assms(1,2) of_int_le_iff of_int_less_iff by blast+
  then have b: "2 powi e \<le> x" "x < 2 powi (e + 1)"
    by (simp_all add: x_def powi_2_split [of e] power_int_add_1')
  have "(2 :: rat) powi 0 \<le> 2 powi e"
    using assms(3) by (intro power_int_increasing) simp_all
  then have x1: "1 \<le> x" using b(1) by simp
  have "binade x = e" by (rule binade_unique [OF x1 b])
  then show ?thesis
    using to_double_ge1 [OF x1] by (simp add: is_double_def x_def)
qed

lemma is_double_power:
  assumes "0 \<le> e"
  shows "is_double (2 powi e)"
  using is_double_mantissa [of "2 ^ 52" e] assms by (simp add: powi_2_split [of e])

lemma is_double_to_double:
  assumes "1 \<le> x"
  shows "is_double (to_double x)"
proof -
  have e: "0 \<le> binade x" by (rule binade_bounds(1) [OF assms])
  obtain m where m: "to_double x = of_int m * 2 powi (binade x - 52)" "2 ^ 52 \<le> m" "m \<le> 2 ^ 53"
    using to_double_mantissa [OF assms] .
  show ?thesis
  proof (cases "m = 2 ^ 53")
    case True
    then have "to_double x = 2 powi (binade x + 1)"
      by (simp add: m(1) powi_2_split [of "binade x"] power_int_add_1')
    then show ?thesis using is_double_power [of "binade x + 1"] e by simp
  next
    case False
    then show ?thesis using is_double_mantissa [of m "binade x"] m e by simp
  qed
qed

text \<open>Rounding never crosses a double: the law behind the growth of the window.\<close>

lemma to_double_ge:
  assumes c: "is_double c" "1 \<le> c" and cx: "c \<le> x"
  shows "c \<le> to_double x"
proof -
  have x: "1 \<le> x" using c(2) cx by simp
  consider "binade c < binade x" | "binade c = binade x" | "binade x < binade c" by linarith
  then show ?thesis
  proof cases
    case 1
    then have "(2 :: rat) powi (binade c + 1) \<le> 2 powi binade x"
      by (intro power_int_increasing) simp_all
    then show ?thesis using binade_bounds(3) [OF c(2)] to_double_bounds(1) [OF x] by linarith
  next
    case 2
    define q :: rat where "q = 2 powi (binade x - 52)"
    have q: "0 < q" by (simp add: q_def)
    obtain m where m: "c = of_int m * q"
      using to_double_mantissa [OF c(2)] c(1) unfolding 2 q_def is_double_def by metis
    have "of_int m \<le> x / q" using cx q by (simp add: m pos_le_divide_eq)
    then have "m \<le> round_even (x / q)" by (rule round_even_ge)
    then show ?thesis using q by (simp add: to_double_ge1 [OF x] m flip: q_def)
  next
    case 3
    then have "(2 :: rat) powi (binade x + 1) \<le> 2 powi binade c"
      by (intro power_int_increasing) simp_all
    then show ?thesis using binade_bounds(2) [OF c(2)] binade_bounds(3) [OF x] cx by linarith
  qed
qed

end
