(* ===== verification/Async_Queue.thy ===== *)
theory Async_Queue
  imports Errors
begin

text \<open>
  \<open>Async_queue<T>\<close> (\<open>include/utils/async_queue.hpp\<close>): a FIFO of values and a FIFO of
  suspended \<open>pop()\<close> calls. A waiter \<open>'w\<close> is the identity of a completion handler
  (the code compares \<open>shared_ptr<Waiter>\<close>); an operation returns the new queue and the
  handlers it dispatches, in order. The interface \<open>fifo_channel\<close> is what the transport
  and the stream rely on: values come out exactly once, in the order they were put in.
\<close>

subsection \<open>State and operations\<close>

record ('w, 'a) async_queue =
  aq_queue :: "'a list"
  aq_waiters :: "'w list"

datatype ('w, 'a) completion = Completed (handler: 'w) (status: error_code) (value_of: 'a)

definition aq_init :: "('w, 'a) async_queue" where
  "aq_init = \<lparr>aq_queue = [], aq_waiters = []\<rparr>"

definition aq_push ::
  "'a \<Rightarrow> ('w, 'a) async_queue \<Rightarrow> ('w, 'a) async_queue \<times> ('w, 'a) completion list" where
  "aq_push v q =
     (case aq_waiters q of
        w # ws \<Rightarrow> (q\<lparr>aq_waiters := ws\<rparr>, [Completed w no_error v])
      | [] \<Rightarrow> (q\<lparr>aq_queue := aq_queue q @ [v]\<rparr>, []))"

definition aq_pop ::
  "'w \<Rightarrow> ('w, 'a) async_queue \<Rightarrow> ('w, 'a) async_queue \<times> ('w, 'a) completion list" where
  "aq_pop w q =
     (case aq_queue q of
        v # vs \<Rightarrow> (q\<lparr>aq_queue := vs\<rparr>, [Completed w no_error v])
      | [] \<Rightarrow> (q\<lparr>aq_waiters := aq_waiters q @ [w]\<rparr>, []))"

text \<open>
  The cancellation handler that a suspended \<open>pop()\<close> installs: it erases the waiter and
  completes it with \<open>operation_aborted\<close> and the default value \<open>T{}\<close>.
\<close>

definition aq_cancel ::
  "'a \<Rightarrow> 'w \<Rightarrow> ('w, 'a) async_queue \<Rightarrow> ('w, 'a) async_queue \<times> ('w, 'a) completion list" where
  "aq_cancel dflt w q =
     (q\<lparr>aq_waiters := removeAll w (aq_waiters q)\<rparr>, [Completed w operation_aborted dflt])"

text \<open>The values handed out by a list of completions (aborted handlers get none).\<close>

definition delivered :: "('w, 'a) completion list \<Rightarrow> 'a list" where
  "delivered cs = map value_of (filter (\<lambda>c. status c = no_error) cs)"

lemma delivered_simps [simp]:
  "delivered [] = []"
  "delivered (Completed w no_error v # cs) = v # delivered cs"
  "delivered (Completed w operation_aborted v # cs) = delivered cs"
  "delivered (cs @ ds) = delivered cs @ delivered ds"
  by (simp_all add: delivered_def error_code_defs)

subsection \<open>Invariant\<close>

text \<open>A value never waits while somebody waits for one.\<close>

definition aq_inv :: "('w, 'a) async_queue \<Rightarrow> bool" where
  "aq_inv q \<longleftrightarrow> aq_queue q = [] \<or> aq_waiters q = []"

lemma aq_inv_init [simp]: "aq_inv aq_init"
  by (simp add: aq_inv_def aq_init_def)

lemma aq_push_inv [inv_intros]: "aq_inv q \<Longrightarrow> aq_inv (fst (aq_push v q))"
  by (auto simp: aq_inv_def aq_push_def split: list.splits)

lemma aq_pop_inv [inv_intros]: "aq_inv q \<Longrightarrow> aq_inv (fst (aq_pop w q))"
  by (auto simp: aq_inv_def aq_pop_def split: list.splits)

lemma aq_cancel_inv [inv_intros]: "aq_inv q \<Longrightarrow> aq_inv (fst (aq_cancel d w q))"
  by (auto simp: aq_inv_def aq_cancel_def)

subsection \<open>Interface: a FIFO channel\<close>

datatype ('w, 'a) channel_op = Put 'a | Get 'w | Cancel 'w

fun puts :: "('w, 'a) channel_op list \<Rightarrow> 'a list" where
  "puts [] = []"
| "puts (Put v # es) = v # puts es"
| "puts (Get w # es) = puts es"
| "puts (Cancel w # es) = puts es"

locale fifo_channel =
  fixes put :: "'a \<Rightarrow> 'q \<Rightarrow> 'q \<times> ('w, 'a) completion list"
    and get :: "'w \<Rightarrow> 'q \<Rightarrow> 'q \<times> ('w, 'a) completion list"
    and cancel :: "'w \<Rightarrow> 'q \<Rightarrow> 'q \<times> ('w, 'a) completion list"
    and contents :: "'q \<Rightarrow> 'a list"
    and ok :: "'q \<Rightarrow> bool"
  assumes ok_put: "ok q \<Longrightarrow> ok (fst (put v q))"
    and ok_get: "ok q \<Longrightarrow> ok (fst (get w q))"
    and ok_cancel: "ok q \<Longrightarrow> ok (fst (cancel w q))"
    and put_conserves:
      "ok q \<Longrightarrow> delivered (snd (put v q)) @ contents (fst (put v q)) = contents q @ [v]"
    and get_conserves:
      "ok q \<Longrightarrow> delivered (snd (get w q)) @ contents (fst (get w q)) = contents q"
    and cancel_conserves:
      "ok q \<Longrightarrow> delivered (snd (cancel w q)) = [] \<and> contents (fst (cancel w q)) = contents q"
begin

fun perform :: "'q \<Rightarrow> ('w, 'a) channel_op \<Rightarrow> 'q \<times> ('w, 'a) completion list" where
  "perform q (Put v) = put v q"
| "perform q (Get w) = get w q"
| "perform q (Cancel w) = cancel w q"

fun history :: "'q \<Rightarrow> ('w, 'a) channel_op list \<Rightarrow> 'q \<times> ('w, 'a) completion list" where
  "history q [] = (q, [])"
| "history q (e # es) =
     (let (q1, cs) = perform q e; (q2, ds) = history q1 es in (q2, cs @ ds))"

lemma ok_perform: "ok q \<Longrightarrow> ok (fst (perform q e))"
  by (cases e) (auto intro: ok_put ok_get ok_cancel)

lemma perform_conserves:
  "ok q \<Longrightarrow> delivered (snd (perform q e)) @ contents (fst (perform q e)) = contents q @ puts [e]"
  by (cases e) (auto simp: put_conserves get_conserves cancel_conserves)

lemma puts_Cons: "puts (e # es) = puts [e] @ puts es"
  by (cases e) auto

text \<open>Nothing is lost, duplicated or reordered over any history.\<close>

lemma history_conserves:
  "ok q \<Longrightarrow>
   delivered (snd (history q es)) @ contents (fst (history q es)) = contents q @ puts es"
proof (induction es arbitrary: q)
  case Nil
  then show ?case by simp
next
  case (Cons e es)
  obtain q1 cs where p: "perform q e = (q1, cs)" by force
  obtain q2 ds where h: "history q1 es = (q2, ds)" by force
  have "delivered ds @ contents q2 = contents q1 @ puts es"
    using Cons.IH [of q1] ok_perform [OF Cons.prems, of e] by (simp add: p h)
  moreover have "delivered cs @ contents q1 = contents q @ puts [e]"
    using perform_conserves [OF Cons.prems, of e] by (simp add: p)
  ultimately show ?case by (simp add: p h puts_Cons [of e es])
qed

lemma ok_history: "ok q \<Longrightarrow> ok (fst (history q es))"
proof (induction es arbitrary: q)
  case Nil
  then show ?case by simp
next
  case (Cons e es)
  then show ?case
    using ok_perform [OF Cons.prems, of e] by (auto split: prod.splits dest: Cons.IH)
qed

end

interpretation aq: fifo_channel aq_push aq_pop "aq_cancel d" aq_queue aq_inv
  by unfold_locales
    (auto intro: inv_intros simp: aq_push_def aq_pop_def aq_cancel_def aq_inv_def
      split: list.splits)

text \<open>The run of a queue, written out over the operations of the code.\<close>

fun aq_step ::
  "'a \<Rightarrow> ('w, 'a) async_queue \<Rightarrow> ('w, 'a) channel_op
     \<Rightarrow> ('w, 'a) async_queue \<times> ('w, 'a) completion list" where
  "aq_step d q (Put v) = aq_push v q"
| "aq_step d q (Get w) = aq_pop w q"
| "aq_step d q (Cancel w) = aq_cancel d w q"

fun aq_run ::
  "'a \<Rightarrow> ('w, 'a) async_queue \<Rightarrow> ('w, 'a) channel_op list
     \<Rightarrow> ('w, 'a) async_queue \<times> ('w, 'a) completion list" where
  "aq_run d q [] = (q, [])"
| "aq_run d q (e # es) =
     (let (q1, cs) = aq_step d q e; (q2, ds) = aq_run d q1 es in (q2, cs @ ds))"

lemma aq_step_perform: "aq_step d q e = aq.perform d q e"
  by (cases e) auto

lemma aq_run_history: "aq_run d q es = aq.history d q es"
  by (induction es arbitrary: q) (auto simp: aq_step_perform split: prod.splits)


end
