(* ===== verification/Async_Value.thy ===== *)
theory Async_Value
  imports Errors Async_Queue
begin

text \<open>
  \<open>Async_value<T>\<close> (\<open>include/utils/async_value.hpp\<close>): a value, a version counter of type
  \<open>std::size_t\<close> and a FIFO of suspended \<open>wait()\<close> calls. \<open>set\<close> wakes everybody,
  \<open>update\<close> wakes nobody, \<open>notify_one\<close> wakes the first waiter. As the callers already run
  on the strand, the dispatched bodies run in place.
\<close>

record ('w, 'a) async_value =
  av_value :: 'a
  av_version :: u64
  av_waiters :: "'w list"

definition av_init :: "'a \<Rightarrow> ('w, 'a) async_value" where
  "av_init v = \<lparr>av_value = v, av_version = 0, av_waiters = []\<rparr>"

definition av_get :: "('w, 'a) async_value \<Rightarrow> 'a" where
  "av_get s = av_value s"

definition av_set ::
  "'a \<Rightarrow> ('w, 'a) async_value \<Rightarrow> ('w, 'a) async_value \<times> ('w, 'a) completion list" where
  "av_set v s =
     (s\<lparr>av_value := v, av_version := av_version s + 1, av_waiters := []\<rparr>,
      map (\<lambda>w. Completed w no_error v) (av_waiters s))"

definition av_update :: "'a \<Rightarrow> ('w, 'a) async_value \<Rightarrow> ('w, 'a) async_value" where
  "av_update v s = s\<lparr>av_value := v, av_version := av_version s + 1\<rparr>"

definition av_notify_one ::
  "('w, 'a) async_value \<Rightarrow> ('w, 'a) async_value \<times> ('w, 'a) completion list" where
  "av_notify_one s =
     (case av_waiters s of
        [] \<Rightarrow> (s, [])
      | w # ws \<Rightarrow> (s\<lparr>av_waiters := ws\<rparr>, [Completed w no_error (av_value s)]))"

definition av_wait :: "'w \<Rightarrow> ('w, 'a) async_value \<Rightarrow> ('w, 'a) async_value" where
  "av_wait w s = s\<lparr>av_waiters := av_waiters s @ [w]\<rparr>"

definition av_cancel ::
  "'a \<Rightarrow> 'w \<Rightarrow> ('w, 'a) async_value \<Rightarrow> ('w, 'a) async_value \<times> ('w, 'a) completion list" where
  "av_cancel dflt w s =
     (s\<lparr>av_waiters := removeAll w (av_waiters s)\<rparr>, [Completed w operation_aborted dflt])"

lemmas av_defs = av_get_def av_set_def av_update_def av_notify_one_def av_wait_def av_cancel_def

subsection \<open>The operations of a run\<close>

datatype ('w, 'a) value_op = Set_op 'a | Update_op 'a | Notify_op | Wait_op 'w

fun av_step ::
  "('w, 'a) async_value \<Rightarrow> ('w, 'a) value_op
     \<Rightarrow> ('w, 'a) async_value \<times> ('w, 'a) completion list" where
  "av_step s (Set_op v) = av_set v s"
| "av_step s (Update_op v) = (av_update v s, [])"
| "av_step s Notify_op = av_notify_one s"
| "av_step s (Wait_op w) = (av_wait w s, [])"

fun av_run ::
  "('w, 'a) async_value \<Rightarrow> ('w, 'a) value_op list
     \<Rightarrow> ('w, 'a) async_value \<times> ('w, 'a) completion list" where
  "av_run s [] = (s, [])"
| "av_run s (e # es) =
     (let (s1, cs) = av_step s e; (s2, ds) = av_run s1 es in (s2, cs @ ds))"

fun waits :: "('w, 'a) value_op list \<Rightarrow> 'w list" where
  "waits [] = []"
| "waits (Wait_op w # es) = w # waits es"
| "waits (Set_op v # es) = waits es"
| "waits (Update_op v # es) = waits es"
| "waits (Notify_op # es) = waits es"

fun writes :: "('w, 'a) value_op list \<Rightarrow> 'a list" where
  "writes [] = []"
| "writes (Set_op v # es) = v # writes es"
| "writes (Update_op v # es) = v # writes es"
| "writes (Notify_op # es) = writes es"
| "writes (Wait_op w # es) = writes es"

lemma av_step_waiters:
  "map handler (snd (av_step s e)) @ av_waiters (fst (av_step s e)) = av_waiters s @ waits [e]"
  by (cases e) (auto simp: av_defs comp_def split: list.splits)

lemma waits_Cons: "waits (e # es) = waits [e] @ waits es"
  by (cases e) auto

lemma av_run_waiters:
  "map handler (snd (av_run s es)) @ av_waiters (fst (av_run s es)) = av_waiters s @ waits es"
proof (induction es arbitrary: s)
  case Nil
  then show ?case by simp
next
  case (Cons e es)
  obtain s1 cs where p: "av_step s e = (s1, cs)" by force
  obtain s2 ds where h: "av_run s1 es = (s2, ds)" by force
  have "map handler ds @ av_waiters s2 = av_waiters s1 @ waits es"
    using Cons.IH [of s1] by (simp add: h)
  moreover have "map handler cs @ av_waiters s1 = av_waiters s @ waits [e]"
    using av_step_waiters [of s e] by (simp add: p)
  ultimately show ?case by (simp add: p h waits_Cons [of e es])
qed

lemma av_step_value: "av_value (fst (av_step s e)) = last (av_value s # writes [e])"
  by (cases e) (auto simp: av_defs split: list.splits)

lemma writes_Cons: "writes (e # es) = writes [e] @ writes es"
  by (cases e) auto

lemma av_run_value: "av_value (fst (av_run s es)) = last (av_value s # writes es)"
proof (induction es arbitrary: s)
  case Nil
  then show ?case by simp
next
  case (Cons e es)
  obtain s1 cs where p: "av_step s e = (s1, cs)" by force
  obtain s2 ds where h: "av_run s1 es = (s2, ds)" by force
  have "av_value s2 = last (av_value s1 # writes es)"
    using Cons.IH [of s1] by (simp add: h)
  moreover have "av_value s1 = last (av_value s # writes [e])"
    using av_step_value [of s e] by (simp add: p)
  ultimately show ?case by (auto simp: p h writes_Cons [of e es])
qed


end
