(* ===== verification/Crypto_Context.thy ===== *)
theory Crypto_Context
  imports Errors
begin

text \<open>
  \<open>Crypto_context\<close> (\<open>include/utils/crypto_context.hpp\<close>, \<open>src/utils/crypto_context.cpp\<close>):
  X25519 key agreement, HKDF-SHA256 and ChaCha20-Poly1305 over OpenSSL. OpenSSL is not
  code of the repository, so each call the program makes is a field of the parameter
  record \<open>openssl\<close>: a call that only reports success is a \<open>bool\<close> (return code 1, or a
  non-null pointer), a call that also produces data is an \<open>option\<close>. The branches and
  the order of the calls are those of the code. What the theorems use of the library is
  collected in \<open>ecdh_agrees\<close> and \<open>aead_correct\<close>, which state its documented contract.
\<close>

subsection \<open>Constants\<close>

definition KEY_LEN :: nat where "KEY_LEN = 32"
definition NONCE_LEN :: nat where "NONCE_LEN = 12"
definition TAG_LEN :: nat where "TAG_LEN = 16"
definition X25519_LEN :: nat where "X25519_LEN = 32"

lemmas crypto_lengths = KEY_LEN_def NONCE_LEN_def TAG_LEN_def X25519_LEN_def

subsection \<open>OpenSSL as a parameter\<close>

record 'k openssl =
  \<comment> \<open>X25519\<close>
  pkey_ctx_new_id :: bool
  keygen_init :: bool
  keygen :: "'k option"
  get_raw_public_key :: "'k \<Rightarrow> bytes option"
  new_raw_public_key :: "bytes \<Rightarrow> bool"
  pkey_ctx_new :: "'k option \<Rightarrow> bool"
  derive_init :: bool
  derive_set_peer :: "'k \<Rightarrow> bytes \<Rightarrow> bool"
  x25519_derive :: "'k \<Rightarrow> bytes \<Rightarrow> bytes option"
  \<comment> \<open>HKDF\<close>
  hkdf_ctx_new_id :: bool
  hkdf_derive_init :: bool
  set_hkdf_md :: bool
  set1_hkdf_salt :: "bytes \<Rightarrow> bool"
  set1_hkdf_key :: "bytes \<Rightarrow> bool"
  add1_hkdf_info :: "bytes \<Rightarrow> bool"
  hkdf_derive :: "bytes \<Rightarrow> bytes \<Rightarrow> bytes \<Rightarrow> bytes option"
  \<comment> \<open>ChaCha20-Poly1305\<close>
  rand_bytes :: "bytes option"
  cipher_ctx_new :: bool
  cipher_init :: bool
  set_ivlen :: bool
  cipher_init_key :: "bytes \<Rightarrow> bytes \<Rightarrow> bool"
  encrypt_update :: "bytes \<Rightarrow> bytes \<Rightarrow> bytes \<Rightarrow> bytes option"
  encrypt_final :: bool
  get_tag :: "bytes \<Rightarrow> bytes \<Rightarrow> bytes \<Rightarrow> bytes option"
  decrypt_update :: "bytes \<Rightarrow> bytes \<Rightarrow> bytes \<Rightarrow> bytes option"
  set_tag :: bool
  decrypt_final :: "bytes \<Rightarrow> bytes \<Rightarrow> bytes \<Rightarrow> bytes \<Rightarrow> bool"

subsection \<open>The context\<close>

record 'k crypto_context =
  is_ready :: bool
  key_handle :: "'k option"
  own_public_key :: bytes
  peer_public_key :: bytes
  encryption_key :: bytes

text \<open>The byte arrays of a fresh context are not initialised: their content is a parameter.\<close>

definition crypto_new :: "bytes \<Rightarrow> bytes \<Rightarrow> bytes \<Rightarrow> 'k crypto_context" where
  "crypto_new own peer key =
     \<lparr>is_ready = False, key_handle = None, own_public_key = own,
      peer_public_key = peer, encryption_key = key\<rparr>"

definition crypto_init ::
  "'k openssl \<Rightarrow> 'k crypto_context \<Rightarrow> error_code \<times> 'k crypto_context" where
  "crypto_init ssl c =
     (let fail = make_error_code crypto_key_generation_failed in
      if \<not> pkey_ctx_new_id ssl then (fail, c)
      else if \<not> keygen_init ssl then (fail, c)
      else case keygen ssl of
        None \<Rightarrow> (fail, c)
      | Some raw_key \<Rightarrow>
          let c1 = c\<lparr>key_handle := Some raw_key\<rparr> in
          (case get_raw_public_key ssl raw_key of
             None \<Rightarrow> (fail, c1)
           | Some pub \<Rightarrow> (no_error, c1\<lparr>own_public_key := pub\<rparr>)))"

definition get_own_public_key :: "'k crypto_context \<Rightarrow> bytes" where
  "get_own_public_key c = own_public_key c"

text \<open>\<open>std::lexicographical_compare\<close> on unsigned bytes.\<close>

fun lex_less :: "bytes \<Rightarrow> bytes \<Rightarrow> bool" where
  "lex_less [] ys = (ys \<noteq> [])"
| "lex_less (x # xs) [] = False"
| "lex_less (x # xs) (y # ys) = (if x < y then True else if y < x then False else lex_less xs ys)"

definition hkdf_salt :: "bytes \<Rightarrow> bytes \<Rightarrow> bytes" where
  "hkdf_salt own peer = (if lex_less own peer then own @ peer else peer @ own)"

definition key_purpose_label :: bytes where
  "key_purpose_label = bytes_of_str ''x25519-chacha20poly1305''"

definition derive_session_key ::
  "'k openssl \<Rightarrow> bytes \<Rightarrow> bytes \<Rightarrow> bytes \<Rightarrow> bytes option" where
  "derive_session_key ssl own peer shared_secret =
     (let salt = hkdf_salt own peer in
      if \<not> hkdf_ctx_new_id ssl then None
      else if \<not> hkdf_derive_init ssl then None
      else if \<not> set_hkdf_md ssl then None
      else if \<not> set1_hkdf_salt ssl salt then None
      else if \<not> set1_hkdf_key ssl shared_secret then None
      else if \<not> add1_hkdf_info ssl key_purpose_label then None
      else hkdf_derive ssl salt shared_secret key_purpose_label)"

definition x25519_shared_secret ::
  "'k openssl \<Rightarrow> 'k option \<Rightarrow> bytes \<Rightarrow> bytes option" where
  "x25519_shared_secret ssl key peer =
     (if \<not> new_raw_public_key ssl peer then None
      else if \<not> pkey_ctx_new ssl key then None
      else if \<not> derive_init ssl then None
      else case key of
        None \<Rightarrow> None
      | Some k \<Rightarrow> if \<not> derive_set_peer ssl k peer then None else x25519_derive ssl k peer)"

definition set_peer_public_key ::
  "'k openssl \<Rightarrow> bytes \<Rightarrow> 'k crypto_context \<Rightarrow> error_code \<times> 'k crypto_context" where
  "set_peer_public_key ssl peer c =
     (let c1 = c\<lparr>peer_public_key := peer\<rparr> in
      case x25519_shared_secret ssl (key_handle c1) peer of
        None \<Rightarrow> (make_error_code crypto_peer_key_failed, c1)
      | Some secret \<Rightarrow>
          (case derive_session_key ssl (own_public_key c1) (peer_public_key c1) secret of
             None \<Rightarrow> (make_error_code crypto_hkdf_failed, c1)
           | Some key \<Rightarrow> (no_error, c1\<lparr>encryption_key := key, is_ready := True\<rparr>)))"

definition encrypt_data ::
  "'k openssl \<Rightarrow> 'k crypto_context \<Rightarrow> bytes \<Rightarrow> error_code + bytes" where
  "encrypt_data ssl c data =
     (let fail = Inl (make_error_code crypto_encrypt_failed); key = encryption_key c in
      if \<not> is_ready c then Inl (make_error_code crypto_context_not_ready)
      else case rand_bytes ssl of
        None \<Rightarrow> Inl (make_error_code crypto_random_failed)
      | Some nonce \<Rightarrow>
          if \<not> cipher_ctx_new ssl then fail
          else if \<not> cipher_init ssl then fail
          else if \<not> set_ivlen ssl then fail
          else if \<not> cipher_init_key ssl key nonce then fail
          else (case encrypt_update ssl key nonce data of
            None \<Rightarrow> fail
          | Some ct \<Rightarrow>
              if \<not> encrypt_final ssl then fail
              else (case get_tag ssl key nonce data of
                None \<Rightarrow> fail
              | Some tag \<Rightarrow> Inr (nonce @ ct @ tag))))"

definition decrypt_data ::
  "'k openssl \<Rightarrow> 'k crypto_context \<Rightarrow> bytes \<Rightarrow> error_code + bytes" where
  "decrypt_data ssl c data =
     (let fail = Inl (make_error_code crypto_decrypt_failed); key = encryption_key c in
      if \<not> is_ready c then Inl (make_error_code crypto_context_not_ready)
      else if length data \<le> NONCE_LEN + TAG_LEN
      then Inl (make_error_code crypto_ciphertext_too_short)
      else
        let nonce = take NONCE_LEN data;
            tag = drop (length data - TAG_LEN) data;
            ct = take (length data - NONCE_LEN - TAG_LEN) (drop NONCE_LEN data) in
        if \<not> cipher_ctx_new ssl then fail
        else if \<not> cipher_init ssl then fail
        else if \<not> set_ivlen ssl then fail
        else if \<not> cipher_init_key ssl key nonce then fail
        else (case decrypt_update ssl key nonce ct of
          None \<Rightarrow> fail
        | Some plain \<Rightarrow>
            if \<not> set_tag ssl then fail
            else if \<not> decrypt_final ssl key nonce ct tag then fail
            else Inr plain))"

subsection \<open>What the program relies on in OpenSSL\<close>

text \<open>Diffie-Hellman: both sides derive the same X25519 secret from the exchanged keys.\<close>

definition ecdh_agrees :: "'k openssl \<Rightarrow> bool" where
  "ecdh_agrees ssl \<longleftrightarrow>
     (\<forall>k1 k2 p1 p2.
        get_raw_public_key ssl k1 = Some p1 \<longrightarrow> get_raw_public_key ssl k2 = Some p2 \<longrightarrow>
        x25519_derive ssl k1 p2 = x25519_derive ssl k2 p1)"

text \<open>
  The stream cipher keeps lengths and is inverted under the same key and nonce, the tag
  it produced is accepted, and \<open>RAND_bytes\<close> fills the requested 12 bytes.
\<close>

definition aead_correct :: "'k openssl \<Rightarrow> bool" where
  "aead_correct ssl \<longleftrightarrow>
     (\<forall>nonce. rand_bytes ssl = Some nonce \<longrightarrow> length nonce = NONCE_LEN) \<and>
     (\<forall>key nonce plain ct.
        encrypt_update ssl key nonce plain = Some ct \<longrightarrow>
        length ct = length plain \<and> decrypt_update ssl key nonce ct = Some plain) \<and>
     (\<forall>key nonce plain ct tag.
        encrypt_update ssl key nonce plain = Some ct \<longrightarrow>
        get_tag ssl key nonce plain = Some tag \<longrightarrow>
        length tag = TAG_LEN \<and> decrypt_final ssl key nonce ct tag)"

lemma aead_correctD:
  assumes "aead_correct ssl"
  shows "rand_bytes ssl = Some nonce \<Longrightarrow> length nonce = NONCE_LEN"
    and "encrypt_update ssl key nonce plain = Some ct \<Longrightarrow> length ct = length plain"
    and "encrypt_update ssl key nonce plain = Some ct \<Longrightarrow>
         decrypt_update ssl key nonce ct = Some plain"
    and "encrypt_update ssl key nonce plain = Some ct \<Longrightarrow>
         get_tag ssl key nonce plain = Some tag \<Longrightarrow> length tag = TAG_LEN"
    and "encrypt_update ssl key nonce plain = Some ct \<Longrightarrow>
         get_tag ssl key nonce plain = Some tag \<Longrightarrow> decrypt_final ssl key nonce ct tag"
  using assms unfolding aead_correct_def by blast+

subsection \<open>Key agreement\<close>

lemma lex_less_total: "lex_less xs ys \<or> xs = ys \<or> lex_less ys xs"
  by (induction xs ys rule: lex_less.induct) auto

lemma lex_less_Nil [simp]: "\<not> lex_less xs []"
  by (cases xs) auto

lemma lex_less_asym: "lex_less xs ys \<Longrightarrow> \<not> lex_less ys xs"
  by (induction xs ys rule: lex_less.induct) (auto split: if_splits)

text \<open>Ordering the two keys makes the salt the same on both sides.\<close>

lemma hkdf_salt_commute: "hkdf_salt p q = hkdf_salt q p"
  using lex_less_total [of p q] lex_less_asym [of p q] by (auto simp: hkdf_salt_def)

lemma derive_session_key_commute:
  "derive_session_key ssl p q secret = derive_session_key ssl q p secret"
  by (simp add: derive_session_key_def hkdf_salt_commute [of p q])

lemma x25519_shared_secret_Some:
  "x25519_shared_secret ssl key peer = Some s \<Longrightarrow>
   \<exists>k. key = Some k \<and> x25519_derive ssl k peer = Some s"
  by (auto simp: x25519_shared_secret_def split: if_splits option.splits)

lemma set_peer_public_key_ok:
  assumes "set_peer_public_key ssl peer c = (no_error, c')"
  obtains k s where "key_handle c = Some k" "x25519_derive ssl k peer = Some s"
    "derive_session_key ssl (own_public_key c) peer s = Some (encryption_key c')" "is_ready c'"
  using assms x25519_shared_secret_Some [of ssl "key_handle c" peer]
  by (fastforce simp: set_peer_public_key_def Let_def make_error_code_neq [symmetric]
      split: option.splits)

lemma crypto_init_ok:
  assumes "crypto_init ssl c = (no_error, c')"
  obtains k where "key_handle c' = Some k" "get_raw_public_key ssl k = Some (own_public_key c')"
  using assms by (auto simp: crypto_init_def Let_def split: if_splits option.splits)

lemma session_keys_agree:
  assumes ecdh: "ecdh_agrees ssl"
    and a: "key_handle a = Some ka" "get_raw_public_key ssl ka = Some (own_public_key a)"
    and b: "key_handle b = Some kb" "get_raw_public_key ssl kb = Some (own_public_key b)"
    and pa: "set_peer_public_key ssl (get_own_public_key b) a = (no_error, a')"
    and pb: "set_peer_public_key ssl (get_own_public_key a) b = (no_error, b')"
  shows "encryption_key a' = encryption_key b'" "is_ready a'" "is_ready b'"
proof -
  obtain sa where sa: "x25519_derive ssl ka (own_public_key b) = Some sa"
    "derive_session_key ssl (own_public_key a) (own_public_key b) sa = Some (encryption_key a')"
    "is_ready a'"
    using set_peer_public_key_ok [OF pa] a by (metis get_own_public_key_def option.inject)
  obtain sb where sb: "x25519_derive ssl kb (own_public_key a) = Some sb"
    "derive_session_key ssl (own_public_key b) (own_public_key a) sb = Some (encryption_key b')"
    "is_ready b'"
    using set_peer_public_key_ok [OF pb] b by (metis get_own_public_key_def option.inject)
  have "sa = sb"
    using ecdh a(2) b(2) sa(1) sb(1) unfolding ecdh_agrees_def by (metis option.inject)
  then show "encryption_key a' = encryption_key b'"
    using sa(2) sb(2) by (simp add: derive_session_key_commute)
  show "is_ready a'" "is_ready b'" by fact+
qed

subsection \<open>Encryption\<close>

lemma encrypt_data_ok:
  assumes "encrypt_data ssl c data = Inr out"
  obtains nonce ct tag where "rand_bytes ssl = Some nonce" "is_ready c"
    "encrypt_update ssl (encryption_key c) nonce data = Some ct"
    "get_tag ssl (encryption_key c) nonce data = Some tag" "out = nonce @ ct @ tag"
    "cipher_ctx_new ssl" "cipher_init ssl" "set_ivlen ssl"
    "cipher_init_key ssl (encryption_key c) nonce"
  using assms by (auto simp: encrypt_data_def Let_def split: if_splits option.splits)

lemma encrypt_data_length:
  assumes "aead_correct ssl" "encrypt_data ssl c data = Inr out"
  shows "length out = NONCE_LEN + length data + TAG_LEN"
  using assms(2) by (rule encrypt_data_ok) (simp add: aead_correctD [OF assms(1)])

lemma decrypt_encrypt:
  assumes ssl: "aead_correct ssl" "set_tag ssl"
    and enc: "encrypt_data ssl a data = Inr out"
    and key: "is_ready b" "encryption_key b = encryption_key a" and data: "data \<noteq> []"
  shows "decrypt_data ssl b out = Inr data"
  using enc
proof (rule encrypt_data_ok)
  fix nonce ct tag
  assume *: "rand_bytes ssl = Some nonce" "out = nonce @ ct @ tag"
    "encrypt_update ssl (encryption_key a) nonce data = Some ct"
    "get_tag ssl (encryption_key a) nonce data = Some tag"
    "cipher_ctx_new ssl" "cipher_init ssl" "set_ivlen ssl"
    "cipher_init_key ssl (encryption_key a) nonce"
  have l: "length nonce = NONCE_LEN" "length ct = length data" "length tag = TAG_LEN"
    using * aead_correctD [OF ssl(1)] by blast+
  have d: "decrypt_update ssl (encryption_key a) nonce ct = Some data"
    "decrypt_final ssl (encryption_key a) nonce ct tag"
    using * aead_correctD [OF ssl(1)] by blast+
  have "0 < length data" using data by simp
  then show ?thesis
    using * l d key ssl(2) by (simp add: decrypt_data_def Let_def)
qed

text \<open>
  C8. The session that the handshake sets up works: when both sides generate their keys,
  exchange the public halves and accept each other's key, they hold the same session key,
  and every non-empty message that one side encrypts is 28 bytes longer and decrypts on
  the other side to itself.
\<close>

theorem crypto_session_roundtrip:
  assumes "ecdh_agrees ssl" and "aead_correct ssl" and "set_tag ssl"
    and "crypto_init (ssl\<lparr>keygen := ga\<rparr>) a0 = (no_error, a1)"
    and "crypto_init (ssl\<lparr>keygen := gb\<rparr>) b0 = (no_error, b1)"
    and "set_peer_public_key ssl (get_own_public_key b1) a1 = (no_error, a2)"
    and "set_peer_public_key ssl (get_own_public_key a1) b1 = (no_error, b2)"
    and "encrypt_data ssl a2 data = Inr out" and "data \<noteq> []"
  shows "encryption_key a2 = encryption_key b2 \<and> decrypt_data ssl b2 out = Inr data
    \<and> length out = length data + NONCE_LEN + TAG_LEN"
proof -
  obtain ka where ka: "key_handle a1 = Some ka" "get_raw_public_key ssl ka = Some (own_public_key a1)"
    by (rule crypto_init_ok [OF assms(4)]) simp
  obtain kb where kb: "key_handle b1 = Some kb" "get_raw_public_key ssl kb = Some (own_public_key b1)"
    by (rule crypto_init_ok [OF assms(5)]) simp
  note agree = session_keys_agree [OF assms(1) ka kb assms(6,7)]
  show ?thesis
    using agree decrypt_encrypt [OF assms(2,3,8) agree(3) _ assms(9)]
      encrypt_data_length [OF assms(2,8)] by simp
qed

text \<open>
  A concrete instance of the OpenSSL parameter for the witnesses: Diffie-Hellman over
  the multiplicative monoid of bytes, the identity cipher and a tag of zeros.
\<close>

definition sample_ssl :: "u8 openssl" where
  "sample_ssl =
     \<lparr>pkey_ctx_new_id = True, keygen_init = True, keygen = Some 3,
      get_raw_public_key = (\<lambda>k. Some (replicate 32 k)),
      new_raw_public_key = (\<lambda>p. length p = 32), pkey_ctx_new = (\<lambda>k. k \<noteq> None),
      derive_init = True, derive_set_peer = (\<lambda>k p. True),
      x25519_derive = (\<lambda>k p. Some (replicate 32 (k * hd p))),
      hkdf_ctx_new_id = True, hkdf_derive_init = True, set_hkdf_md = True,
      set1_hkdf_salt = (\<lambda>s. True), set1_hkdf_key = (\<lambda>s. True), add1_hkdf_info = (\<lambda>s. True),
      hkdf_derive = (\<lambda>salt secret info. Some (take 32 (secret @ salt))),
      rand_bytes = Some (replicate 12 7), cipher_ctx_new = True, cipher_init = True,
      set_ivlen = True, cipher_init_key = (\<lambda>k n. True),
      encrypt_update = (\<lambda>k n d. Some d), encrypt_final = True,
      get_tag = (\<lambda>k n d. Some (replicate 16 0)),
      decrypt_update = (\<lambda>k n d. Some d), set_tag = True,
      decrypt_final = (\<lambda>k n d t. t = replicate 16 0)\<rparr>"

lemma sample_ssl_correct: "ecdh_agrees sample_ssl" "aead_correct sample_ssl" "set_tag sample_ssl"
  by (simp_all add: ecdh_agrees_def aead_correct_def sample_ssl_def crypto_lengths mult.commute
      numeral_eq_Suc)

definition sample_context :: "u8 \<Rightarrow> u8 crypto_context" where
  "sample_context k =
     \<lparr>is_ready = False, key_handle = Some k, own_public_key = replicate 32 k,
      peer_public_key = [], encryption_key = []\<rparr>"

theorem crypto_session_roundtrip_witness:
  "\<exists>a2 b2 out.
     set_peer_public_key sample_ssl (replicate 32 5) (sample_context 3) = (no_error, a2) \<and>
     set_peer_public_key sample_ssl (replicate 32 3) (sample_context 5) = (no_error, b2) \<and>
     encrypt_data sample_ssl a2 [1, 2, 3] = Inr out \<and>
     encryption_key a2 = encryption_key b2 \<and> decrypt_data sample_ssl b2 out = Inr [1, 2, 3] \<and>
     length out = length [1, 2, 3 :: u8] + NONCE_LEN + TAG_LEN"
proof -
  let ?a2 = "snd (set_peer_public_key sample_ssl (replicate 32 5) (sample_context 3))"
  let ?b2 = "snd (set_peer_public_key sample_ssl (replicate 32 3) (sample_context 5))"
  let ?new = "crypto_new [] [] [] :: u8 crypto_context"
  have a1: "crypto_init (sample_ssl\<lparr>keygen := Some 3\<rparr>) ?new = (no_error, sample_context 3)"
    and b1: "crypto_init (sample_ssl\<lparr>keygen := Some 5\<rparr>) ?new = (no_error, sample_context 5)"
    by (simp_all add: crypto_init_def crypto_new_def sample_context_def sample_ssl_def)
  have a2: "set_peer_public_key sample_ssl (get_own_public_key (sample_context 5)) (sample_context 3)
      = (no_error, ?a2)"
    and b2: "set_peer_public_key sample_ssl (get_own_public_key (sample_context 3)) (sample_context 5)
      = (no_error, ?b2)"
    by (simp_all add: set_peer_public_key_def x25519_shared_secret_def derive_session_key_def
        get_own_public_key_def sample_context_def sample_ssl_def Let_def)
  obtain out where out: "encrypt_data sample_ssl ?a2 [1, 2, 3] = Inr out"
    by (simp add: encrypt_data_def set_peer_public_key_def x25519_shared_secret_def
        derive_session_key_def sample_context_def sample_ssl_def Let_def)
  show ?thesis
    using crypto_session_roundtrip [OF sample_ssl_correct a1 b1 a2 b2 out] a2 b2 out
    by (auto simp: get_own_public_key_def sample_context_def)
qed

subsection \<open>Errors\<close>



text \<open>
  A failing key exchange never arms the context. (What a failing OpenSSL call leaves in
  its output buffer is not modelled, so nothing is claimed about the session key.)
\<close>

lemma set_peer_public_key_failure_frame:
  assumes "set_peer_public_key ssl peer c = (ec, c')" and "ec \<noteq> no_error"
  shows "ec_failed ec" "is_ready c' = is_ready c" "key_handle c' = key_handle c"
    "own_public_key c' = own_public_key c"
  using assms by (auto simp: set_peer_public_key_def Let_def split: option.splits)

end
