(* ===== verification/Packets.thy ===== *)
theory Packets
  imports Errors Double_Arith Crypto_Context
begin

text \<open>
  The two packed packet formats: the transport packet \<open>PHZ::Packet\<close>
  (\<open>include/protohopz/protohopz_packet.hpp\<close>) and the application packet
  \<open>FTProto::Packet\<close> (\<open>include/ftp_packet.hpp\<close>). A struct is a record; its memory image
  is the little-endian packed layout, and reading a datagram into it overwrites a prefix
  of whatever the buffer held before (the buffers on the stack are not initialised, so
  their old content is a parameter of the model).
\<close>

subsection \<open>PHZ constants\<close>

definition CRYPT_OVERHEAD :: nat where "CRYPT_OVERHEAD = NONCE_LEN + TAG_LEN"
definition PACKET_PAYLOAD_SIZE :: nat where "PACKET_PAYLOAD_SIZE = 1400"
definition PACKET_SIZE :: nat where "PACKET_SIZE = PACKET_PAYLOAD_SIZE + CRYPT_OVERHEAD"
definition HEADER_SIZE :: nat where "HEADER_SIZE = 8"

text \<open>Durations in nanoseconds, the tick of \<open>steady_clock\<close>.\<close>

definition TIMEOUT :: int where "TIMEOUT = 128 * 1000000"
definition IDLE_TIMEOUT :: int where "IDLE_TIMEOUT = 60 * 1000000000"
definition CLOSE_DRAIN_TIMEOUT :: int where "CLOSE_DRAIN_TIMEOUT = 30 * 1000000000"

definition INITIAL_CWND :: rat where "INITIAL_CWND = 64"
definition MAX_CWND :: rat where "MAX_CWND = 1024"
definition MAX_IN_FLIGHT :: nat where "MAX_IN_FLIGHT = 1024"
definition MAX_PACKETS_BUFFER :: nat where "MAX_PACKETS_BUFFER = 65536"

lemmas packet_sizes =
  CRYPT_OVERHEAD_def PACKET_PAYLOAD_SIZE_def PACKET_SIZE_def HEADER_SIZE_def crypto_lengths

lemma PACKET_SIZE_eq [simp]: "PACKET_SIZE = 1428"
  by (simp add: packet_sizes)

lemma PACKET_PAYLOAD_SIZE_eq [simp]: "PACKET_PAYLOAD_SIZE = 1400"
  by (simp add: packet_sizes)

lemma HEADER_SIZE_eq [simp]: "HEADER_SIZE = 8"
  by (simp add: packet_sizes)

subsection \<open>PHZ packets\<close>

text \<open>
  The type field is an enum over \<open>uint8_t\<close>: a received header may hold any byte, so the
  field is a byte and the enumerators are compared through their codes.
\<close>

datatype PacketType = KEEP_ALIVE | DATA | HANDSHAKE | ACK | END_TRANSFER

primrec type_code :: "PacketType \<Rightarrow> u8" where
  "type_code KEEP_ALIVE = 0"
| "type_code DATA = 1"
| "type_code HANDSHAKE = 2"
| "type_code ACK = 3"
| "type_code END_TRANSFER = 4"

lemma type_code_inject [simp]: "type_code s = type_code t \<longleftrightarrow> s = t"
  by (cases s; cases t) simp_all

record packet_header =
  ph_type :: u8
  ph_flags :: u8
  ph_size :: u16
  ph_sequence :: u32

text \<open>\<open>payload\<close> and \<open>crypt_info\<close> are adjacent: one region of \<open>PACKET_SIZE\<close> bytes.\<close>

record phz_packet =
  header :: packet_header
  payload_region :: bytes

definition header_bytes :: "packet_header \<Rightarrow> bytes" where
  "header_bytes h =
     [ph_type h, ph_flags h] @ le_bytes 2 (ph_size h) @ le_bytes 4 (ph_sequence h)"

definition header_of_bytes :: "bytes \<Rightarrow> packet_header" where
  "header_of_bytes bs =
     \<lparr>ph_type = bs ! 0, ph_flags = bs ! 1, ph_size = le_word (take 2 (drop 2 bs)),
      ph_sequence = le_word (take 4 (drop 4 bs))\<rparr>"

lemma le_bytes_2: "le_bytes 2 w = [ucast w, ucast (drop_bit 8 w)]"
  by (simp add: numeral_eq_Suc)

lemma header_of_header_bytes: "header_of_bytes (header_bytes h) = h"
proof -
  have "take 2 (drop 2 (header_bytes h)) = le_bytes 2 (ph_size h)"
    "take 4 (drop 4 (header_bytes h)) = le_bytes 4 (ph_sequence h)"
    "header_bytes h ! 0 = ph_type h" "header_bytes h ! 1 = ph_flags h"
    by (simp_all add: header_bytes_def numeral_eq_Suc)
  then show ?thesis
    by (simp add: header_of_bytes_def le16.dec_enc le32.dec_enc)
qed

interpretation phz_header: wire_codec header_bytes header_of_bytes 8
  by unfold_locales (simp_all add: header_of_header_bytes, simp add: header_bytes_def)

definition packet_image :: "phz_packet \<Rightarrow> bytes" where
  "packet_image p = header_bytes (header p) @ payload_region p"

definition packet_of_image :: "bytes \<Rightarrow> phz_packet" where
  "packet_of_image bs =
     \<lparr>header = header_of_bytes (take HEADER_SIZE bs), payload_region = drop HEADER_SIZE bs\<rparr>"

definition packet_wf :: "phz_packet \<Rightarrow> bool" where
  "packet_wf p \<longleftrightarrow> length (payload_region p) = PACKET_SIZE"

abbreviation size_of :: "phz_packet \<Rightarrow> nat" where
  "size_of p \<equiv> unat (ph_size (header p))"

abbreviation seq_of :: "phz_packet \<Rightarrow> u32" where
  "seq_of p \<equiv> ph_sequence (header p)"

text \<open>The datagram of a send: \<open>sizeof(PacketHeader) + header.size\<close> bytes of the struct.\<close>

definition wire :: "phz_packet \<Rightarrow> bytes" where
  "wire p = take (HEADER_SIZE + size_of p) (packet_image p)"

text \<open>A receive: the datagram over a stale \<open>PHZ::Packet\<close> of \<open>sizeof(Packet)\<close> bytes.\<close>

definition receive_image :: "bytes \<Rightarrow> bytes \<Rightarrow> phz_packet" where
  "receive_image stale datagram = packet_of_image (overlay stale datagram)"

text \<open>The bytes of the packet that its header announces.\<close>

definition payload_of :: "phz_packet \<Rightarrow> bytes" where
  "payload_of p = take (size_of p) (payload_region p)"

text \<open>A packet built by designated initialisers: the payload is zero-initialised.\<close>

definition make_packet :: "PacketType \<Rightarrow> nat \<Rightarrow> u32 \<Rightarrow> phz_packet" where
  "make_packet t n seq =
     \<lparr>header = \<lparr>ph_type = type_code t, ph_flags = 0, ph_size = word_of_nat n,
                ph_sequence = seq\<rparr>,
      payload_region = replicate PACKET_SIZE 0\<rparr>"

lemma packet_wf_make_packet [simp]: "packet_wf (make_packet t n s)"
  by (simp add: packet_wf_def make_packet_def)

lemma length_wire: "packet_wf p \<Longrightarrow> size_of p \<le> PACKET_SIZE \<Longrightarrow> length (wire p) = 8 + size_of p"
  by (simp add: wire_def packet_image_def packet_wf_def phz_header.length_enc)

lemma wire_eq: "wire p = header_bytes (header p) @ payload_of p"
  by (simp add: wire_def packet_image_def payload_of_def phz_header.length_enc)

lemma receive_image_wire:
  assumes "length stale = 1436" "packet_wf p" "size_of p \<le> PACKET_SIZE"
  shows "header (receive_image stale (wire p)) = header p"
    and "payload_of (receive_image stale (wire p)) = payload_of p"
    and "packet_wf (receive_image stale (wire p))"
proof -
  have len: "length (payload_of p) = size_of p"
    using assms(2,3) by (simp add: payload_of_def packet_wf_def)
  have img: "overlay stale (wire p)
      = header_bytes (header p) @ payload_of p @ drop (8 + size_of p) stale"
    using assms(1,3) len by (simp add: overlay_def wire_eq phz_header.length_enc)
  show h: "header (receive_image stale (wire p)) = header p"
    by (simp add: receive_image_def packet_of_image_def img phz_header.length_enc
        phz_header.dec_enc)
  show "payload_of (receive_image stale (wire p)) = payload_of p"
    using len h
    by (simp add: payload_of_def [of "receive_image _ _"])
      (simp add: receive_image_def packet_of_image_def img phz_header.length_enc)
  show "packet_wf (receive_image stale (wire p))"
    using assms(1) by (simp add: packet_wf_def receive_image_def packet_of_image_def)
qed

text \<open>
  C26. Transport round trip: whatever a receive buffer held before, receiving the datagram
  of a packet gives back its header and exactly the payload bytes the header announces.
\<close>

theorem phz_wire_roundtrip:
  assumes "packet_wf p" and "size_of p \<le> PACKET_SIZE" and "length stale = 1436"
  shows "header (receive_image stale (wire p)) = header p
    \<and> payload_of (receive_image stale (wire p)) = payload_of p
    \<and> length (wire p) = HEADER_SIZE + size_of p"
  using receive_image_wire [OF assms(3,1,2)] length_wire [OF assms(1,2)] by simp

theorem phz_wire_roundtrip_witness:
  "payload_of (receive_image (replicate 1436 9) (wire (make_packet HANDSHAKE 32 5)))
     = replicate 32 0"
proof -
  have "payload_of (make_packet HANDSHAKE 32 5) = replicate 32 0"
    by (simp add: payload_of_def make_packet_def)
  then show ?thesis
    using phz_wire_roundtrip [of "make_packet HANDSHAKE 32 5" "replicate 1436 9"]
    by (simp add: make_packet_def packet_wf_def)
qed

text \<open>
  A datagram shorter than its header announces is not rejected: the receive buffer's
  old bytes become part of the payload. (\<open>receive_loop\<close> takes the size from the header
  and never looks at the number of bytes received.)
\<close>

theorem short_datagram_exposes_stale_bytes:
  assumes "length stale = 1436" and "8 \<le> length datagram" and "length datagram \<le> 1436"
    and "size_of (receive_image stale datagram) = n" and "length datagram < 8 + n"
  shows "payload_of (receive_image stale datagram)
    = drop 8 datagram @ take (n + 8 - length datagram) (drop (length datagram) stale)"
  using assms
  by (simp add: payload_of_def receive_image_def packet_of_image_def overlay_def)

theorem short_datagram_exposes_stale_bytes_witness:
  "payload_of (receive_image (replicate 1436 9) (header_bytes (header (make_packet HANDSHAKE 32 5))))
     = replicate 32 9"
proof -
  let ?d = "header_bytes (header (make_packet HANDSHAKE 32 5))"
  have l: "length ?d = 8" by (rule phz_header.length_enc)
  have h: "size_of (receive_image (replicate 1436 9) ?d) = 32"
    by (simp add: receive_image_def packet_of_image_def overlay_def l phz_header.dec_enc)
      (simp add: make_packet_def)
  show ?thesis
    using short_datagram_exposes_stale_bytes [OF _ _ _ h] by (simp add: l)
qed

subsection \<open>FTProto packets\<close>

datatype FtpType = CONFIRM | CONFIRM_FAILED | CREATE_DIRECTORY | CREATE_FILE | FILE_DATA
  | END_FILE | END_TRANSFER_FTP | CREATE_SYMLINK

primrec ftp_code :: "FtpType \<Rightarrow> u8" where
  "ftp_code CONFIRM = 0"
| "ftp_code CONFIRM_FAILED = 1"
| "ftp_code CREATE_DIRECTORY = 2"
| "ftp_code CREATE_FILE = 3"
| "ftp_code FILE_DATA = 4"
| "ftp_code END_FILE = 5"
| "ftp_code END_TRANSFER_FTP = 6"
| "ftp_code CREATE_SYMLINK = 7"

lemma ftp_code_inject [simp]: "ftp_code s = ftp_code t \<longleftrightarrow> s = t"
  by (cases s; cases t) simp_all

record ftp_header =
  fh_type :: u8
  fh_flags :: u8
  fh_size :: u16
  fh_file_id :: u32

definition FTP_PACKET_SIZE :: nat where
  "FTP_PACKET_SIZE = PACKET_PAYLOAD_SIZE - 8"

lemma FTP_PACKET_SIZE_eq [simp]: "FTP_PACKET_SIZE = 1392"
  by (simp add: FTP_PACKET_SIZE_def)

record ftp_packet =
  fheader :: ftp_header
  fdata :: bytes

definition ftp_header_bytes :: "ftp_header \<Rightarrow> bytes" where
  "ftp_header_bytes h =
     [fh_type h, fh_flags h] @ le_bytes 2 (fh_size h) @ le_bytes 4 (fh_file_id h)"

definition ftp_header_of_bytes :: "bytes \<Rightarrow> ftp_header" where
  "ftp_header_of_bytes bs =
     \<lparr>fh_type = bs ! 0, fh_flags = bs ! 1, fh_size = le_word (take 2 (drop 2 bs)),
      fh_file_id = le_word (take 4 (drop 4 bs))\<rparr>"

lemma ftp_header_of_header_bytes: "ftp_header_of_bytes (ftp_header_bytes h) = h"
proof -
  have "take 2 (drop 2 (ftp_header_bytes h)) = le_bytes 2 (fh_size h)"
    "take 4 (drop 4 (ftp_header_bytes h)) = le_bytes 4 (fh_file_id h)"
    "ftp_header_bytes h ! 0 = fh_type h" "ftp_header_bytes h ! 1 = fh_flags h"
    by (simp_all add: ftp_header_bytes_def numeral_eq_Suc)
  then show ?thesis
    by (simp add: ftp_header_of_bytes_def le16.dec_enc le32.dec_enc)
qed

interpretation ftp_hdr: wire_codec ftp_header_bytes ftp_header_of_bytes 8
  by unfold_locales (simp_all add: ftp_header_of_header_bytes, simp add: ftp_header_bytes_def)

definition ftp_payload_size :: "ftp_packet \<Rightarrow> nat" where
  "ftp_payload_size p = unat (fh_size (fheader p))"

definition serialized_size :: "ftp_packet \<Rightarrow> nat" where
  "serialized_size p = 8 + ftp_payload_size p"

definition as_bytes :: "ftp_packet \<Rightarrow> bytes" where
  "as_bytes p = take (serialized_size p) (ftp_header_bytes (fheader p) @ fdata p)"

text \<open>\<open>get_payload()\<close> with \<open>get_payload_size()\<close>.\<close>

definition ftp_payload :: "ftp_packet \<Rightarrow> bytes" where
  "ftp_payload p = take (ftp_payload_size p) (fdata p)"

definition set_payload :: "bytes \<Rightarrow> ftp_packet \<Rightarrow> error_code \<times> ftp_packet" where
  "set_payload src p =
     (if FTP_PACKET_SIZE < length src then (make_error_code packet_too_large, p)
      else (no_error,
        p\<lparr>fdata := src @ drop (length src) (fdata p),
          fheader := (fheader p)\<lparr>fh_size := word_of_nat (length src)\<rparr>\<rparr>))"

text \<open>
  The receiving side: copy the header off the chunk, check both lengths, then copy
  \<open>header.size\<close> bytes into the packet's data array. The array holds \<open>FTP_PACKET_SIZE\<close>
  bytes; a larger copy leaves the object, which C++ does not define.
\<close>

datatype parse_result = Parsed ftp_packet | Malformed | Overflow

definition parse_chunk :: "bytes \<Rightarrow> bytes \<Rightarrow> parse_result" where
  "parse_chunk stale chunk =
     (if length chunk < 8 then Malformed
      else
        let h = ftp_header_of_bytes (take 8 chunk); n = unat (fh_size h) in
        if length chunk < 8 + n then Malformed
        else case memcpy_at 0 (take n (drop 8 chunk)) stale of
          None \<Rightarrow> Overflow
        | Some d \<Rightarrow> Parsed \<lparr>fheader = h, fdata = d\<rparr>)"

definition ftp_wf :: "ftp_packet \<Rightarrow> bool" where
  "ftp_wf p \<longleftrightarrow> length (fdata p) = FTP_PACKET_SIZE \<and> ftp_payload_size p \<le> FTP_PACKET_SIZE"

lemma as_bytes_eq: "as_bytes p = ftp_header_bytes (fheader p) @ ftp_payload p"
  by (simp add: as_bytes_def serialized_size_def ftp_payload_def ftp_hdr.length_enc)

lemma length_ftp_payload: "ftp_wf p \<Longrightarrow> length (ftp_payload p) = ftp_payload_size p"
  by (simp add: ftp_wf_def ftp_payload_def)

lemma length_as_bytes: "ftp_wf p \<Longrightarrow> length (as_bytes p) = serialized_size p"
  by (simp add: as_bytes_eq ftp_hdr.length_enc length_ftp_payload serialized_size_def)

lemma parse_chunk_as_bytes:
  assumes "ftp_wf p" "length stale = FTP_PACKET_SIZE"
  shows "\<exists>q. parse_chunk stale (as_bytes p) = Parsed q \<and> ftp_wf q
    \<and> fheader q = fheader p \<and> ftp_payload q = ftp_payload p"
proof -
  have n: "unat (fh_size (fheader p)) = length (ftp_payload p)"
    using length_ftp_payload [OF assms(1)] by (simp add: ftp_payload_size_def)
  have le: "length (ftp_payload p) \<le> length stale"
    using assms length_ftp_payload [OF assms(1)] by (simp add: ftp_wf_def)
  define q where
    "q = \<lparr>fheader = fheader p, fdata = ftp_payload p @ drop (length (ftp_payload p)) stale\<rparr>"
  have "parse_chunk stale (as_bytes p) = Parsed q"
    using le by (simp add: parse_chunk_def as_bytes_eq ftp_hdr.length_enc ftp_hdr.dec_enc n
        memcpy_at_0_eq q_def Let_def)
  moreover have "ftp_payload q = ftp_payload p" "ftp_payload_size q = ftp_payload_size p"
    by (simp_all add: q_def ftp_payload_def [of "\<lparr>fheader = _, fdata = _\<rparr>"]
        ftp_payload_size_def n)
  moreover have "ftp_wf q"
    using assms le by (simp add: ftp_wf_def q_def ftp_payload_size_def)
  ultimately show ?thesis by (intro exI [of _ q]) (simp add: q_def)
qed

text \<open>
  C25. Application round trip: a packet serialised by the sender fits into one transport
  payload and is parsed by the receiver back to its header and payload, whatever the
  receiver's buffer held before.
\<close>

theorem ftp_packet_roundtrip:
  assumes "ftp_wf p" and "length stale = FTP_PACKET_SIZE"
  shows "length (as_bytes p) \<le> PACKET_PAYLOAD_SIZE
    \<and> (\<exists>q. parse_chunk stale (as_bytes p) = Parsed q
         \<and> fheader q = fheader p \<and> ftp_payload q = ftp_payload p)"
  using parse_chunk_as_bytes [OF assms] length_as_bytes [OF assms(1)] assms(1)
  by (auto simp: serialized_size_def ftp_wf_def)

definition sample_ftp :: "bytes \<Rightarrow> ftp_packet" where
  "sample_ftp d = snd (set_payload d
     \<lparr>fheader = \<lparr>fh_type = ftp_code FILE_DATA, fh_flags = 0, fh_size = 0, fh_file_id = 7\<rparr>,
      fdata = replicate 1392 0\<rparr>)"

theorem ftp_packet_roundtrip_witness:
  "\<exists>q. parse_chunk (replicate 1392 9) (as_bytes (sample_ftp [1, 2, 3])) = Parsed q
     \<and> ftp_payload q = [1, 2, 3]"
proof -
  have wf: "ftp_wf (sample_ftp [1, 2, 3])"
    by (simp add: sample_ftp_def set_payload_def ftp_wf_def ftp_payload_size_def)
  have "ftp_payload (sample_ftp [1, 2, 3]) = [1, 2, 3]"
    by (simp add: sample_ftp_def set_payload_def ftp_payload_def ftp_payload_size_def)
  then show ?thesis
    using ftp_packet_roundtrip [OF wf, of "replicate 1392 9"] by force
qed



end
