(* ===== verification/Transport.thy ===== *)
theory Transport
  imports Packets Async_Queue Async_Value
begin

text \<open>
  \<open>ProtoHopZ\<close> (\<open>include/protohopz/protohopz.hpp\<close>, \<open>src/protohopz/protohopz.cpp\<close>): the
  reliable packet transport over UDP. A coroutine is cut at its \<open>co_await\<close> points; each
  piece between two of them runs undisturbed (the process runs one \<open>io_context\<close> thread
  and the shared state is used on one strand) and is one function on the state record,
  which returns the new state and the effects it initiates, in order. A suspended
  \<open>send_packet\<close> is the waiter of \<open>cwnd_\<close> and is represented by its source packet, so that
  \<open>notify_one()\<close> resumes it in place, as \<open>dispatch\<close> does. The clock (\<open>now\<close>, nanoseconds),
  the result of asynchronous I/O and the OpenSSL calls are arguments.
\<close>

subsection \<open>State\<close>

record endpoint =
  ep_address :: nat
  ep_port :: u16

record packet_local =
  send_time :: int
  pl_packet :: phz_packet

record 'k phz =
  loops_started :: bool
  stopping_loops :: bool
  connection_encrypted :: bool
  loop_error :: error_code
  sequence_counter :: u32
  sshthresh :: rat
  last_peer_activity :: int
  peer_endpoint :: endpoint
  peer_endpoint_known :: bool
  cwnd :: "(phz_packet, rat) async_value"
  received_packets_queue :: "(nat, phz_packet) async_queue"
  received_packets :: "u32 set"
  in_flight :: "(u32 \<times> packet_local) list"
  drained_signal :: "(nat, bool) async_value"
  crypto :: "'k crypto_context"

datatype effect =
  Send_datagram endpoint bytes
| Send_started u32
| Send_returned error_code
| Cancel_receive_loop
| Cancel_timeout_loop
| Cancel_socket
| Pop_completed "(nat, phz_packet) completion"
| Drain_completed "(nat, bool) completion"

text \<open>How an iteration of a background loop ends.\<close>

datatype loop_result = Continue | Exit error_code

subsection \<open>Construction, start and stop\<close>

definition phz_new :: "endpoint \<Rightarrow> 'k crypto_context \<Rightarrow> 'k phz" where
  "phz_new peer c =
     \<lparr>loops_started = False, stopping_loops = False, connection_encrypted = False,
      loop_error = no_error, sequence_counter = 0, sshthresh = 64, last_peer_activity = 0,
      peer_endpoint = peer, peer_endpoint_known = (ep_port peer \<noteq> 0),
      cwnd = av_init INITIAL_CWND, received_packets_queue = aq_init, received_packets = {},
      in_flight = [], drained_signal = av_init False, crypto = c\<rparr>"

definition phz_start_loops :: "int \<Rightarrow> 'k phz \<Rightarrow> 'k phz" where
  "phz_start_loops now s =
     s\<lparr>stopping_loops := False, loop_error := no_error, last_peer_activity := now,
       loops_started := True\<rparr>"

definition push_received :: "phz_packet \<Rightarrow> 'k phz \<Rightarrow> 'k phz \<times> effect list" where
  "push_received p s =
     (let (q, cs) = aq_push p (received_packets_queue s)
      in (s\<lparr>received_packets_queue := q\<rparr>, map Pop_completed cs))"

definition set_drained :: "'k phz \<Rightarrow> 'k phz \<times> effect list" where
  "set_drained s =
     (let (v, cs) = av_set True (drained_signal s)
      in (s\<lparr>drained_signal := v\<rparr>, map Drain_completed cs))"

definition drain_check :: "'k phz \<Rightarrow> 'k phz \<times> effect list" where
  "drain_check s = (if in_flight s = [] then set_drained s else (s, []))"

definition wake_packet :: "u32 \<Rightarrow> phz_packet" where
  "wake_packet seq = make_packet END_TRANSFER 0 seq"

definition phz_stop_loops :: "'k phz \<Rightarrow> 'k phz \<times> effect list" where
  "phz_stop_loops s =
     (let s1 = s\<lparr>stopping_loops := True, in_flight := [], received_packets := {},
                 drained_signal := av_update False (drained_signal s),
                 sequence_counter := sequence_counter s + 1\<rparr>;
          (s2, es) = push_received (wake_packet (sequence_counter s1)) s1
      in (s2\<lparr>loops_started := False\<rparr>,
          [Cancel_receive_loop, Cancel_timeout_loop, Cancel_socket] @ es))"

subsection \<open>Sending\<close>

text \<open>Stamp, encrypt, register and put on the wire (the part after the window wait).\<close>

definition with_sequence :: "u32 \<Rightarrow> phz_packet \<Rightarrow> phz_packet" where
  "with_sequence seq p = p\<lparr>header := (header p)\<lparr>ph_sequence := seq\<rparr>\<rparr>"

definition with_ciphertext :: "bytes \<Rightarrow> phz_packet \<Rightarrow> phz_packet" where
  "with_ciphertext ct p =
     p\<lparr>header := (header p)\<lparr>ph_size := word_of_nat (length ct)\<rparr>,
       payload_region := ct @ drop (length ct) (payload_region p)\<rparr>"

definition register_packet :: "int \<Rightarrow> phz_packet \<Rightarrow> 'k phz \<Rightarrow> 'k phz \<times> effect list" where
  "register_packet now p s =
     (s\<lparr>in_flight := AList.update (seq_of p) \<lparr>send_time = now, pl_packet = p\<rparr> (in_flight s)\<rparr>,
      [Send_datagram (peer_endpoint s) (wire p), Send_started (seq_of p)])"

definition transmit ::
  "'k openssl \<Rightarrow> int \<Rightarrow> phz_packet \<Rightarrow> 'k phz \<Rightarrow> 'k phz \<times> effect list" where
  "transmit ssl now source s =
     (let p = with_sequence (sequence_counter s) source;
          s1 = s\<lparr>sequence_counter := sequence_counter s + 1\<rparr> in
      if connection_encrypted s then
        if PACKET_PAYLOAD_SIZE < size_of p
        then (s1, [Send_returned (make_error_code packet_too_large)])
        else case encrypt_data ssl (crypto s) (payload_of p) of
          Inl e \<Rightarrow> (s1, [Send_returned (make_error_code transport_encrypt_failed)])
        | Inr ct \<Rightarrow>
            if PACKET_SIZE < length ct
            then (s1, [Send_returned (make_error_code packet_too_large)])
            else register_packet now (with_ciphertext ct p) s1
      else register_packet now p s1)"

definition window_full :: "'k phz \<Rightarrow> bool" where
  "window_full s \<longleftrightarrow>
     double_to_size (av_get (cwnd s)) \<le> length (in_flight s) \<or> MAX_IN_FLIGHT \<le> length (in_flight s)"

text \<open>
  The head of the wait loop: also the continuation of a \<open>cwnd_.wait()\<close>, with the error the
  wait completed with.
\<close>

definition send_continue ::
  "'k openssl \<Rightarrow> int \<Rightarrow> error_code \<Rightarrow> phz_packet \<Rightarrow> 'k phz \<Rightarrow> 'k phz \<times> effect list" where
  "send_continue ssl now ec source s =
     (if ec_failed ec then (s, [Send_returned ec])
      else if ec_failed (loop_error s) then (s, [Send_returned (loop_error s)])
      else if window_full s then (s\<lparr>cwnd := av_wait source (cwnd s)\<rparr>, [])
      else transmit ssl now source s)"

definition send_packet ::
  "'k openssl \<Rightarrow> int \<Rightarrow> phz_packet \<Rightarrow> 'k phz \<Rightarrow> 'k phz \<times> effect list" where
  "send_packet ssl now source s = send_continue ssl now no_error source s"

definition notify_sender :: "'k openssl \<Rightarrow> int \<Rightarrow> 'k phz \<Rightarrow> 'k phz \<times> effect list" where
  "notify_sender ssl now s =
     (case av_notify_one (cwnd s) of
        (v, []) \<Rightarrow> (s, [])
      | (v, c # cs) \<Rightarrow> send_continue ssl now (status c) (handler c) (s\<lparr>cwnd := v\<rparr>))"

text \<open>The completion of \<open>async_send_to\<close> inside \<open>send_packet\<close>.\<close>

definition send_completed ::
  "'k openssl \<Rightarrow> int \<Rightarrow> u32 \<Rightarrow> error_code \<Rightarrow> 'k phz \<Rightarrow> 'k phz \<times> effect list" where
  "send_completed ssl now seq ec s =
     (if ec_failed ec then
        let s1 = s\<lparr>in_flight := AList.delete seq (in_flight s)\<rparr>;
            (s2, es) = notify_sender ssl now s1;
            (s3, fs) = drain_check s2
        in (s3, es @ fs @ [Send_returned ec])
      else (s, [Send_returned ec]))"

subsection \<open>Errors of the background loops\<close>

definition store_loop_error ::
  "'k openssl \<Rightarrow> int \<Rightarrow> error_code \<Rightarrow> 'k phz \<Rightarrow> 'k phz \<times> effect list" where
  "store_loop_error ssl now ec s =
     (if \<not> ec_failed ec \<or> ec_failed (loop_error s) then (s, [])
      else
        let s1 = s\<lparr>loop_error := ec, loops_started := False\<rparr>;
            (s2, es) = notify_sender ssl now s1;
            (s3, fs) = set_drained s2;
            s4 = s3\<lparr>sequence_counter := sequence_counter s3 + 1\<rparr>;
            (s5, gs) = push_received (wake_packet (sequence_counter s4)) s4
        in (s5, [Cancel_receive_loop, Cancel_timeout_loop, Cancel_socket] @ es @ fs @ gs))"

definition handle_loop_result ::
  "'k openssl \<Rightarrow> int \<Rightarrow> error_code \<Rightarrow> 'k phz \<Rightarrow> 'k phz \<times> effect list" where
  "handle_loop_result ssl now ec s =
     (if \<not> ec_failed ec then (s, [])
      else if stopping_loops s \<and> ec = operation_aborted then (s, [])
      else store_loop_error ssl now ec s)"

subsection \<open>Acknowledgements\<close>

definition next_cwnd :: "rat \<Rightarrow> rat \<Rightarrow> rat" where
  "next_cwnd w thresh =
     (if w < thresh then min (double_add w 1) MAX_CWND
      else min (double_add w (double_div 1 w)) MAX_CWND)"

definition ack_handler ::
  "'k openssl \<Rightarrow> int \<Rightarrow> u32 \<Rightarrow> 'k phz \<Rightarrow> 'k phz \<times> effect list" where
  "ack_handler ssl now seq s =
     (if seq \<notin> fst ` set (in_flight s) then (s, [])
      else
        let s1 = s\<lparr>in_flight := AList.delete seq (in_flight s),
                   cwnd := av_update (next_cwnd (av_get (cwnd s)) (sshthresh s)) (cwnd s)\<rparr>;
            (s2, es) = notify_sender ssl now s1;
            (s3, fs) = drain_check s2
        in (s3, es @ fs))"

definition send_ack :: "u32 \<Rightarrow> 'k phz \<Rightarrow> effect list" where
  "send_ack seq s = [Send_datagram (peer_endpoint s) (wire (make_packet ACK 0 seq))]"

subsection \<open>Receiving\<close>

text \<open>The DATA case of \<open>receive_loop\<close>.\<close>

definition with_plaintext :: "bytes \<Rightarrow> phz_packet \<Rightarrow> phz_packet" where
  "with_plaintext pt p =
     p\<lparr>header := (header p)\<lparr>ph_size := word_of_nat (length pt)\<rparr>,
       payload_region := pt @ drop (length pt) (payload_region p)\<rparr>"

definition accept_packet :: "phz_packet \<Rightarrow> 'k phz \<Rightarrow> 'k phz \<times> effect list" where
  "accept_packet p s =
     push_received p (s\<lparr>received_packets := insert (seq_of p) (received_packets s)\<rparr>)"

definition on_data ::
  "'k openssl \<Rightarrow> phz_packet \<Rightarrow> 'k phz \<Rightarrow> 'k phz \<times> effect list \<times> loop_result" where
  "on_data ssl p s =
     (if PACKET_SIZE < size_of p then (s, [], Exit (make_error_code packet_too_large))
      else
        let acks = send_ack (seq_of p) s in
        if seq_of p \<in> received_packets s then (s, acks, Continue)
        else if connection_encrypted s then
          case decrypt_data ssl (crypto s) (payload_of p) of
            Inl e \<Rightarrow> (s, acks, Exit (make_error_code transport_decrypt_failed))
          | Inr pt \<Rightarrow>
              let (s1, es) = accept_packet (with_plaintext pt p) s in (s1, acks @ es, Continue)
        else let (s1, es) = accept_packet p s in (s1, acks @ es, Continue))"

definition on_handshake ::
  "phz_packet \<Rightarrow> 'k phz \<Rightarrow> 'k phz \<times> effect list \<times> loop_result" where
  "on_handshake p s =
     (if PACKET_SIZE < size_of p then (s, [], Exit (make_error_code packet_too_large))
      else
        let acks = send_ack (seq_of p) s in
        if seq_of p \<in> received_packets s then (s, acks, Continue)
        else let (s1, es) = accept_packet p s in (s1, acks @ es, Continue))"

text \<open>
  One iteration of \<open>receive_loop\<close> on a received datagram; \<open>stale\<close> is the old content of
  the uninitialised packet on the stack.
\<close>

definition on_datagram ::
  "'k openssl \<Rightarrow> int \<Rightarrow> endpoint \<Rightarrow> bytes \<Rightarrow> bytes \<Rightarrow> 'k phz
     \<Rightarrow> 'k phz \<times> effect list \<times> loop_result" where
  "on_datagram ssl now remote stale datagram s =
     (let p = receive_image stale datagram in
      if peer_endpoint_known s \<and> remote \<noteq> peer_endpoint s then (s, [], Continue)
      else
        let s1 = s\<lparr>peer_endpoint := remote, peer_endpoint_known := True,
                   last_peer_activity := now\<rparr>;
            t = ph_type (header p) in
        if t = type_code ACK then
          (let (s2, es) = ack_handler ssl now (seq_of p) s1 in (s2, es, Continue))
        else if t = type_code DATA then on_data ssl p s1
        else if t = type_code HANDSHAKE then on_handshake p s1
        else (s1, [], Continue))"

text \<open>The loop as its completion handler sees it: an exit is stored as the loop's error.\<close>

definition receive_iteration ::
  "'k openssl \<Rightarrow> int \<Rightarrow> endpoint \<Rightarrow> bytes \<Rightarrow> bytes \<Rightarrow> 'k phz \<Rightarrow> 'k phz \<times> effect list" where
  "receive_iteration ssl now remote stale datagram s =
     (case on_datagram ssl now remote stale datagram s of
        (s1, es, Continue) \<Rightarrow> (s1, es)
      | (s1, es, Exit ec) \<Rightarrow>
          (let (s2, fs) = handle_loop_result ssl now ec s1 in (s2, es @ fs)))"

text \<open>\<open>receive_packet\<close>: the pop, and what it does with the value it completes with.\<close>

definition receive_packet_begin :: "nat \<Rightarrow> 'k phz \<Rightarrow> 'k phz \<times> effect list" where
  "receive_packet_begin w s =
     (let (q, cs) = aq_pop w (received_packets_queue s)
      in (s\<lparr>received_packets_queue := q\<rparr>, map Pop_completed cs))"

definition receive_packet_end :: "error_code \<Rightarrow> phz_packet \<Rightarrow> 'k phz \<Rightarrow> error_code + phz_packet" where
  "receive_packet_end ec p s =
     (if ec_failed ec then Inl ec
      else if ec_failed (loop_error s) then Inl (loop_error s)
      else Inr p)"

subsection \<open>Retransmission\<close>

text \<open>The top of an iteration of \<open>timeout_loop\<close>: the packets to send again.\<close>

definition timed_out :: "int \<Rightarrow> 'k phz \<Rightarrow> u32 list" where
  "timed_out now s = map fst (filter (\<lambda>(seq, pl). TIMEOUT < now - send_time pl) (in_flight s))"

definition timeout_top ::
  "int \<Rightarrow> 'k phz \<Rightarrow> 'k phz \<times> u32 list \<times> loop_result" where
  "timeout_top now s =
     (if IDLE_TIMEOUT \<le> now - last_peer_activity s \<and> connection_encrypted s
      then (s, [], Exit (make_error_code connection_idle_timeout))
      else
        let late = timed_out now s in
        if late = [] then (s, [], Continue)
        else (s\<lparr>sshthresh := max (double_div (av_get (cwnd s)) 2) 2,
                cwnd := av_update 1 (cwnd s)\<rparr>, late, Continue))"

text \<open>
  The resend loop: packets acknowledged in the meantime are skipped; the first one still
  in flight is sent (a copy of the registered packet) and the rest is left for later.
\<close>

fun resend_next :: "u32 list \<Rightarrow> 'k phz \<Rightarrow> effect list \<times> (u32 \<times> u32 list) option" where
  "resend_next [] s = ([], None)"
| "resend_next (seq # rest) s =
     (case map_of (in_flight s) seq of
        None \<Rightarrow> resend_next rest s
      | Some pl \<Rightarrow> ([Send_datagram (peer_endpoint s) (wire (pl_packet pl))], Some (seq, rest)))"

text \<open>The completion of the send inside \<open>resend_packet\<close>.\<close>

definition resend_completed ::
  "int \<Rightarrow> u32 \<Rightarrow> error_code \<Rightarrow> 'k phz \<Rightarrow> 'k phz \<times> loop_result" where
  "resend_completed now seq ec s =
     (if ec_failed ec then (s, Exit ec)
      else case map_of (in_flight s) seq of
        None \<Rightarrow> (s, Continue)
      | Some pl \<Rightarrow>
          (s\<lparr>in_flight := AList.update seq (pl\<lparr>send_time := now\<rparr>) (in_flight s)\<rparr>, Continue))"

subsection \<open>Draining\<close>

datatype drain_result = Drain_waiting | Drain_returned bool

definition drain_begin :: "nat \<Rightarrow> 'k phz \<Rightarrow> 'k phz \<times> drain_result" where
  "drain_begin w s =
     (if ec_failed (loop_error s) then (s, Drain_returned False)
      else if in_flight s = [] then (s, Drain_returned True)
      else (s\<lparr>drained_signal := av_wait w (drained_signal s)\<rparr>, Drain_waiting))"

text \<open>After the race of the drain signal against the timer, whichever came first.\<close>

definition drain_end :: "'k phz \<Rightarrow> bool" where
  "drain_end s =
     (if in_flight s = [] then (if ec_failed (loop_error s) then False else True) else False)"

subsection \<open>Handshake\<close>

definition handshake_packet :: "bytes \<Rightarrow> phz_packet" where
  "handshake_packet key =
     (let p = make_packet HANDSHAKE X25519_LEN 0
      in p\<lparr>payload_region := key @ drop (length key) (payload_region p)\<rparr>)"

text \<open>
  Both sides check that the loops run and generate their keys. The initiator then sends
  its key and waits for the peer's packet; the responder waits first.
\<close>

definition handshake_begin ::
  "'k openssl \<Rightarrow> 'k phz \<Rightarrow> error_code \<times> 'k phz" where
  "handshake_begin ssl s =
     (if \<not> loops_started s then (make_error_code loops_not_running, s)
      else let (ec, c) = crypto_init ssl (crypto s) in (ec, s\<lparr>crypto := c\<rparr>))"

definition initiator_hello :: "'k phz \<Rightarrow> phz_packet" where
  "initiator_hello s = handshake_packet (get_own_public_key (crypto s))"

text \<open>The peer's packet: its size is checked, its type is not.\<close>

definition accept_peer_key ::
  "'k openssl \<Rightarrow> phz_packet \<Rightarrow> 'k phz \<Rightarrow> error_code \<times> 'k phz" where
  "accept_peer_key ssl p s =
     (if size_of p \<noteq> X25519_LEN then (make_error_code invalid_handshake_key_size, s)
      else let (ec, c) = set_peer_public_key ssl (take X25519_LEN (payload_region p)) (crypto s)
           in (ec, s\<lparr>crypto := c\<rparr>))"

definition initiator_finish ::
  "'k openssl \<Rightarrow> phz_packet \<Rightarrow> 'k phz \<Rightarrow> error_code \<times> 'k phz" where
  "initiator_finish ssl p s =
     (case accept_peer_key ssl p s of
        (ec, s1) \<Rightarrow> if ec_failed ec then (ec, s1) else (ec, s1\<lparr>connection_encrypted := True\<rparr>))"

definition responder_reply ::
  "'k openssl \<Rightarrow> phz_packet \<Rightarrow> 'k phz \<Rightarrow> error_code \<times> 'k phz \<times> phz_packet option" where
  "responder_reply ssl p s =
     (case accept_peer_key ssl p s of
        (ec, s1) \<Rightarrow>
          if ec_failed ec then (ec, s1, None)
          else (ec, s1, Some (handshake_packet (get_own_public_key (crypto s1)))))"

definition responder_finish :: "error_code \<Rightarrow> 'k phz \<Rightarrow> error_code \<times> 'k phz" where
  "responder_finish ec s =
     (if ec_failed ec then (ec, s) else (ec, s\<lparr>connection_encrypted := True\<rparr>))"

end
