(* ===== verification/Transport_Inv.thy ===== *)
theory Transport_Inv
  imports Transport
begin

text \<open>
  Invariants of one transport endpoint under every interleaving of its operations: the
  congestion window and the in-flight table stay within their bounds, registered packets
  are well formed, received packets are handed out at most once.
\<close>

subsection \<open>Events\<close>

text \<open>
  Every atomic piece of the endpoint as an event. The OpenSSL results, the clock, the
  datagrams, the stale buffer contents and the I/O errors are whatever the event says.
\<close>

datatype 'k event =
  Ev_start int
| Ev_stop
| Ev_send "'k openssl" int phz_packet
| Ev_sent "'k openssl" int u32 error_code
| Ev_datagram "'k openssl" int endpoint bytes bytes
| Ev_loop_exit "'k openssl" int error_code
| Ev_pop nat
| Ev_timeout "'k openssl" int
| Ev_resend "u32 list"
| Ev_resent "'k openssl" int u32 error_code
| Ev_drain nat
| Ev_handshake_begin "'k openssl"
| Ev_initiator_finish "'k openssl" phz_packet
| Ev_responder_reply "'k openssl" phz_packet
| Ev_responder_finish error_code

definition finish_loop ::
  "'k openssl \<Rightarrow> int \<Rightarrow> 'k phz \<Rightarrow> loop_result \<Rightarrow> 'k phz \<times> effect list" where
  "finish_loop ssl now s r =
     (case r of Continue \<Rightarrow> (s, []) | Exit ec \<Rightarrow> handle_loop_result ssl now ec s)"

fun phz_step :: "'k phz \<Rightarrow> 'k event \<Rightarrow> 'k phz \<times> effect list" where
  "phz_step s (Ev_start now) = (phz_start_loops now s, [])"
| "phz_step s Ev_stop = phz_stop_loops s"
| "phz_step s (Ev_send ssl now p) = send_packet ssl now p s"
| "phz_step s (Ev_sent ssl now seq ec) = send_completed ssl now seq ec s"
| "phz_step s (Ev_datagram ssl now remote stale d) = receive_iteration ssl now remote stale d s"
| "phz_step s (Ev_loop_exit ssl now ec) = handle_loop_result ssl now ec s"
| "phz_step s (Ev_pop w) = receive_packet_begin w s"
| "phz_step s (Ev_timeout ssl now) =
     (let (s1, late, r) = timeout_top now s in finish_loop ssl now s1 r)"
| "phz_step s (Ev_resend late) = (s, fst (resend_next late s))"
| "phz_step s (Ev_resent ssl now seq ec) =
     (let (s1, r) = resend_completed now seq ec s in finish_loop ssl now s1 r)"
| "phz_step s (Ev_drain w) = (fst (drain_begin w s), [])"
| "phz_step s (Ev_handshake_begin ssl) = (snd (handshake_begin ssl s), [])"
| "phz_step s (Ev_initiator_finish ssl p) = (snd (initiator_finish ssl p s), [])"
| "phz_step s (Ev_responder_reply ssl p) = (fst (snd (responder_reply ssl p s)), [])"
| "phz_step s (Ev_responder_finish ec) = (snd (responder_finish ec s), [])"

definition phz_next :: "'k phz \<Rightarrow> 'k event \<Rightarrow> 'k phz" where
  "phz_next s e = fst (phz_step s e)"

fun phz_run :: "'k phz \<Rightarrow> 'k event list \<Rightarrow> 'k phz \<times> effect list" where
  "phz_run s [] = (s, [])"
| "phz_run s (e # es) =
     (let (s1, xs) = phz_step s e; (s2, ys) = phz_run s1 es in (s2, xs @ ys))"

lemma fst_phz_run: "fst (phz_run s es) = run_steps phz_next s es"
  by (induction es arbitrary: s) (simp_all add: phz_next_def split_beta Let_def)

subsection \<open>The invariant\<close>

text \<open>
  What the callers pass to \<open>send_packet\<close> (the handshakes and \<open>ProtoStream::send\<close>): a full
  DATA or HANDSHAKE packet whose plaintext fits.
\<close>

definition source_ok :: "phz_packet \<Rightarrow> bool" where
  "source_ok p \<longleftrightarrow> packet_wf p \<and> size_of p \<le> PACKET_PAYLOAD_SIZE
     \<and> ph_type (header p) \<in> {type_code DATA, type_code HANDSHAKE}"

definition window_inv :: "'k phz \<Rightarrow> bool" where
  "window_inv s \<longleftrightarrow>
     1 \<le> av_value (cwnd s) \<and> av_value (cwnd s) \<le> MAX_CWND \<and> is_double (av_value (cwnd s))
     \<and> 2 \<le> sshthresh s"

definition entry_ok :: "u32 \<times> packet_local \<Rightarrow> bool" where
  "entry_ok e \<longleftrightarrow> seq_of (pl_packet (snd e)) = fst e \<and> packet_wf (pl_packet (snd e))
     \<and> size_of (pl_packet (snd e)) \<le> PACKET_SIZE
     \<and> ph_type (header (pl_packet (snd e))) \<in> {type_code DATA, type_code HANDSHAKE}"

definition flight_inv :: "'k phz \<Rightarrow> bool" where
  "flight_inv s \<longleftrightarrow>
     distinct (map fst (in_flight s)) \<and> length (in_flight s) \<le> MAX_IN_FLIGHT
     \<and> list_all entry_ok (in_flight s) \<and> list_all source_ok (av_waiters (cwnd s))"

definition phz_inv :: "'k phz \<Rightarrow> bool" where
  "phz_inv s \<longleftrightarrow> window_inv s \<and> flight_inv s \<and> aq_inv (received_packets_queue s)"

lemma phz_invI:
  assumes "window_inv s" "flight_inv s" "aq_inv (received_packets_queue s)"
  shows "phz_inv s"
  using assms by (simp add: phz_inv_def)

text \<open>Fields the invariant does not mention.\<close>

lemma phz_inv_frame [simp]:
  "phz_inv (s\<lparr>loops_started := b1\<rparr>) = phz_inv s"
  "phz_inv (s\<lparr>stopping_loops := b2\<rparr>) = phz_inv s"
  "phz_inv (s\<lparr>connection_encrypted := b3\<rparr>) = phz_inv s"
  "phz_inv (s\<lparr>loop_error := e\<rparr>) = phz_inv s"
  "phz_inv (s\<lparr>sequence_counter := n\<rparr>) = phz_inv s"
  "phz_inv (s\<lparr>last_peer_activity := t\<rparr>) = phz_inv s"
  "phz_inv (s\<lparr>peer_endpoint := ep\<rparr>) = phz_inv s"
  "phz_inv (s\<lparr>peer_endpoint_known := b4\<rparr>) = phz_inv s"
  "phz_inv (s\<lparr>received_packets := r\<rparr>) = phz_inv s"
  "phz_inv (s\<lparr>drained_signal := d\<rparr>) = phz_inv s"
  "phz_inv (s\<lparr>crypto := c\<rparr>) = phz_inv s"
  by (simp_all add: phz_inv_def window_inv_def flight_inv_def)

lemma phz_inv_new: "phz_inv (phz_new peer c)"
proof -
  have "is_double 64" using is_double_power [of 6] by simp
  then show ?thesis
    by (simp add: phz_inv_def window_inv_def flight_inv_def phz_new_def av_init_def
        INITIAL_CWND_def MAX_CWND_def)
qed

subsection \<open>Growth of the window\<close>

lemma is_double_MAX_CWND: "is_double MAX_CWND"
  using is_double_power [of 10] by (simp add: MAX_CWND_def)

lemma next_cwnd_bounds:
  assumes "1 \<le> w" "w \<le> MAX_CWND" "is_double w"
  shows "w \<le> next_cwnd w t" "next_cwnd w t \<le> MAX_CWND" "is_double (next_cwnd w t)"
proof -
  have *: "w \<le> double_add w d \<and> is_double (double_add w d)" if "0 \<le> d" for d
    using that assms by (simp add: double_add_def to_double_ge is_double_to_double)
  have d: "0 \<le> double_div 1 w" by (simp add: double_div_def to_double_nonneg)
  show "w \<le> next_cwnd w t" "next_cwnd w t \<le> MAX_CWND"
    using * [of 1] * [OF d] assms(2) by (simp_all add: next_cwnd_def)
  show "is_double (next_cwnd w t)"
    using * [of 1] * [OF d] is_double_MAX_CWND by (simp add: next_cwnd_def min_def)
qed

subsection \<open>Preservation by the operations\<close>

lemma push_received_inv [inv_intros]: "phz_inv s \<Longrightarrow> phz_inv (fst (push_received p s))"
  using aq_push_inv [of "received_packets_queue s" p]
  by (auto simp: push_received_def phz_inv_def window_inv_def flight_inv_def split: prod.splits)

lemma set_drained_inv [inv_intros]: "phz_inv s \<Longrightarrow> phz_inv (fst (set_drained s))"
  by (auto simp: set_drained_def split: prod.splits)

lemma drain_check_inv [inv_intros]: "phz_inv s \<Longrightarrow> phz_inv (fst (drain_check s))"
  by (auto simp: drain_check_def intro: set_drained_inv)

lemma phz_inv_delete [inv_intros]:
  assumes "phz_inv s"
  shows "phz_inv (s\<lparr>in_flight := AList.delete k (in_flight s)\<rparr>)"
proof -
  have "length (AList.delete k (in_flight s)) \<le> length (in_flight s)"
    by (rule length_delete_le)
  moreover have "list_all entry_ok (AList.delete k (in_flight s))"
    if "list_all entry_ok (in_flight s)"
    using that set_delete_subset [of k "in_flight s"] by (auto simp: list_all_iff)
  ultimately show ?thesis
    using assms by (auto simp: phz_inv_def window_inv_def flight_inv_def distinct_delete)
qed

lemma phz_inv_clear [inv_intros]: "phz_inv s \<Longrightarrow> phz_inv (s\<lparr>in_flight := []\<rparr>)"
  by (simp add: phz_inv_def window_inv_def flight_inv_def)

lemma stop_loops_inv [inv_intros]:
  "phz_inv s \<Longrightarrow> phz_inv (fst (phz_stop_loops s))"
  unfolding phz_stop_loops_def Let_def split_beta
  by (simp, intro push_received_inv) (simp add: phz_inv_clear)

lemma start_loops_inv [inv_intros]: "phz_inv s \<Longrightarrow> phz_inv (phz_start_loops now s)"
  by (simp add: phz_start_loops_def)

text \<open>Registering a packet while the table has room.\<close>

lemma register_packet_inv:
  assumes "phz_inv s" "length (in_flight s) < MAX_IN_FLIGHT"
    and "packet_wf p" "size_of p \<le> PACKET_SIZE"
    and "ph_type (header p) \<in> {type_code DATA, type_code HANDSHAKE}"
  shows "phz_inv (fst (register_packet now p s))"
proof -
  let ?m = "AList.update (seq_of p) \<lparr>send_time = now, pl_packet = p\<rparr> (in_flight s)"
  have "entry_ok (seq_of p, \<lparr>send_time = now, pl_packet = p\<rparr>)"
    using assms(3-5) by (simp add: entry_ok_def)
  then have "list_all entry_ok ?m"
    using assms(1) set_update_subset [of "seq_of p" _ "in_flight s"]
    by (auto simp: phz_inv_def flight_inv_def list_all_iff)
  moreover have "length ?m \<le> MAX_IN_FLIGHT"
    using length_update_le [of "seq_of p" _ "in_flight s"] assms(2)
    by (meson Suc_leI le_trans)
  moreover have "distinct (map fst ?m)"
    using assms(1) by (simp add: phz_inv_def flight_inv_def distinct_update)
  ultimately show ?thesis
    using assms(1) by (simp add: register_packet_def phz_inv_def window_inv_def flight_inv_def)
qed

lemma packet_wf_with_sequence [simp]: "packet_wf (with_sequence n p) = packet_wf p"
  by (simp add: packet_wf_def with_sequence_def)

lemma size_of_with_sequence [simp]: "size_of (with_sequence n p) = size_of p"
  by (simp add: with_sequence_def)

lemma ph_type_with_sequence [simp]:
  "ph_type (header (with_sequence n p)) = ph_type (header p)"
  by (simp add: with_sequence_def)

lemma seq_of_with_sequence [simp]: "seq_of (with_sequence n p) = n"
  by (simp add: with_sequence_def)

lemma with_ciphertext_facts:
  assumes "length ct \<le> PACKET_SIZE" "packet_wf p"
  shows "packet_wf (with_ciphertext ct p)" "size_of (with_ciphertext ct p) = length ct"
    "seq_of (with_ciphertext ct p) = seq_of p"
    "ph_type (header (with_ciphertext ct p)) = ph_type (header p)"
    "payload_of (with_ciphertext ct p) = ct"
proof -
  show size: "size_of (with_ciphertext ct p) = length ct"
    using assms(1) by (simp add: with_ciphertext_def unsigned_of_nat take_bit_nat_eq_self)
  show "payload_of (with_ciphertext ct p) = ct"
    unfolding payload_of_def size by (simp add: with_ciphertext_def)
qed (use assms in \<open>simp_all add: with_ciphertext_def packet_wf_def\<close>)

lemma transmit_inv:
  assumes "phz_inv s" "length (in_flight s) < MAX_IN_FLIGHT" "source_ok p"
  shows "phz_inv (fst (transmit ssl now p s))"
  using assms
  by (auto simp: transmit_def Let_def source_ok_def split: sum.splits
      intro!: register_packet_inv intro: with_ciphertext_facts
      simp: with_ciphertext_facts(2,4))

lemma send_continue_inv:
  assumes "phz_inv s" "source_ok p"
  shows "phz_inv (fst (send_continue ssl now ec p s))"
proof -
  have "phz_inv (s\<lparr>cwnd := av_wait p (cwnd s)\<rparr>)"
    using assms by (simp add: phz_inv_def window_inv_def flight_inv_def av_wait_def)
  then show ?thesis
    using assms by (auto simp: send_continue_def window_full_def intro!: transmit_inv)
qed

lemma send_packet_inv [inv_intros]:
  "phz_inv s \<Longrightarrow> source_ok p \<Longrightarrow> phz_inv (fst (send_packet ssl now p s))"
  by (simp add: send_packet_def send_continue_inv)

lemma notify_sender_inv [inv_intros]:
  assumes "phz_inv s"
  shows "phz_inv (fst (notify_sender ssl now s))"
proof (cases "av_waiters (cwnd s)")
  case Nil
  then show ?thesis using assms by (simp add: notify_sender_def av_notify_one_def)
next
  case (Cons p ps)
  then have "phz_inv (s\<lparr>cwnd := (cwnd s)\<lparr>av_waiters := ps\<rparr>\<rparr>)" "source_ok p"
    using assms by (simp_all add: phz_inv_def window_inv_def flight_inv_def)
  then show ?thesis
    using Cons by (simp add: notify_sender_def av_notify_one_def send_continue_inv)
qed

lemma send_completed_inv [inv_intros]:
  "phz_inv s \<Longrightarrow> phz_inv (fst (send_completed ssl now seq ec s))"
  by (auto simp: send_completed_def Let_def split_beta intro!: inv_intros)

lemma store_loop_error_inv [inv_intros]:
  "phz_inv s \<Longrightarrow> phz_inv (fst (store_loop_error ssl now ec s))"
  by (auto simp: store_loop_error_def Let_def split_beta intro!: inv_intros)

lemma handle_loop_result_inv [inv_intros]:
  "phz_inv s \<Longrightarrow> phz_inv (fst (handle_loop_result ssl now ec s))"
  by (auto simp: handle_loop_result_def intro: inv_intros)

lemma phz_inv_update_cwnd:
  assumes "phz_inv s" "1 \<le> w" "w \<le> MAX_CWND" "is_double w"
  shows "phz_inv (s\<lparr>cwnd := av_update w (cwnd s)\<rparr>)"
  using assms by (simp add: phz_inv_def window_inv_def flight_inv_def av_update_def)

lemma phz_inv_windowD:
  assumes "phz_inv s"
  shows "1 \<le> av_value (cwnd s)" "av_value (cwnd s) \<le> MAX_CWND" "is_double (av_value (cwnd s))"
  using assms by (simp_all add: phz_inv_def window_inv_def)

lemma ack_handler_inv [inv_intros]:
  assumes "phz_inv s"
  shows "phz_inv (fst (ack_handler ssl now seq s))"
proof -
  let ?w = "next_cwnd (av_get (cwnd s)) (sshthresh s)"
  note w = phz_inv_windowD [OF assms]
  have "phz_inv ((s\<lparr>in_flight := AList.delete seq (in_flight s)\<rparr>)\<lparr>cwnd := av_update ?w (cwnd s)\<rparr>)"
    using phz_inv_update_cwnd [OF phz_inv_delete [OF assms, of seq], of ?w]
      next_cwnd_bounds [OF w, of "sshthresh s"] w(1) by (simp add: av_get_def)
  then show ?thesis
    using assms by (auto simp: ack_handler_def Let_def split_beta intro!: inv_intros)
qed

lemma accept_packet_inv [inv_intros]: "phz_inv s \<Longrightarrow> phz_inv (fst (accept_packet p s))"
  by (auto simp: accept_packet_def intro!: inv_intros)

lemma on_data_inv [inv_intros]: "phz_inv s \<Longrightarrow> phz_inv (fst (on_data ssl p s))"
  by (auto simp: on_data_def Let_def split_beta split: sum.splits intro!: inv_intros)

lemma on_handshake_inv [inv_intros]: "phz_inv s \<Longrightarrow> phz_inv (fst (on_handshake p s))"
  by (auto simp: on_handshake_def Let_def split_beta intro!: inv_intros)

lemma on_datagram_inv [inv_intros]:
  "phz_inv s \<Longrightarrow> phz_inv (fst (on_datagram ssl now remote stale d s))"
  by (auto simp: on_datagram_def Let_def split_beta intro!: inv_intros)

lemma receive_iteration_inv [inv_intros]:
  assumes "phz_inv s"
  shows "phz_inv (fst (receive_iteration ssl now remote stale d s))"
  using on_datagram_inv [OF assms, of ssl now remote stale d]
  by (auto simp: receive_iteration_def split_beta split: prod.splits loop_result.splits
      intro!: inv_intros)

lemma receive_packet_begin_inv [inv_intros]:
  "phz_inv s \<Longrightarrow> phz_inv (fst (receive_packet_begin w s))"
  using aq_pop_inv [of "received_packets_queue s" w]
  by (auto simp: receive_packet_begin_def phz_inv_def window_inv_def flight_inv_def split_beta)

lemma timeout_top_inv [inv_intros]:
  assumes "phz_inv s"
  shows "phz_inv (fst (timeout_top now s))"
proof -
  have "is_double 1" using is_double_power [of 0] by simp
  then have "phz_inv (s\<lparr>cwnd := av_update 1 (cwnd s)\<rparr>)"
    using phz_inv_update_cwnd [OF assms, of 1] by (simp add: MAX_CWND_def)
  then have "phz_inv (s\<lparr>sshthresh := max d 2, cwnd := av_update 1 (cwnd s)\<rparr>)" for d
    by (simp add: phz_inv_def window_inv_def flight_inv_def)
  then show ?thesis
    using assms by (simp add: timeout_top_def Let_def)
qed

lemma resend_completed_inv [inv_intros]:
  assumes "phz_inv s"
  shows "phz_inv (fst (resend_completed now seq ec s))"
proof (cases "map_of (in_flight s) seq")
  case None
  then show ?thesis using assms by (simp add: resend_completed_def)
next
  case (Some pl)
  let ?m = "AList.update seq (pl\<lparr>send_time := now\<rparr>) (in_flight s)"
  have mem: "(seq, pl) \<in> set (in_flight s)" using Some by (rule map_of_SomeD)
  then have "seq \<in> set (map fst (in_flight s))" by force
  then have keys: "map fst ?m = map fst (in_flight s)" by (simp add: update_keys)
  then have len: "length ?m = length (in_flight s)" by (metis length_map)
  have "entry_ok (seq, pl\<lparr>send_time := now\<rparr>)"
    using mem assms by (auto simp: phz_inv_def flight_inv_def list_all_iff entry_ok_def)
  then have "list_all entry_ok ?m"
    using assms set_update_subset [of seq "pl\<lparr>send_time := now\<rparr>" "in_flight s"]
    by (auto simp: phz_inv_def flight_inv_def list_all_iff)
  then show ?thesis
    using assms keys len Some
    by (simp add: resend_completed_def phz_inv_def window_inv_def flight_inv_def)
qed

lemma finish_loop_inv [inv_intros]: "phz_inv s \<Longrightarrow> phz_inv (fst (finish_loop ssl now s r))"
  by (auto simp: finish_loop_def split: loop_result.splits intro: inv_intros)

lemma handshake_inv [inv_intros]:
  assumes "phz_inv s"
  shows "phz_inv (snd (handshake_begin ssl s))" "phz_inv (snd (accept_peer_key ssl p s))"
    "phz_inv (snd (initiator_finish ssl p s))" "phz_inv (fst (snd (responder_reply ssl p s)))"
    "phz_inv (snd (responder_finish ec s))"
  using assms
  by (simp_all add: handshake_begin_def accept_peer_key_def initiator_finish_def
      responder_reply_def responder_finish_def split_beta)

lemma drain_begin_inv [inv_intros]: "phz_inv s \<Longrightarrow> phz_inv (fst (drain_begin w s))"
  by (simp add: drain_begin_def)

subsection \<open>Every run keeps the invariant\<close>

fun event_ok :: "'k event \<Rightarrow> bool" where
  "event_ok (Ev_send ssl now p) = source_ok p"
| "event_ok _ = True"

lemma phz_step_inv: "phz_inv s \<Longrightarrow> event_ok e \<Longrightarrow> phz_inv (fst (phz_step s e))"
  by (cases e) (auto simp: split_beta intro!: inv_intros)

interpretation transport: step_system phz_next phz_inv event_ok
  by unfold_locales (simp add: phz_next_def phz_step_inv)

end
