(* ===== verification/Transport_Props.thy ===== *)
theory Transport_Props
  imports Transport_Inv
begin

text \<open>
  What one transport endpoint guarantees: window bounds, no lost wake-up of a waiting
  sender, at-most-once hand-over of received packets, retransmissions that are copies, the
  branches of the receive loop and of the timeout loop.
\<close>

subsection \<open>Bounds\<close>

text \<open>
  C12. In every state that any interleaving of sends, completions, datagrams, timeouts,
  errors, stops and restarts can reach, the congestion window is a double between 1 and
  1024, the threshold is at least 2, at most 1024 packets are in flight, their sequence
  numbers are distinct, and each is a well-formed packet registered under its own number
  whose datagram fits into the peer's receive buffer.
\<close>

theorem transport_bounds:
  assumes "list_all event_ok es" and "s = fst (phz_run (phz_new peer c) es)"
  shows "1 \<le> av_get (cwnd s) \<and> av_get (cwnd s) \<le> MAX_CWND \<and> 2 \<le> sshthresh s
    \<and> length (in_flight s) \<le> MAX_IN_FLIGHT \<and> distinct (map fst (in_flight s))
    \<and> (\<forall>(k, pl) \<in> set (in_flight s). seq_of (pl_packet pl) = k
          \<and> length (wire (pl_packet pl)) = 8 + size_of (pl_packet pl)
          \<and> length (wire (pl_packet pl)) \<le> 1436)"
proof -
  have "phz_inv s"
    using transport.run_inv [OF phz_inv_new assms(1)] assms(2) by (simp add: fst_phz_run)
  then show ?thesis
    by (auto simp: phz_inv_def window_inv_def flight_inv_def av_get_def list_all_iff entry_ok_def
        length_wire)
qed

definition sample_endpoint :: endpoint where
  "sample_endpoint = \<lparr>ep_address = 1, ep_port = 4000\<rparr>"

definition sample_send :: "u8 event" where
  "sample_send = Ev_send sample_ssl 0 (make_packet DATA 5 0)"

theorem transport_bounds_witness:
  "length (in_flight (fst (phz_run (phz_new sample_endpoint (sample_context 3))
      [Ev_start 0, sample_send, sample_send]))) \<le> MAX_IN_FLIGHT"
proof -
  have "list_all event_ok [Ev_start 0, sample_send, sample_send]"
    by (simp add: sample_send_def source_ok_def) (simp add: make_packet_def)
  from transport_bounds [OF this refl] show ?thesis by blast
qed

subsection \<open>Waiting senders are not forgotten\<close>

text \<open>
  The program has one sending coroutine: it calls \<open>send_packet\<close> and \<open>close\<close> only while
  no send of its own is suspended.
\<close>

fun single_sender :: "'k phz \<Rightarrow> 'k event list \<Rightarrow> bool" where
  "single_sender s [] = True"
| "single_sender s (e # es) =
     ((case e of Ev_send _ _ _ \<Rightarrow> av_waiters (cwnd s) = [] | Ev_stop \<Rightarrow> av_waiters (cwnd s) = []
       | _ \<Rightarrow> True) \<and> single_sender (phz_next s e) es)"

definition wakeup_inv :: "'k phz \<Rightarrow> bool" where
  "wakeup_inv s \<longleftrightarrow> length (av_waiters (cwnd s)) \<le> 1
     \<and> (av_waiters (cwnd s) \<noteq> [] \<longrightarrow> in_flight s \<noteq> [] \<and> \<not> ec_failed (loop_error s))"

lemma window_full_nonempty:
  "phz_inv s \<Longrightarrow> window_full s \<Longrightarrow> in_flight s \<noteq> []"
  using phz_inv_windowD(1) [of s]
  by (auto simp: window_full_def MAX_IN_FLIGHT_def double_to_size_def av_get_def)

lemma transmit_waiters [simp]: "cwnd (fst (transmit ssl now p s)) = cwnd s"
  by (auto simp: transmit_def register_packet_def Let_def split: sum.splits)

lemma transmit_loop_error [simp]: "loop_error (fst (transmit ssl now p s)) = loop_error s"
  by (auto simp: transmit_def register_packet_def Let_def split: sum.splits)

lemma send_continue_wakeup:
  assumes "phz_inv s" "av_waiters (cwnd s) = []"
  shows "wakeup_inv (fst (send_continue ssl now ec p s))"
  using assms window_full_nonempty [of s]
  by (auto simp: send_continue_def wakeup_inv_def av_wait_def)

lemma notify_sender_wakeup:
  assumes "phz_inv s" "length (av_waiters (cwnd s)) \<le> 1"
  shows "wakeup_inv (fst (notify_sender ssl now s))"
proof (cases "av_waiters (cwnd s)")
  case Nil
  then show ?thesis by (simp add: notify_sender_def av_notify_one_def wakeup_inv_def)
next
  case (Cons p ps)
  then have "phz_inv (s\<lparr>cwnd := (cwnd s)\<lparr>av_waiters := []\<rparr>\<rparr>)" and [simp]: "ps = []"
    using assms by (simp_all add: phz_inv_def window_inv_def flight_inv_def)
  then show ?thesis
    using Cons by (simp add: notify_sender_def av_notify_one_def send_continue_wakeup)
qed

lemma wakeup_inv_frame [simp]:
  "wakeup_inv (s\<lparr>loops_started := b1\<rparr>) = wakeup_inv s"
  "wakeup_inv (s\<lparr>stopping_loops := b2\<rparr>) = wakeup_inv s"
  "wakeup_inv (s\<lparr>connection_encrypted := b3\<rparr>) = wakeup_inv s"
  "wakeup_inv (s\<lparr>sequence_counter := n\<rparr>) = wakeup_inv s"
  "wakeup_inv (s\<lparr>sshthresh := x\<rparr>) = wakeup_inv s"
  "wakeup_inv (s\<lparr>last_peer_activity := t\<rparr>) = wakeup_inv s"
  "wakeup_inv (s\<lparr>peer_endpoint := ep\<rparr>) = wakeup_inv s"
  "wakeup_inv (s\<lparr>peer_endpoint_known := b4\<rparr>) = wakeup_inv s"
  "wakeup_inv (s\<lparr>received_packets := r\<rparr>) = wakeup_inv s"
  "wakeup_inv (s\<lparr>received_packets_queue := q\<rparr>) = wakeup_inv s"
  "wakeup_inv (s\<lparr>drained_signal := d\<rparr>) = wakeup_inv s"
  "wakeup_inv (s\<lparr>crypto := c\<rparr>) = wakeup_inv s"
  "wakeup_inv (s\<lparr>cwnd := av_update w (cwnd s)\<rparr>) = wakeup_inv s"
  by (simp_all add: wakeup_inv_def av_update_def)

lemma wakeup_push_received [simp]: "wakeup_inv (fst (push_received p s)) = wakeup_inv s"
  by (simp add: push_received_def split_beta)

lemma wakeup_set_drained [simp]: "wakeup_inv (fst (set_drained s)) = wakeup_inv s"
  by (simp add: set_drained_def split_beta)

lemma wakeup_drain_check [simp]: "wakeup_inv (fst (drain_check s)) = wakeup_inv s"
  by (simp add: drain_check_def)

lemma wakeup_accept_packet [simp]: "wakeup_inv (fst (accept_packet p s)) = wakeup_inv s"
  by (simp add: accept_packet_def)

lemma wakeup_invD: "wakeup_inv s \<Longrightarrow> length (av_waiters (cwnd s)) \<le> 1"
  by (simp add: wakeup_inv_def)

lemma send_completed_wakeup:
  "phz_inv s \<Longrightarrow> wakeup_inv s \<Longrightarrow> wakeup_inv (fst (send_completed ssl now seq ec s))"
  by (auto simp: send_completed_def Let_def split_beta
      intro!: notify_sender_wakeup phz_inv_delete dest: wakeup_invD)

lemma store_loop_error_wakeup:
  "phz_inv s \<Longrightarrow> wakeup_inv s \<Longrightarrow> wakeup_inv (fst (store_loop_error ssl now ec s))"
  by (auto simp: store_loop_error_def Let_def split_beta
      intro!: notify_sender_wakeup dest: wakeup_invD)

lemma handle_loop_result_wakeup:
  "phz_inv s \<Longrightarrow> wakeup_inv s \<Longrightarrow> wakeup_inv (fst (handle_loop_result ssl now ec s))"
  by (simp add: handle_loop_result_def store_loop_error_wakeup)

lemma finish_loop_wakeup:
  "phz_inv s \<Longrightarrow> wakeup_inv s \<Longrightarrow> wakeup_inv (fst (finish_loop ssl now s r))"
  by (auto simp: finish_loop_def handle_loop_result_wakeup split: loop_result.splits)

lemma ack_handler_wakeup:
  assumes "phz_inv s" "wakeup_inv s"
  shows "wakeup_inv (fst (ack_handler ssl now seq s))"
proof -
  let ?w = "next_cwnd (av_get (cwnd s)) (sshthresh s)"
  note w = phz_inv_windowD [OF assms(1)]
  have "phz_inv ((s\<lparr>in_flight := AList.delete seq (in_flight s)\<rparr>)\<lparr>cwnd := av_update ?w (cwnd s)\<rparr>)"
    using phz_inv_update_cwnd [OF phz_inv_delete [OF assms(1), of seq], of ?w]
      next_cwnd_bounds [OF w, of "sshthresh s"] w(1) by (simp add: av_get_def)
  then show ?thesis
    using assms(2) wakeup_invD [OF assms(2)]
    by (simp add: ack_handler_def Let_def split_beta notify_sender_wakeup av_update_def)
qed

lemma on_datagram_wakeup:
  "phz_inv s \<Longrightarrow> wakeup_inv s \<Longrightarrow> wakeup_inv (fst (on_datagram ssl now remote stale d s))"
  by (auto simp: on_datagram_def on_data_def on_handshake_def Let_def split_beta
      split: sum.splits intro!: ack_handler_wakeup)

lemma receive_iteration_wakeup:
  assumes "phz_inv s" "wakeup_inv s"
  shows "wakeup_inv (fst (receive_iteration ssl now remote stale d s))"
  using on_datagram_wakeup [OF assms] on_datagram_inv [OF assms(1), of ssl now remote stale d]
  by (auto simp: receive_iteration_def split_beta split: prod.splits loop_result.splits
      intro!: handle_loop_result_wakeup)

lemma resend_completed_wakeup:
  "wakeup_inv s \<Longrightarrow> wakeup_inv (fst (resend_completed now seq ec s))"
  by (auto simp: resend_completed_def wakeup_inv_def split: option.splits)

lemma phz_step_wakeup:
  assumes "phz_inv s" "wakeup_inv s" "event_ok e" "single_sender s [e]"
  shows "wakeup_inv (phz_next s e)"
proof (cases e)
  case (Ev_timeout ssl now)
  have "wakeup_inv (fst (timeout_top now s))"
    using assms(2) by (auto simp: timeout_top_def Let_def wakeup_inv_def av_update_def)
  then show ?thesis
    using assms(1) Ev_timeout
    by (simp add: phz_next_def split_beta finish_loop_wakeup timeout_top_inv)
next
  case Ev_start
  then show ?thesis using assms(2) by (auto simp: phz_next_def phz_start_loops_def wakeup_inv_def)
next
  case (Ev_stop)
  then show ?thesis
    using assms by (simp add: phz_next_def phz_stop_loops_def Let_def split_beta)
      (simp add: wakeup_inv_def)
next
  case (Ev_drain w)
  then show ?thesis using assms(2) by (simp add: phz_next_def drain_begin_def)
qed (use assms in \<open>auto simp: phz_next_def send_packet_def split_beta receive_packet_begin_def
      handshake_begin_def initiator_finish_def responder_reply_def responder_finish_def
      accept_peer_key_def
      intro!: send_continue_wakeup send_completed_wakeup receive_iteration_wakeup
        handle_loop_result_wakeup finish_loop_wakeup resend_completed_wakeup
        resend_completed_inv\<close>)

text \<open>
  C11. No lost wake-up: with the program's single sending coroutine, whenever a sender is
  suspended on the congestion window, at least one packet is in flight, so an
  acknowledgement, a retransmission or a failure is still to come and will resume it; and
  it is not suspended once the transport has failed.
\<close>

theorem waiting_sender_has_packet_in_flight:
  assumes "list_all event_ok es" and "single_sender (phz_new peer c) es"
    and "s = fst (phz_run (phz_new peer c) es)" and "av_waiters (cwnd s) \<noteq> []"
  shows "in_flight s \<noteq> [] \<and> \<not> ec_failed (loop_error s)"
proof -
  have run: "phz_inv (run_steps phz_next t xs) \<and> wakeup_inv (run_steps phz_next t xs)"
    if "phz_inv t" "wakeup_inv t" "list_all event_ok xs" "single_sender t xs" for t xs
    using that
  proof (induction xs arbitrary: t)
    case (Cons x xs)
    have "phz_inv (phz_next t x)" "wakeup_inv (phz_next t x)"
      using Cons.prems phz_step_inv [of t x] phz_step_wakeup [of t x] by (auto simp: phz_next_def)
    then show ?case using Cons.IH [of "phz_next t x"] Cons.prems by simp
  qed simp
  have "wakeup_inv (phz_new peer c)" by (simp add: wakeup_inv_def phz_new_def av_init_def)
  then have "wakeup_inv s"
    using run [OF phz_inv_new _ assms(1,2)] assms(3) by (simp add: fst_phz_run)
  then show ?thesis using assms(4) by (simp add: wakeup_inv_def)
qed

definition sample_timeout :: "u8 event" where
  "sample_timeout = Ev_timeout sample_ssl (TIMEOUT + 1)"

lemmas sample_run_simps =
  phz_next_def phz_new_def phz_start_loops_def send_packet_def send_continue_def
  window_full_def transmit_def register_packet_def av_defs av_init_def finish_loop_def
  timeout_top_def timed_out_def double_to_size_def Let_def split_beta

theorem waiting_sender_has_packet_in_flight_witness:
  "in_flight (fst (phz_run (phz_new sample_endpoint (sample_context 3))
      [Ev_start 0, sample_send, sample_timeout, sample_send])) \<noteq> []"
proof -
  let ?es = "[Ev_start 0, sample_send, sample_timeout, sample_send]"
  let ?s0 = "phz_new sample_endpoint (sample_context 3)"
  have ok: "list_all event_ok ?es"
    by (simp add: sample_send_def sample_timeout_def source_ok_def) (simp add: make_packet_def)
  have single: "single_sender ?s0 ?es" and wait: "av_waiters (cwnd (fst (phz_run ?s0 ?es))) \<noteq> []"
    by (simp_all add: sample_run_simps sample_send_def sample_timeout_def TIMEOUT_def
        IDLE_TIMEOUT_def INITIAL_CWND_def MAX_IN_FLIGHT_def)
  show ?thesis
    using waiting_sender_has_packet_in_flight [OF ok single refl wait] by blast
qed

subsection \<open>Received packets are handed out at most once\<close>

text \<open>The packets that completed \<open>pop()\<close> calls carry, and packets other than wake-up markers.\<close>

fun popped :: "effect list \<Rightarrow> phz_packet list" where
  "popped [] = []"
| "popped (Pop_completed c # es) = delivered [c] @ popped es"
| "popped (_ # es) = popped es"

lemma popped_append [simp]: "popped (es @ fs) = popped es @ popped fs"
  by (induction es rule: popped.induct) auto

lemma popped_map [simp]: "popped (map Pop_completed cs) = delivered cs"
  by (induction cs) (auto simp: delivered_def)

lemma popped_drain [simp]: "popped (map Drain_completed cs) = []"
  by (induction cs) auto

definition incoming :: "phz_packet \<Rightarrow> bool" where
  "incoming p \<longleftrightarrow> ph_type (header p) \<noteq> type_code END_TRANSFER"

definition handed :: "'k phz \<Rightarrow> 'k phz \<times> effect list \<Rightarrow> phz_packet list \<Rightarrow> bool" where
  "handed s r new \<longleftrightarrow>
     aq_inv (received_packets_queue (fst r))
     \<and> popped (snd r) @ aq_queue (received_packets_queue (fst r))
        = aq_queue (received_packets_queue s) @ new
     \<and> received_packets s \<subseteq> received_packets (fst r)
     \<and> distinct (map seq_of (filter incoming new))
     \<and> (\<forall>p \<in> set (filter incoming new).
          seq_of p \<notin> received_packets s \<and> seq_of p \<in> received_packets (fst r))"

lemma handed_trans:
  assumes "handed s (s1, es) n1" "handed s1 (s2, fs) n2"
  shows "handed s (s2, es @ fs) (n1 @ n2)"
  using assms unfolding handed_def by (auto simp: subset_iff)

lemma handed_quiet:
  assumes "aq_inv (received_packets_queue s)" "received_packets_queue s1 = received_packets_queue s"
    "received_packets s1 = received_packets s" "popped es = []"
  shows "handed s (s1, es) []"
  using assms by (simp add: handed_def)

lemma handed_start:
  assumes "handed s1 r new" "received_packets_queue s1 = received_packets_queue s"
    "received_packets s1 = received_packets s"
  shows "handed s r new"
  using assms by (simp add: handed_def)

lemma handed_finish:
  assumes "handed s (s1, es) new" "received_packets_queue s2 = received_packets_queue s1"
    "received_packets s2 = received_packets s1" "popped es' = popped es"
  shows "handed s (s2, es') new"
  using assms by (simp add: handed_def)

lemma push_received_handed:
  assumes "aq_inv (received_packets_queue s)"
    and "incoming p \<Longrightarrow> seq_of p \<in> received_packets s"
  shows "popped (snd (push_received p s)) @ aq_queue (received_packets_queue (fst (push_received p s)))
      = aq_queue (received_packets_queue s) @ [p]"
    and "aq_inv (received_packets_queue (fst (push_received p s)))"
    and "received_packets (fst (push_received p s)) = received_packets s"
  using aq.put_conserves [OF assms(1), of p] aq_push_inv [OF assms(1), of p]
  by (auto simp: push_received_def split_beta)

lemma transmit_received [simp]:
  "received_packets_queue (fst (transmit ssl now p s)) = received_packets_queue s"
  "received_packets (fst (transmit ssl now p s)) = received_packets s"
  "popped (snd (transmit ssl now p s)) = []"
  by (auto simp: transmit_def register_packet_def Let_def split: sum.splits)

lemma send_continue_received [simp]:
  "received_packets_queue (fst (send_continue ssl now ec p s)) = received_packets_queue s"
  "received_packets (fst (send_continue ssl now ec p s)) = received_packets s"
  "popped (snd (send_continue ssl now ec p s)) = []"
  by (simp_all add: send_continue_def)

lemma notify_sender_received [simp]:
  "received_packets_queue (fst (notify_sender ssl now s)) = received_packets_queue s"
  "received_packets (fst (notify_sender ssl now s)) = received_packets s"
  "popped (snd (notify_sender ssl now s)) = []"
  by (simp_all add: notify_sender_def av_notify_one_def split: list.splits)

lemma set_drained_received [simp]:
  "received_packets_queue (fst (set_drained s)) = received_packets_queue s"
  "received_packets (fst (set_drained s)) = received_packets s"
  "popped (snd (set_drained s)) = []"
  by (simp_all add: set_drained_def split_beta)

lemma drain_check_received [simp]:
  "received_packets_queue (fst (drain_check s)) = received_packets_queue s"
  "received_packets (fst (drain_check s)) = received_packets s"
  "popped (snd (drain_check s)) = []"
  by (simp_all add: drain_check_def)

lemma send_completed_received [simp]:
  "received_packets_queue (fst (send_completed ssl now seq ec s)) = received_packets_queue s"
  "received_packets (fst (send_completed ssl now seq ec s)) = received_packets s"
  "popped (snd (send_completed ssl now seq ec s)) = []"
  by (simp_all add: send_completed_def Let_def split_beta)

lemma ack_handler_received [simp]:
  "received_packets_queue (fst (ack_handler ssl now seq s)) = received_packets_queue s"
  "received_packets (fst (ack_handler ssl now seq s)) = received_packets s"
  "popped (snd (ack_handler ssl now seq s)) = []"
  by (simp_all add: ack_handler_def Let_def split_beta)

lemma popped_send_ack [simp]: "popped (send_ack seq s) = []"
  by (simp add: send_ack_def)

lemma wake_not_incoming [simp]: "\<not> incoming (wake_packet n)"
  by (simp add: incoming_def wake_packet_def make_packet_def)

lemma store_loop_error_handed:
  assumes "aq_inv (received_packets_queue s)"
  shows "\<exists>new. handed s (store_loop_error ssl now ec s) new"
proof (cases "\<not> ec_failed ec \<or> ec_failed (loop_error s)")
  case True
  then have "handed s (store_loop_error ssl now ec s) []"
    using assms by (simp add: store_loop_error_def handed_def)
  then show ?thesis ..
next
  case False
  let ?s1 = "s\<lparr>loop_error := ec, loops_started := False\<rparr>"
  let ?s3 = "fst (set_drained (fst (notify_sender ssl now ?s1)))"
  let ?s4 = "?s3\<lparr>sequence_counter := sequence_counter ?s3 + 1\<rparr>"
  have "handed s (store_loop_error ssl now ec s) [wake_packet (sequence_counter ?s4)]"
    using False push_received_handed [of ?s4 "wake_packet (sequence_counter ?s4)"] assms
    by (simp add: store_loop_error_def Let_def split_beta handed_def)
  then show ?thesis ..
qed

lemma handle_loop_result_handed:
  assumes "aq_inv (received_packets_queue s)"
  shows "\<exists>new. handed s (handle_loop_result ssl now ec s) new"
proof -
  have "handed s (s, []) []" using assms by (simp add: handed_def)
  then show ?thesis
    using store_loop_error_handed [OF assms, of ssl now ec]
    by (auto simp: handle_loop_result_def)
qed

lemma accept_packet_handed:
  assumes "aq_inv (received_packets_queue s)" "seq_of p \<notin> received_packets s"
  shows "handed s (accept_packet p s) [p]"
proof -
  let ?s1 = "s\<lparr>received_packets := insert (seq_of p) (received_packets s)\<rparr>"
  show ?thesis
    using push_received_handed [of ?s1 p] assms by (auto simp: accept_packet_def handed_def)
qed

lemma on_data_handed:
  assumes "aq_inv (received_packets_queue s)"
  shows "\<exists>new. handed s (fst (on_data ssl p s), fst (snd (on_data ssl p s))) new"
proof -
  have seq: "seq_of (with_plaintext pt p) = seq_of p" for pt by (simp add: with_plaintext_def)
  have quiet: "handed s (s, es) []" if "popped es = []" for es
    using assms that by (simp add: handed_def)
  have acc: "handed s (fst (accept_packet q s), send_ack n s @ snd (accept_packet q s)) [q]"
    if "seq_of q \<notin> received_packets s" for q n
    using accept_packet_handed [OF assms that] by (simp add: handed_def)
  show ?thesis
    using quiet [of "[]"] quiet [of "send_ack (seq_of p) s"] acc [of p]
      acc [of "with_plaintext _ p"]
    by (auto simp: on_data_def Let_def split_beta seq split: sum.splits)
qed

lemma on_handshake_handed:
  assumes "aq_inv (received_packets_queue s)"
  shows "\<exists>new. handed s (fst (on_handshake p s), fst (snd (on_handshake p s))) new"
proof -
  have quiet: "handed s (s, es) []" if "popped es = []" for es
    using assms that by (simp add: handed_def)
  have acc: "handed s (fst (accept_packet p s), send_ack n s @ snd (accept_packet p s)) [p]"
    if "seq_of p \<notin> received_packets s" for n
    using accept_packet_handed [OF assms that] by (simp add: handed_def)
  show ?thesis
    using quiet [of "[]"] quiet [of "send_ack (seq_of p) s"] acc
    by (auto simp: on_handshake_def Let_def split_beta)
qed

lemma on_datagram_handed:
  assumes "aq_inv (received_packets_queue s)"
  shows "\<exists>new. handed s (fst (on_datagram ssl now remote stale d s),
      fst (snd (on_datagram ssl now remote stale d s))) new"
proof -
  let ?s1 = "s\<lparr>peer_endpoint := remote, peer_endpoint_known := True, last_peer_activity := now\<rparr>"
  let ?p = "receive_image stale d"
  have a: "aq_inv (received_packets_queue ?s1)" using assms by simp
  obtain n1 where n1: "handed s (fst (on_data ssl ?p ?s1), fst (snd (on_data ssl ?p ?s1))) n1"
    using on_data_handed [OF a, of ssl ?p] handed_start by fastforce
  obtain n2 where n2: "handed s (fst (on_handshake ?p ?s1), fst (snd (on_handshake ?p ?s1))) n2"
    using on_handshake_handed [OF a, of ?p] handed_start by fastforce
  have quiet: "\<exists>new. handed s r new"
    if "received_packets_queue (fst r) = received_packets_queue s"
      "received_packets (fst r) = received_packets s" "popped (snd r) = []" for r
    using handed_quiet [OF assms that] by auto
  show ?thesis
    using n1 n2 by (auto simp: on_datagram_def Let_def split_beta intro: quiet)
qed

lemma receive_iteration_handed:
  assumes "aq_inv (received_packets_queue s)"
  shows "\<exists>new. handed s (receive_iteration ssl now remote stale d s) new"
proof -
  obtain s1 es r where o: "on_datagram ssl now remote stale d s = (s1, es, r)"
    by (cases "on_datagram ssl now remote stale d s") auto
  obtain n1 where n1: "handed s (s1, es) n1"
    using on_datagram_handed [OF assms, of ssl now remote stale d] by (auto simp: o)
  show ?thesis
  proof (cases r)
    case Continue
    then show ?thesis using n1 by (auto simp: receive_iteration_def o)
  next
    case (Exit ec)
    have "aq_inv (received_packets_queue s1)" using n1 by (simp add: handed_def)
    then obtain n2 where "handed s1 (handle_loop_result ssl now ec s1) n2"
      using handle_loop_result_handed by blast
    then have "handed s (fst (handle_loop_result ssl now ec s1),
        es @ snd (handle_loop_result ssl now ec s1)) (n1 @ n2)"
      using handed_trans [OF n1, of "fst (handle_loop_result ssl now ec s1)"] by simp
    then show ?thesis using Exit by (auto simp: receive_iteration_def o split_beta)
  qed
qed

lemma finish_loop_handed:
  assumes "aq_inv (received_packets_queue s)"
  shows "\<exists>new. handed s (finish_loop ssl now s r) new"
  using handle_loop_result_handed [OF assms] handed_quiet [OF assms refl refl, of "[]"]
  by (cases r) (auto simp: finish_loop_def)

lemma popped_resend_next [simp]: "popped (fst (resend_next late s)) = []"
  by (induction late s rule: resend_next.induct) (auto split: option.splits)

lemma phz_step_handed:
  assumes "aq_inv (received_packets_queue s)" "e \<noteq> Ev_stop"
  shows "\<exists>new. handed s (phz_step s e) new"
proof (cases e)
  case (Ev_pop w)
  have "handed s (receive_packet_begin w s) []"
    using aq.get_conserves [OF assms(1), of w] aq_pop_inv [OF assms(1), of w]
    by (simp add: handed_def receive_packet_begin_def split_beta)
  then show ?thesis using Ev_pop by auto
next
  case (Ev_timeout ssl now)
  let ?s1 = "fst (timeout_top now s)"
  have q: "received_packets_queue ?s1 = received_packets_queue s"
    "received_packets ?s1 = received_packets s"
    by (simp_all add: timeout_top_def Let_def)
  then obtain new where "handed ?s1 (finish_loop ssl now ?s1 (snd (snd (timeout_top now s)))) new"
    using assms(1) finish_loop_handed [of ?s1] by (metis q(1))
  from handed_start [OF this q] show ?thesis using Ev_timeout by (auto simp: split_beta)
next
  case (Ev_resent ssl now seq ec)
  let ?s1 = "fst (resend_completed now seq ec s)"
  have q: "received_packets_queue ?s1 = received_packets_queue s"
    "received_packets ?s1 = received_packets s"
    by (simp_all add: resend_completed_def split: option.splits)
  then obtain new where "handed ?s1 (finish_loop ssl now ?s1 (snd (resend_completed now seq ec s))) new"
    using assms(1) finish_loop_handed [of ?s1] by (metis q(1))
  from handed_start [OF this q] show ?thesis using Ev_resent by (auto simp: split_beta)
next
  case Ev_datagram
  then show ?thesis using receive_iteration_handed [OF assms(1)] by simp
next
  case Ev_loop_exit
  then show ?thesis using handle_loop_result_handed [OF assms(1)] by simp
qed (use assms in \<open>auto simp: handed_def send_packet_def phz_start_loops_def drain_begin_def
      handshake_begin_def initiator_finish_def responder_reply_def responder_finish_def
      accept_peer_key_def split_beta intro!: exI [of _ "[]"]\<close>)

text \<open>
  C5. At-most-once hand-over: as long as the transport is not stopped, the received
  packets that were handed to callers together with those still queued carry pairwise
  distinct sequence numbers, however often the network duplicates or the peer repeats a
  datagram.
\<close>

theorem received_packets_unique:
  assumes "Ev_stop \<notin> set es" and "(s, xs) = phz_run (phz_new peer c) es"
  shows "distinct (map seq_of (filter incoming (popped xs @ aq_queue (received_packets_queue s))))"
proof -
  have run: "\<exists>new. handed t (phz_run t es) new"
    if "aq_inv (received_packets_queue t)" "Ev_stop \<notin> set es" for t :: "'a phz" and es
    using that
  proof (induction es arbitrary: t)
    case Nil
    then show ?case using handed_quiet [of t t "[]"] by auto
  next
    case (Cons e es)
    obtain n1 where n1: "handed t (fst (phz_step t e), snd (phz_step t e)) n1"
      using phz_step_handed [of t e] Cons.prems by auto
    then have "aq_inv (received_packets_queue (fst (phz_step t e)))" by (simp add: handed_def)
    with Cons obtain n2 where
      "handed (fst (phz_step t e)) (fst (phz_run (fst (phz_step t e)) es),
         snd (phz_run (fst (phz_step t e)) es)) n2"
      by (metis list.set_intros(2) prod.collapse)
    from handed_trans [OF n1 this] show ?case by (auto simp: split_beta Let_def)
  qed
  obtain new where "handed (phz_new peer c) (s, xs) new"
    using run [of "phz_new peer c" es] assms by (auto simp: phz_new_def)
  then show ?thesis by (simp add: handed_def) (simp add: phz_new_def aq_init_def)
qed


definition sample_hello :: "u8 event" where
  "sample_hello = Ev_datagram sample_ssl 0 sample_endpoint (replicate 1436 0)
     (wire (make_packet HANDSHAKE 32 0))"

theorem received_packets_unique_witness:
  "\<exists>s xs. (s, xs) = phz_run (phz_new sample_endpoint (sample_context 3))
        [Ev_start 0, sample_hello, sample_hello, Ev_pop 0]
     \<and> distinct (map seq_of (filter incoming
          (popped xs @ aq_queue (received_packets_queue s))))"
proof -
  obtain s xs where r: "(s, xs) = phz_run (phz_new sample_endpoint (sample_context 3))
      [Ev_start 0, sample_hello, sample_hello, Ev_pop 0]"
    by (metis surj_pair)
  have "Ev_stop \<notin> set [Ev_start 0, sample_hello, sample_hello, Ev_pop 0]"
    by (simp add: sample_hello_def)
  from received_packets_unique [OF this r] show ?thesis using r by blast
qed

end
