(* ===== verification/Transport_Wire.thy ===== *)
theory Transport_Wire
  imports Transport_Props
begin

text \<open>
  What the transport puts on the wire: one datagram content per sequence number (every
  retransmission is a copy of the registered packet).
\<close>

subsection \<open>One content per sequence number\<close>

definition datagram_header :: "bytes \<Rightarrow> packet_header" where
  "datagram_header d = header_of_bytes (take HEADER_SIZE d)"

lemma datagram_header_wire [simp]: "datagram_header (wire p) = header p"
  by (simp add: datagram_header_def wire_eq phz_header.length_enc phz_header.dec_enc)

text \<open>The datagrams other than acknowledgements, with their sequence numbers.\<close>

fun data_wires :: "effect list \<Rightarrow> (u32 \<times> bytes) list" where
  "data_wires [] = []"
| "data_wires (Send_datagram ep d # es) =
     (if ph_type (datagram_header d) = type_code ACK then data_wires es
      else (ph_sequence (datagram_header d), d) # data_wires es)"
| "data_wires (_ # es) = data_wires es"

lemma data_wires_append [simp]: "data_wires (es @ fs) = data_wires es @ data_wires fs"
  by (induction es rule: data_wires.induct) auto

lemma data_wires_maps [simp]:
  "data_wires (map Pop_completed cs) = []" "data_wires (map Drain_completed ds) = []"
  by (induction cs, auto) (induction ds, auto)

lemma data_wires_send_ack [simp]: "data_wires (send_ack n s) = []"
  by (simp add: send_ack_def) (simp add: make_packet_def)

text \<open>The registered packets as sequence number and datagram.\<close>

definition registered :: "'k phz \<Rightarrow> (u32 \<times> bytes) set" where
  "registered s = (\<lambda>(k, pl). (k, wire (pl_packet pl))) ` set (in_flight s)"

text \<open>
  \<open>emits n s r new\<close>: an operation that consumes at most \<open>n\<close> sequence numbers leads from
  \<open>s\<close> to \<open>r\<close>, and everything it registers or sends was registered before or is \<open>new\<close>,
  under sequence numbers taken from the counter.
\<close>

definition emits ::
  "nat \<Rightarrow> 'k phz \<Rightarrow> 'k phz \<times> effect list \<Rightarrow> (u32 \<times> bytes) set \<Rightarrow> bool" where
  "emits n s r new \<longleftrightarrow>
     unat (sequence_counter s) \<le> unat (sequence_counter (fst r))
     \<and> unat (sequence_counter (fst r)) \<le> unat (sequence_counter s) + n
     \<and> registered (fst r) \<subseteq> registered s \<union> new
     \<and> set (data_wires (snd r)) \<subseteq> registered s \<union> new
     \<and> new \<subseteq> set (data_wires (snd r))
     \<and> (\<forall>(k, d) \<in> new. unat (sequence_counter s) \<le> unat k
          \<and> unat k < unat (sequence_counter (fst r)))
     \<and> (\<forall>(k, d) \<in> new. \<forall>(k', d') \<in> new. k = k' \<longrightarrow> d = d')"

definition may_emit :: "nat \<Rightarrow> 'k phz \<Rightarrow> 'k phz \<times> effect list \<Rightarrow> bool" where
  "may_emit n s r \<longleftrightarrow> (\<exists>new. emits n s r new)"

lemma may_emitI: "emits n s r new \<Longrightarrow> may_emit n s r"
  by (auto simp: may_emit_def)

lemma may_emit_quiet:
  assumes "sequence_counter (fst r) = sequence_counter s" "registered (fst r) \<subseteq> registered s"
    "set (data_wires (snd r)) \<subseteq> registered s"
  shows "may_emit n s r"
  by (rule may_emitI [of _ _ _ "{}"]) (use assms in \<open>auto simp: emits_def\<close>)

lemma may_emit_start:
  assumes "may_emit n s1 r" "sequence_counter s1 = sequence_counter s" "registered s1 \<subseteq> registered s"
  shows "may_emit n s r"
  using assms unfolding may_emit_def emits_def by auto

text \<open>Effects that send nothing may be added in front and behind.\<close>

lemma may_emit_wrap:
  assumes "may_emit n s (s1, es)" "sequence_counter s2 = sequence_counter s1"
    "registered s2 = registered s1" "data_wires xs = []" "data_wires ys = []"
  shows "may_emit n s (s2, xs @ es @ ys)"
  using assms by (simp add: may_emit_def emits_def)

lemma may_emit_trans:
  assumes "may_emit n s (s1, es)" "may_emit m s1 (s2, fs)"
  shows "may_emit (n + m) s (s2, es @ fs)"
proof -
  obtain n1 n2 where e: "emits n s (s1, es) n1" "emits m s1 (s2, fs) n2"
    using assms by (auto simp: may_emit_def)
  have "emits (n + m) s (s2, es @ fs) (n1 \<union> n2)"
  proof -
    have c: "unat (sequence_counter s) \<le> unat (sequence_counter s1)"
      "unat (sequence_counter s1) \<le> unat (sequence_counter s2)"
      "unat (sequence_counter s2) \<le> unat (sequence_counter s) + (n + m)"
      using e by (simp_all add: emits_def)
    have r: "registered s1 \<subseteq> registered s \<union> n1" "registered s2 \<subseteq> registered s1 \<union> n2"
      "set (data_wires es) \<subseteq> registered s \<union> n1" "set (data_wires fs) \<subseteq> registered s1 \<union> n2"
      "n1 \<subseteq> set (data_wires es)" "n2 \<subseteq> set (data_wires fs)"
      using e by (simp_all add: emits_def)
    have k: "unat (sequence_counter s) \<le> unat j \<and> unat j < unat (sequence_counter s1)"
      if "(j, d) \<in> n1" for j d
      using e(1) that by (auto simp: emits_def)
    have k': "unat (sequence_counter s1) \<le> unat j \<and> unat j < unat (sequence_counter s2)"
      if "(j, d) \<in> n2" for j d
      using e(2) that by (auto simp: emits_def)
    have f: "d = d'" if "(j, d) \<in> n1" "(j, d') \<in> n1" for j d d'
      using e(1) that unfolding emits_def by blast
    have f': "d = d'" if "(j, d) \<in> n2" "(j, d') \<in> n2" for j d d'
      using e(2) that unfolding emits_def by blast
    have x: False if "(j, d) \<in> n1" "(j, d') \<in> n2" for j d d'
      using k [OF that(1)] k' [OF that(2)] by simp
    have all: "\<forall>(j, d) \<in> n1 \<union> n2. unat (sequence_counter s) \<le> unat j
        \<and> unat j < unat (sequence_counter s2)"
      using k k' c by fastforce
    have fn: "\<forall>(j, d) \<in> n1 \<union> n2. \<forall>(j', d') \<in> n1 \<union> n2. j = j' \<longrightarrow> d = d'"
      using f f' x by blast
    show ?thesis
      unfolding emits_def fst_conv snd_conv data_wires_append set_append
      using c r all fn by (intro conjI) (linarith | blast)+
  qed
  then show ?thesis by (rule may_emitI)
qed

lemma unat_Suc_word: "unat w + 1 < 2 ^ 32 \<Longrightarrow> unat (w + 1 :: u32) = unat w + 1"
  by (simp add: unat_word_ariths)

lemma registered_update_sub:
  "in_flight s' = AList.update k \<lparr>send_time = t, pl_packet = p\<rparr> (in_flight s) \<Longrightarrow>
   registered s' \<subseteq> insert (k, wire p) (registered s)"
  using set_update_subset [of k "\<lparr>send_time = t, pl_packet = p\<rparr>" "in_flight s"]
  by (force simp: registered_def)

lemma register_packet_emits:
  assumes "ph_type (header p) \<noteq> type_code ACK" "unat (sequence_counter s) + 1 < 2 ^ 32"
    "seq_of p = sequence_counter s"
  shows "emits 1 s
    (register_packet now p (s\<lparr>sequence_counter := sequence_counter s + 1\<rparr>)) {(seq_of p, wire p)}"
proof -
  let ?s1 = "s\<lparr>sequence_counter := sequence_counter s + 1\<rparr>"
  have "registered (fst (register_packet now p ?s1)) \<subseteq> insert (seq_of p, wire p) (registered s)"
    using registered_update_sub [of "fst (register_packet now p ?s1)" "seq_of p" now p s]
    by (simp add: register_packet_def)
  then show ?thesis
    using assms by (auto simp: emits_def register_packet_def unat_Suc_word)
qed

lemma transmit_emits:
  assumes "source_ok p" "unat (sequence_counter s) + 1 < 2 ^ 32"
  shows "may_emit 1 s (transmit ssl now p s)"
proof -
  let ?s1 = "s\<lparr>sequence_counter := sequence_counter s + 1\<rparr>"
  let ?p = "with_sequence (sequence_counter s) p"
  have skip: "may_emit 1 s (?s1, [Send_returned e])" for e
    by (rule may_emitI [of _ _ _ "{}"])
      (use assms(2) in \<open>auto simp: emits_def unat_Suc_word registered_def\<close>)
  have reg: "may_emit 1 s (register_packet now q ?s1)"
    if "seq_of q = sequence_counter s" "ph_type (header q) = ph_type (header p)" for q
    by (rule may_emitI, rule register_packet_emits)
      (use that assms in \<open>auto simp: source_ok_def\<close>)
  have ct: "may_emit 1 s (register_packet now (with_ciphertext ct ?p) ?s1)"
    if "length ct \<le> PACKET_SIZE" for ct
    by (rule reg) (use that assms(1) in \<open>simp_all add: source_ok_def with_ciphertext_facts\<close>)
  show ?thesis
    using skip reg [of ?p] ct by (auto simp: transmit_def Let_def split: sum.splits)
qed

lemma send_continue_emits:
  assumes "source_ok p" "unat (sequence_counter s) + 1 < 2 ^ 32"
  shows "may_emit 1 s (send_continue ssl now ec p s)"
  using transmit_emits [OF assms]
  by (auto simp: send_continue_def registered_def intro!: may_emit_quiet)

lemma notify_sender_emits:
  assumes "phz_inv s" "unat (sequence_counter s) + 1 < 2 ^ 32"
  shows "may_emit 1 s (notify_sender ssl now s)"
proof (cases "av_waiters (cwnd s)")
  case Nil
  then show ?thesis
    by (intro may_emit_quiet) (simp_all add: notify_sender_def av_notify_one_def)
next
  case (Cons p ps)
  let ?s1 = "s\<lparr>cwnd := (cwnd s)\<lparr>av_waiters := ps\<rparr>\<rparr>"
  have "source_ok p" using assms(1) Cons by (simp add: phz_inv_def flight_inv_def)
  then have "may_emit 1 ?s1 (send_continue ssl now no_error p ?s1)"
    using send_continue_emits [of p ?s1] assms(2) by simp
  then have "may_emit 1 s (send_continue ssl now no_error p ?s1)"
    by (rule may_emit_start) (simp_all add: registered_def)
  then show ?thesis
    using Cons by (auto simp: notify_sender_def av_notify_one_def)
qed

lemma registered_frame [simp]:
  "registered (s\<lparr>sequence_counter := n\<rparr>) = registered s"
  "registered (s\<lparr>loop_error := e\<rparr>) = registered s"
  "registered (s\<lparr>loops_started := b\<rparr>) = registered s"
  "registered (s\<lparr>cwnd := v\<rparr>) = registered s"
  "registered (s\<lparr>received_packets := r\<rparr>) = registered s"
  "registered (s\<lparr>received_packets_queue := q\<rparr>) = registered s"
  "registered (s\<lparr>drained_signal := d\<rparr>) = registered s"
  "registered (s\<lparr>crypto := cc\<rparr>) = registered s"
  "registered (s\<lparr>connection_encrypted := b1\<rparr>) = registered s"
  "registered (s\<lparr>last_peer_activity := t\<rparr>) = registered s"
  "registered (s\<lparr>peer_endpoint := ep\<rparr>) = registered s"
  "registered (s\<lparr>peer_endpoint_known := b2\<rparr>) = registered s"
  "registered (s\<lparr>sshthresh := x\<rparr>) = registered s"
  "registered (s\<lparr>stopping_loops := b3\<rparr>) = registered s"
  by (simp_all add: registered_def)

lemma set_drained_emits [simp]:
  "sequence_counter (fst (set_drained s)) = sequence_counter s"
  "registered (fst (set_drained s)) = registered s"
  "data_wires (snd (set_drained s)) = []"
  by (simp_all add: set_drained_def split_beta)

lemma drain_check_emits [simp]:
  "sequence_counter (fst (drain_check s)) = sequence_counter s"
  "registered (fst (drain_check s)) = registered s"
  "data_wires (snd (drain_check s)) = []"
  by (simp_all add: drain_check_def)

lemma push_received_emits [simp]:
  "sequence_counter (fst (push_received p s)) = sequence_counter s"
  "registered (fst (push_received p s)) = registered s"
  "data_wires (snd (push_received p s)) = []"
  by (simp_all add: push_received_def split_beta)

lemma accept_packet_emits [simp]:
  "sequence_counter (fst (accept_packet p s)) = sequence_counter s"
  "registered (fst (accept_packet p s)) = registered s"
  "data_wires (snd (accept_packet p s)) = []"
  by (simp_all add: accept_packet_def)

lemma registered_delete:
  "registered (s\<lparr>in_flight := AList.delete k (in_flight s)\<rparr>) \<subseteq> registered s"
  using set_delete_subset [of k "in_flight s"] by (auto simp: registered_def)

lemma delete_notify_drain_emits:
  assumes "phz_inv t" "unat (sequence_counter s) + 1 < 2 ^ 32"
    and t: "sequence_counter t = sequence_counter s" "registered t \<subseteq> registered s"
    and ys: "data_wires ys = []"
  shows "may_emit 1 s
    (fst (drain_check (fst (notify_sender ssl now t))),
     snd (notify_sender ssl now t) @ snd (drain_check (fst (notify_sender ssl now t))) @ ys)"
proof -
  have "may_emit 1 t (notify_sender ssl now t)"
    using notify_sender_emits [OF assms(1)] assms(2) t(1) by simp
  then have "may_emit 1 s (fst (notify_sender ssl now t), snd (notify_sender ssl now t))"
    using may_emit_start [OF _ t] by simp
  from may_emit_wrap [OF this, of "fst (drain_check (fst (notify_sender ssl now t)))" "[]"
      "snd (drain_check (fst (notify_sender ssl now t))) @ ys"]
  show ?thesis using ys by simp
qed

lemma send_completed_emits:
  assumes "phz_inv s" "unat (sequence_counter s) + 1 < 2 ^ 32"
  shows "may_emit 1 s (send_completed ssl now seq ec s)"
proof (cases "ec_failed ec")
  case True
  show ?thesis
    using delete_notify_drain_emits [OF phz_inv_delete [OF assms(1), of seq] assms(2) _
        registered_delete, of "[Send_returned ec]" ssl now] True
    by (simp add: send_completed_def Let_def split_beta)
qed (auto simp: send_completed_def intro: may_emit_quiet)

lemma ack_handler_emits:
  assumes "phz_inv s" "unat (sequence_counter s) + 1 < 2 ^ 32"
  shows "may_emit 1 s (ack_handler ssl now seq s)"
proof (cases "seq \<in> fst ` set (in_flight s)")
  case True
  let ?w = "next_cwnd (av_get (cwnd s)) (sshthresh s)"
  let ?t = "s\<lparr>in_flight := AList.delete seq (in_flight s), cwnd := av_update ?w (cwnd s)\<rparr>"
  note w = phz_inv_windowD [OF assms(1)]
  have "phz_inv ?t"
    using phz_inv_update_cwnd [OF phz_inv_delete [OF assms(1), of seq], of ?w]
      next_cwnd_bounds [OF w, of "sshthresh s"] w(1) by (simp add: av_get_def)
  then show ?thesis
    using delete_notify_drain_emits [of ?t s "[]" ssl now] assms(2) True
      registered_delete [of seq s]
    by (simp add: ack_handler_def Let_def split_beta)
qed (auto simp: ack_handler_def intro: may_emit_quiet)

lemma notify_sender_failed:
  assumes "ec_failed (loop_error s)"
  shows "sequence_counter (fst (notify_sender ssl now s)) = sequence_counter s"
    "registered (fst (notify_sender ssl now s)) = registered s"
    "data_wires (snd (notify_sender ssl now s)) = []"
  using assms
  by (simp_all add: notify_sender_def av_notify_one_def send_continue_def split: list.splits)

lemma store_loop_error_emits:
  assumes "unat (sequence_counter s) + 1 < 2 ^ 32"
  shows "may_emit 1 s (store_loop_error ssl now ec s)"
proof (rule may_emitI)
  show "emits 1 s (store_loop_error ssl now ec s) {}"
    using assms notify_sender_failed [of "s\<lparr>loop_error := ec, loops_started := False\<rparr>" ssl now]
    by (auto simp: emits_def store_loop_error_def Let_def split_beta unat_Suc_word)
qed

lemma handle_loop_result_emits:
  assumes "unat (sequence_counter s) + 1 < 2 ^ 32"
  shows "may_emit 1 s (handle_loop_result ssl now ec s)"
  using store_loop_error_emits [OF assms, of ssl now ec]
  by (auto simp: handle_loop_result_def intro: may_emit_quiet)

lemma finish_loop_emits:
  assumes "unat (sequence_counter s) + 1 < 2 ^ 32"
  shows "may_emit 1 s (finish_loop ssl now s r)"
  using handle_loop_result_emits [OF assms, of ssl now]
  by (cases r) (auto simp: finish_loop_def intro: may_emit_quiet)

lemma may_emit_mono: "may_emit n s r \<Longrightarrow> n \<le> m \<Longrightarrow> may_emit m s r"
  by (fastforce simp: may_emit_def emits_def)

lemma on_datagram_emits:
  assumes "phz_inv s" "unat (sequence_counter s) + 1 < 2 ^ 32"
  shows "may_emit 1 s (fst (on_datagram ssl now remote stale d s),
      fst (snd (on_datagram ssl now remote stale d s)))"
proof -
  let ?s1 = "s\<lparr>peer_endpoint := remote, peer_endpoint_known := True, last_peer_activity := now\<rparr>"
  have "may_emit 1 ?s1 (ack_handler ssl now seq ?s1)" for seq
    using ack_handler_emits [of ?s1] assms by simp
  then have "may_emit 1 s (ack_handler ssl now seq ?s1)" for seq
    by (rule may_emit_start) simp_all
  then show ?thesis
    by (auto simp: on_datagram_def on_data_def on_handshake_def Let_def split_beta
        split: sum.splits intro: may_emit_quiet)
qed

lemma may_emit_counter:
  "may_emit n s r \<Longrightarrow> unat (sequence_counter (fst r)) \<le> unat (sequence_counter s) + n"
  by (auto simp: may_emit_def emits_def)

lemma receive_iteration_emits:
  assumes "phz_inv s" "unat (sequence_counter s) + 2 < 2 ^ 32"
  shows "may_emit 2 s (receive_iteration ssl now remote stale d s)"
proof -
  obtain s1 es r where o: "on_datagram ssl now remote stale d s = (s1, es, r)"
    by (cases "on_datagram ssl now remote stale d s") auto
  have e: "may_emit 1 s (s1, es)"
    using on_datagram_emits [OF assms(1), of ssl now remote stale d] assms(2) by (simp add: o)
  show ?thesis
  proof (cases r)
    case Continue
    then show ?thesis using may_emit_mono [OF e, of 2] by (simp add: receive_iteration_def o)
  next
    case (Exit ec)
    have "may_emit 1 s1 (fst (handle_loop_result ssl now ec s1), snd (handle_loop_result ssl now ec s1))"
      using handle_loop_result_emits [of s1 ssl now ec] may_emit_counter [OF e] assms(2) by simp
    from may_emit_trans [OF e this] show ?thesis
      using Exit by (simp add: receive_iteration_def o split_beta numeral_2_eq_2)
  qed
qed

lemma resend_next_wires: "set (data_wires (fst (resend_next late s))) \<subseteq> registered s"
  if "flight_inv s"
  using that
proof (induction late s rule: resend_next.induct)
  case (2 seq rest s)
  show ?case
  proof (cases "map_of (in_flight s) seq")
    case (Some pl)
    then have m: "(seq, pl) \<in> set (in_flight s)" by (rule map_of_SomeD)
    then have "entry_ok (seq, pl)" using 2 by (auto simp: flight_inv_def list_all_iff)
    then show ?thesis using m Some by (force simp: entry_ok_def registered_def)
  qed (use 2 in simp)
qed simp

lemma registered_resend_completed:
  "registered (fst (resend_completed now seq ec s)) \<subseteq> registered s"
proof (cases "map_of (in_flight s) seq")
  case (Some pl)
  then have m: "(seq, pl) \<in> set (in_flight s)" by (rule map_of_SomeD)
  have "set (AList.update seq (pl\<lparr>send_time := now\<rparr>) (in_flight s))
      \<subseteq> insert (seq, pl\<lparr>send_time := now\<rparr>) (set (in_flight s))"
    by (auto dest!: set_update_subset [THEN subsetD])
  then have "(\<lambda>(k, pl). (k, wire (pl_packet pl)))
        ` set (AList.update seq (pl\<lparr>send_time := now\<rparr>) (in_flight s))
      \<subseteq> (\<lambda>(k, pl). (k, wire (pl_packet pl)))
        ` insert (seq, pl\<lparr>send_time := now\<rparr>) (set (in_flight s))"
    by (rule image_mono)
  also have "\<dots> = (\<lambda>(k, pl). (k, wire (pl_packet pl))) ` set (in_flight s)"
    using imageI [OF m, of "\<lambda>(k, pl). (k, wire (pl_packet pl))"] by auto
  finally show ?thesis
    using Some by (simp add: resend_completed_def registered_def)
qed (simp add: resend_completed_def)

lemma stop_loops_emits:
  assumes "unat (sequence_counter s) + 1 < 2 ^ 32"
  shows "may_emit 1 s (phz_stop_loops s)"
  by (rule may_emitI [of _ _ _ "{}"])
    (use assms in \<open>auto simp: emits_def phz_stop_loops_def Let_def split_beta unat_Suc_word
       registered_def push_received_def\<close>)

lemma phz_step_emits:
  assumes "phz_inv s" "event_ok e" "unat (sequence_counter s) + 2 < 2 ^ 32"
  shows "may_emit 2 s (phz_step s e)"
proof -
  have one: "may_emit 2 s r" if "may_emit 1 s r" for r
    using may_emit_mono [OF that, of 2] by simp
  have c: "unat (sequence_counter s) + 1 < 2 ^ 32" using assms(3) by simp
  show ?thesis
  proof (cases e)
    case (Ev_timeout ssl now)
    let ?s1 = "fst (timeout_top now s)"
    have q: "sequence_counter ?s1 = sequence_counter s" "registered ?s1 = registered s"
      by (simp_all add: timeout_top_def Let_def)
    then have "may_emit 1 ?s1 (finish_loop ssl now ?s1 (snd (snd (timeout_top now s))))"
      using c by (intro finish_loop_emits) simp
    then have "may_emit 1 s (finish_loop ssl now ?s1 (snd (snd (timeout_top now s))))"
      by (rule may_emit_start) (simp_all add: q)
    then show ?thesis using Ev_timeout by (auto simp: split_beta intro: one)
  next
    case (Ev_resent ssl now seq ec)
    let ?s1 = "fst (resend_completed now seq ec s)"
    have q: "sequence_counter ?s1 = sequence_counter s"
      by (simp add: resend_completed_def split: option.splits)
    then have "may_emit 1 ?s1 (finish_loop ssl now ?s1 (snd (resend_completed now seq ec s)))"
      using c by (intro finish_loop_emits) simp
    then have "may_emit 1 s (finish_loop ssl now ?s1 (snd (resend_completed now seq ec s)))"
      by (rule may_emit_start) (simp_all add: q registered_resend_completed)
    then show ?thesis using Ev_resent by (auto simp: split_beta intro: one)
  next
    case (Ev_resend late)
    then show ?thesis
      using assms(1) resend_next_wires [of s late]
      by (auto simp: phz_inv_def intro!: may_emit_quiet)
  next
    case Ev_datagram
    then show ?thesis using receive_iteration_emits [OF assms(1,3)] by simp
  next
    case (Ev_send ssl now p)
    then show ?thesis
      using send_continue_emits [OF _ c] assms(2) by (auto simp: send_packet_def intro: one)
  next
    case Ev_sent
    then show ?thesis using send_completed_emits [OF assms(1) c] by (auto intro: one)
  next
    case Ev_loop_exit
    then show ?thesis using handle_loop_result_emits [OF c] by (auto intro: one)
  next
    case Ev_stop
    then show ?thesis using stop_loops_emits [OF c] by (auto intro: one)
  qed (auto simp: phz_start_loops_def drain_begin_def receive_packet_begin_def
      handshake_begin_def initiator_finish_def responder_reply_def responder_finish_def
      accept_peer_key_def split_beta intro!: may_emit_quiet)
qed

text \<open>The history: everything sent so far has one content per number, below the counter.\<close>

definition wires_inv :: "'k phz \<Rightarrow> effect list \<Rightarrow> bool" where
  "wires_inv s xs \<longleftrightarrow>
     registered s \<subseteq> set (data_wires xs)
     \<and> (\<forall>(k, d) \<in> set (data_wires xs). unat k < unat (sequence_counter s))
     \<and> (\<forall>k d d'. (k, d) \<in> set (data_wires xs) \<longrightarrow> (k, d') \<in> set (data_wires xs) \<longrightarrow> d = d')"

lemma wires_inv_step:
  assumes "wires_inv s xs" "may_emit n s (s', ys)"
  shows "wires_inv s' (xs @ ys)"
proof -
  obtain new where "emits n s (s', ys) new" using assms(2) by (auto simp: may_emit_def)
  then have c: "unat (sequence_counter s) \<le> unat (sequence_counter s')"
    and r: "registered s' \<subseteq> registered s \<union> new" "set (data_wires ys) \<subseteq> registered s \<union> new"
      "new \<subseteq> set (data_wires ys)"
    and k: "\<And>j d. (j, d) \<in> new \<Longrightarrow> unat (sequence_counter s) \<le> unat j
        \<and> unat j < unat (sequence_counter s')"
    and f: "\<And>j d d'. (j, d) \<in> new \<Longrightarrow> (j, d') \<in> new \<Longrightarrow> d = d'"
    unfolding emits_def by auto
  let ?W = "set (data_wires xs)"
  have w: "registered s \<subseteq> ?W" "\<And>j d. (j, d) \<in> ?W \<Longrightarrow> unat j < unat (sequence_counter s)"
    "\<And>j d d'. (j, d) \<in> ?W \<Longrightarrow> (j, d') \<in> ?W \<Longrightarrow> d = d'"
    using assms(1) unfolding wires_inv_def by auto
  have W': "set (data_wires (xs @ ys)) \<subseteq> ?W \<union> new" using r(2) w(1) by auto
  have bound: "unat j < unat (sequence_counter s')" if "(j, d) \<in> ?W \<union> new" for j d
    using that w(2) [of j d] k [of j d] c by auto
  have single: "d = d'" if "(j, d) \<in> ?W \<union> new" "(j, d') \<in> ?W \<union> new" for j d d'
    using that w(2) [of j] k [of j] w(3) [of j d d'] f [of j d d'] by fastforce
  show ?thesis
    unfolding wires_inv_def using W' bound single r(1,3) w(1) by auto blast+
qed

lemma phz_run_wires:
  assumes "phz_inv s" "wires_inv s xs" "list_all event_ok es"
    "unat (sequence_counter s) + 2 * length es + 2 < 2 ^ 32"
  shows "wires_inv (fst (phz_run s es)) (xs @ snd (phz_run s es))"
  using assms
proof (induction es arbitrary: s xs)
  case Nil
  then show ?case by simp
next
  case (Cons e es)
  let ?s1 = "fst (phz_step s e)"
  have m: "may_emit 2 s (?s1, snd (phz_step s e))"
    using phz_step_emits [of s e] Cons.prems by simp
  have "wires_inv (fst (phz_run ?s1 es)) ((xs @ snd (phz_step s e)) @ snd (phz_run ?s1 es))"
    using Cons.prems may_emit_counter [OF m]
    by (intro Cons.IH wires_inv_step [OF _ m] phz_step_inv) simp_all
  then show ?case by (simp add: split_beta Let_def)
qed

text \<open>
  C13. One content per sequence number: over any run of at most \<open>2^31 - 2\<close> events (no
  wrap-around of the 32-bit counter), all datagrams other than acknowledgements that carry
  the same sequence number are the same bytes; a retransmission never differs from the
  original, even across a change of keys.
\<close>

theorem retransmissions_are_copies:
  assumes "list_all event_ok es" and "length es < 2 ^ 31 - 1"
    and "(k, d) \<in> set (data_wires (snd (phz_run (phz_new peer c) es)))"
    and "(k, d') \<in> set (data_wires (snd (phz_run (phz_new peer c) es)))"
  shows "d = d'"
proof -
  have "wires_inv (phz_new peer c) []"
    by (simp add: wires_inv_def registered_def phz_new_def)
  then have "wires_inv (fst (phz_run (phz_new peer c) es)) (snd (phz_run (phz_new peer c) es))"
    using phz_run_wires [OF phz_inv_new, of peer c "[]" es] assms(1,2)
    by (simp add: phz_new_def)
  then show ?thesis using assms(3,4) unfolding wires_inv_def by blast
qed

theorem retransmissions_are_copies_witness:
  "\<exists>d. data_wires (snd (phz_run (phz_new sample_endpoint (sample_context 3))
      [Ev_start 0, sample_send, Ev_resend [0]])) = [(0, d), (0, d)]"
proof -
  let ?es = "[Ev_start 0, sample_send, Ev_resend [0]]"
  let ?xs = "data_wires (snd (phz_run (phz_new sample_endpoint (sample_context 3)) ?es))"
  have t: "ph_type (header (make_packet DATA 5 0)) = 1" by (simp add: make_packet_def)
  have xs: "\<exists>d e. ?xs = [(0, d), (0, e)]"
    by (simp add: sample_run_simps sample_send_def INITIAL_CWND_def MAX_IN_FLIGHT_def t)
  then obtain d e where de: "?xs = [(0, d), (0, e)]" by blast
  have "list_all event_ok ?es"
    by (simp add: sample_send_def source_ok_def) (simp add: make_packet_def)
  moreover have "length ?es < 2 ^ 31 - 1" by simp
  moreover have "(0, d) \<in> set ?xs" "(0, e) \<in> set ?xs" by (simp_all only: de list.set insert_iff simp_thms)
  ultimately have "d = e" by (rule retransmissions_are_copies)
  then show ?thesis using de by blast
qed

end
