(* ===== verification/Transport_Peer.thy ===== *)
theory Transport_Peer
  imports Transport_Props
begin

text \<open>
  The transport towards its peer: once the peer is known nobody else is heard or spoken
  to, a packet that arrives again is acknowledged again and otherwise absorbed, and one
  pass of the timeout loop sends every late packet exactly once.
\<close>

subsection \<open>The peer is pinned\<close>

definition pinned :: "endpoint \<Rightarrow> 'k phz \<Rightarrow> bool" where
  "pinned p s \<longleftrightarrow> peer_endpoint_known s \<and> peer_endpoint s = p"

fun datagrams :: "effect list \<Rightarrow> (endpoint \<times> bytes) list" where
  "datagrams [] = []"
| "datagrams (Send_datagram p d # es) = (p, d) # datagrams es"
| "datagrams (e # es) = datagrams es"

lemma datagrams_append [simp]: "datagrams (es @ fs) = datagrams es @ datagrams fs"
  by (induction es rule: datagrams.induct) auto

lemma datagrams_maps [simp]:
  "datagrams (map Pop_completed cs) = []" "datagrams (map Drain_completed ds) = []"
proof -
  show "datagrams (map Pop_completed cs) = []" by (induction cs) auto
  show "datagrams (map Drain_completed ds) = []" by (induction ds) auto
qed

lemma datagrams_send_ack [simp]:
  "datagrams (send_ack n s) = [(peer_endpoint s, wire (make_packet ACK 0 n))]"
  by (simp add: send_ack_def)

definition to_peer :: "endpoint \<Rightarrow> 'k phz \<times> effect list \<Rightarrow> bool" where
  "to_peer p r \<longleftrightarrow> pinned p (fst r) \<and> fst ` set (datagrams (snd r)) \<subseteq> {p}"

named_theorems peer_intros \<open>operations that keep the peer\<close>

lemma pinned_frame [simp]:
  "pinned p (s\<lparr>loops_started := b1\<rparr>) = pinned p s"
  "pinned p (s\<lparr>stopping_loops := b2\<rparr>) = pinned p s"
  "pinned p (s\<lparr>connection_encrypted := b3\<rparr>) = pinned p s"
  "pinned p (s\<lparr>loop_error := e\<rparr>) = pinned p s"
  "pinned p (s\<lparr>sequence_counter := n\<rparr>) = pinned p s"
  "pinned p (s\<lparr>sshthresh := th\<rparr>) = pinned p s"
  "pinned p (s\<lparr>last_peer_activity := now\<rparr>) = pinned p s"
  "pinned p (s\<lparr>cwnd := w\<rparr>) = pinned p s"
  "pinned p (s\<lparr>received_packets_queue := q\<rparr>) = pinned p s"
  "pinned p (s\<lparr>received_packets := r\<rparr>) = pinned p s"
  "pinned p (s\<lparr>in_flight := f\<rparr>) = pinned p s"
  "pinned p (s\<lparr>drained_signal := d\<rparr>) = pinned p s"
  "pinned p (s\<lparr>crypto := c\<rparr>) = pinned p s"
  by (simp_all add: pinned_def)

lemma to_peer_quiet [peer_intros]: "pinned p s \<Longrightarrow> datagrams es = [] \<Longrightarrow> to_peer p (s, es)"
  by (simp add: to_peer_def)

lemma to_peerD: "to_peer p (s, es) \<Longrightarrow> pinned p s" "to_peer p (s, es) \<Longrightarrow> fst ` set (datagrams es) \<subseteq> {p}"
  by (simp_all add: to_peer_def)

text \<open>Sequencing: the effects of two operations in a row.\<close>

lemma to_peer_seq:
  assumes "to_peer p r" "\<And>t. pinned p t \<Longrightarrow> to_peer p (f t)"
  shows "to_peer p (fst (f (fst r)), snd r @ snd (f (fst r)))"
  using assms(1) assms(2) [of "fst r"] by (auto simp: to_peer_def)

lemma push_received_peer: "pinned p s \<Longrightarrow> to_peer p (push_received x s)"
  by (simp add: push_received_def split_beta to_peer_def)

lemma set_drained_peer: "pinned p s \<Longrightarrow> to_peer p (set_drained s)"
  by (simp add: set_drained_def split_beta to_peer_def)

lemma drain_check_peer: "pinned p s \<Longrightarrow> to_peer p (drain_check s)"
  by (simp add: drain_check_def set_drained_peer to_peer_quiet)

lemma transmit_peer: "pinned p s \<Longrightarrow> to_peer p (transmit ssl now x s)"
  by (auto simp: transmit_def register_packet_def to_peer_def pinned_def Let_def split: sum.splits)

lemma send_continue_peer: "pinned p s \<Longrightarrow> to_peer p (send_continue ssl now ec x s)"
  by (auto simp: send_continue_def intro: transmit_peer to_peer_quiet)

lemma notify_sender_peer: "pinned p s \<Longrightarrow> to_peer p (notify_sender ssl now s)"
  by (auto simp: notify_sender_def split: prod.splits list.splits
      intro!: send_continue_peer to_peer_quiet)

lemma to_peer_append:
  assumes "to_peer p (s1, xs)" "to_peer p (s2, ys)"
  shows "to_peer p (s2, xs @ ys)"
  using assms by (auto simp: to_peer_def)

lemma to_peer_eq: "pinned p s \<Longrightarrow> r = f s \<Longrightarrow> (\<And>t. pinned p t \<Longrightarrow> to_peer p (f t)) \<Longrightarrow> to_peer p r"
  by simp

lemma send_completed_peer: "pinned p s \<Longrightarrow> to_peer p (send_completed ssl now seq ec s)"
proof (cases "ec_failed ec")
  case True
  assume s: "pinned p s"
  let ?s1 = "s\<lparr>in_flight := AList.delete seq (in_flight s)\<rparr>"
  have "to_peer p (notify_sender ssl now ?s1)" using s by (intro notify_sender_peer) simp
  from to_peer_seq [OF this drain_check_peer] show ?thesis
    using True by (simp add: send_completed_def Let_def split_beta to_peer_def)
qed (simp add: send_completed_def to_peer_def)

lemma store_loop_error_peer: "pinned p s \<Longrightarrow> to_peer p (store_loop_error ssl now ec s)"
proof (cases "\<not> ec_failed ec \<or> ec_failed (loop_error s)")
  case False
  assume s: "pinned p s"
  let ?s1 = "s\<lparr>loop_error := ec, loops_started := False\<rparr>"
  have n: "to_peer p (notify_sender ssl now ?s1)" using s by (intro notify_sender_peer) simp
  then have d: "to_peer p (set_drained (fst (notify_sender ssl now ?s1)))"
    by (intro set_drained_peer) (simp add: to_peer_def)
  let ?s3 = "fst (set_drained (fst (notify_sender ssl now ?s1)))"
  have "to_peer p (push_received (wake_packet (sequence_counter ?s3 + 1))
      (?s3\<lparr>sequence_counter := sequence_counter ?s3 + 1\<rparr>))"
    using d by (intro push_received_peer) (simp add: to_peer_def)
  then show ?thesis
    using False n d by (auto simp: store_loop_error_def Let_def split_beta to_peer_def)
qed (auto simp: store_loop_error_def to_peer_def)

lemma handle_loop_result_peer: "pinned p s \<Longrightarrow> to_peer p (handle_loop_result ssl now ec s)"
  by (auto simp: handle_loop_result_def intro: store_loop_error_peer to_peer_quiet)

lemma finish_loop_peer: "pinned p s \<Longrightarrow> to_peer p (finish_loop ssl now s r)"
  by (auto simp: finish_loop_def intro: handle_loop_result_peer to_peer_quiet split: loop_result.split)

lemma ack_handler_peer: "pinned p s \<Longrightarrow> to_peer p (ack_handler ssl now seq s)"
proof (cases "seq \<in> fst ` set (in_flight s)")
  case True
  assume s: "pinned p s"
  let ?s1 = "s\<lparr>in_flight := AList.delete seq (in_flight s),
      cwnd := av_update (next_cwnd (av_get (cwnd s)) (sshthresh s)) (cwnd s)\<rparr>"
  have "to_peer p (notify_sender ssl now ?s1)" using s by (intro notify_sender_peer) simp
  from to_peer_seq [OF this drain_check_peer] show ?thesis
    using True by (simp add: ack_handler_def Let_def split_beta to_peer_def)
qed (simp add: ack_handler_def to_peer_def)

lemma accept_packet_peer: "pinned p s \<Longrightarrow> to_peer p (accept_packet x s)"
  by (simp add: accept_packet_def push_received_peer)

definition to_peer3 :: "endpoint \<Rightarrow> 'k phz \<times> effect list \<times> loop_result \<Rightarrow> bool" where
  "to_peer3 p r \<longleftrightarrow> to_peer p (fst r, fst (snd r))"

lemma ack_then_accept_peer:
  "pinned p s \<Longrightarrow> to_peer p (fst (accept_packet x s), send_ack n s @ snd (accept_packet x s))"
  using accept_packet_peer [of p s x] by (auto simp: to_peer_def pinned_def)

lemma on_data_peer: "pinned p s \<Longrightarrow> to_peer3 p (on_data ssl x s)"
  using ack_then_accept_peer [of p s]
  by (auto simp: on_data_def to_peer3_def Let_def split_beta split: sum.splits)
    (auto simp: to_peer_def pinned_def)

lemma on_handshake_peer: "pinned p s \<Longrightarrow> to_peer3 p (on_handshake x s)"
  using ack_then_accept_peer [of p s]
  by (auto simp: on_handshake_def to_peer3_def Let_def split_beta)
    (auto simp: to_peer_def pinned_def)

lemma on_datagram_foreign:
  "pinned p s \<Longrightarrow> remote \<noteq> p \<Longrightarrow> on_datagram ssl now remote stale d s = (s, [], Continue)"
  by (simp add: on_datagram_def pinned_def Let_def)

lemma on_datagram_peer: "pinned p s \<Longrightarrow> to_peer3 p (on_datagram ssl now remote stale d s)"
proof (cases "remote = p")
  case False
  then show "pinned p s \<Longrightarrow> ?thesis"
    by (simp add: on_datagram_foreign to_peer3_def to_peer_quiet)
next
  case True
  assume s: "pinned p s"
  let ?s1 = "s\<lparr>peer_endpoint := remote, peer_endpoint_known := True, last_peer_activity := now\<rparr>"
  have s1: "pinned p ?s1" using True by (simp add: pinned_def)
  show ?thesis
    using s s1 True on_data_peer [OF s1] on_handshake_peer [OF s1] ack_handler_peer [OF s1]
    by (auto simp: on_datagram_def pinned_def Let_def split_beta to_peer3_def)
      (auto simp: to_peer_def pinned_def)
qed

lemma receive_iteration_peer: "pinned p s \<Longrightarrow> to_peer p (receive_iteration ssl now remote stale d s)"
proof -
  assume "pinned p s"
  from on_datagram_peer [OF this, of ssl now remote stale d]
  have d: "to_peer p (fst (on_datagram ssl now remote stale d s),
      fst (snd (on_datagram ssl now remote stale d s)))"
    by (simp add: to_peer3_def)
  note h = handle_loop_result_peer [OF to_peerD(1) [OF d]]
  show ?thesis
  proof (cases "snd (snd (on_datagram ssl now remote stale d s))")
    case Continue
    then show ?thesis using d by (auto simp: receive_iteration_def split: prod.split)
  next
    case (Exit ec)
    show ?thesis
      using Exit to_peer_append [OF d, of "fst (handle_loop_result ssl now ec
          (fst (on_datagram ssl now remote stale d s)))" "snd (handle_loop_result ssl now ec
          (fst (on_datagram ssl now remote stale d s)))"] h [of ssl now ec]
      by (auto simp: receive_iteration_def split_beta split: prod.split)
  qed
qed

lemma resend_next_peer: "pinned p s \<Longrightarrow> to_peer p (s, fst (resend_next late s))"
  by (induction late s rule: resend_next.induct)
    (auto simp: to_peer_def pinned_def split: option.split)

lemma handshake_peer:
  "pinned p s \<Longrightarrow> pinned p (snd (handshake_begin ssl s))"
  "pinned p s \<Longrightarrow> pinned p (snd (initiator_finish ssl x s))"
  "pinned p s \<Longrightarrow> pinned p (fst (snd (responder_reply ssl x s)))"
  "pinned p s \<Longrightarrow> pinned p (snd (responder_finish ec s))"
  by (auto simp: handshake_begin_def initiator_finish_def responder_reply_def accept_peer_key_def
      responder_finish_def split_beta Let_def)

lemma stop_loops_peer: "pinned p s \<Longrightarrow> to_peer p (phz_stop_loops s)"
  by (simp add: phz_stop_loops_def push_received_def Let_def split_beta to_peer_def)

lemma phz_step_peer: "pinned p s \<Longrightarrow> to_peer p (phz_step s e)"
proof (cases e)
  case (Ev_timeout ssl now)
  assume "pinned p s"
  then have "pinned p (fst (timeout_top now s))" by (simp add: timeout_top_def Let_def)
  then show ?thesis using Ev_timeout by (simp add: split_beta finish_loop_peer)
next
  case (Ev_resent ssl now seq ec)
  assume "pinned p s"
  then have "pinned p (fst (resend_completed now seq ec s))"
    by (simp add: resend_completed_def split: option.split)
  then show ?thesis using Ev_resent by (simp add: split_beta finish_loop_peer)
qed (auto intro!: to_peer_quiet send_continue_peer send_completed_peer receive_iteration_peer
    handle_loop_result_peer resend_next_peer handshake_peer stop_loops_peer
    simp: phz_start_loops_def send_packet_def receive_packet_begin_def drain_begin_def split_beta)

definition foreign :: "endpoint \<Rightarrow> 'k event \<Rightarrow> bool" where
  "foreign p e =
     (case e of Ev_datagram ssl now remote stale d \<Rightarrow> remote \<noteq> p | _ \<Rightarrow> False)"

lemma phz_step_foreign: "pinned p s \<Longrightarrow> foreign p e \<Longrightarrow> phz_step s e = (s, [])"
  by (cases e) (simp_all add: foreign_def receive_iteration_def on_datagram_foreign)

lemma phz_run_pinned:
  "pinned p s \<Longrightarrow> phz_run s es = phz_run s (filter (\<lambda>e. \<not> foreign p e) es)
     \<and> to_peer p (phz_run s es)"
proof (induction es arbitrary: s)
  case Nil
  then show ?case by (simp add: to_peer_def)
next
  case (Cons e es)
  have st: "to_peer p (phz_step s e)" using Cons.prems by (rule phz_step_peer)
  then have p1: "pinned p (fst (phz_step s e))" by (simp add: to_peer_def)
  note IH = Cons.IH [OF p1]
  have "to_peer p (phz_run s (e # es))"
    using to_peer_append [of p "fst (phz_step s e)" "snd (phz_step s e)"
        "fst (phz_run (fst (phz_step s e)) es)" "snd (phz_run (fst (phz_step s e)) es)"] st
      conjunct2 [OF IH]
    by (simp add: split_beta Let_def)
  moreover have "phz_run s (e # es) = phz_run s (filter (\<lambda>e. \<not> foreign p e) (e # es))"
  proof (cases "foreign p e")
    case True
    then show ?thesis using IH phz_step_foreign [OF Cons.prems True] by (simp add: split_beta Let_def)
  next
    case False
    then show ?thesis using IH by (simp add: split_beta Let_def)
  qed
  ultimately show ?case by blast
qed

text \<open>
  C14. Once the peer is known (given at construction, or learned from the first datagram),
  datagrams from anybody else do not exist for the endpoint: every run equals the run
  without them, state and effects alike; the peer never changes again and every datagram
  is sent to it.
\<close>

theorem strangers_are_invisible:
  assumes "peer_endpoint_known s"
  shows "phz_run s es = phz_run s (filter (\<lambda>e. \<not> foreign (peer_endpoint s) e) es)
    \<and> peer_endpoint (fst (phz_run s es)) = peer_endpoint s
    \<and> fst ` set (datagrams (snd (phz_run s es))) \<subseteq> {peer_endpoint s}"
proof -
  have "pinned (peer_endpoint s) s" using assms by (simp add: pinned_def)
  from phz_run_pinned [OF this, of es] show ?thesis unfolding to_peer_def pinned_def by blast
qed

theorem strangers_are_invisible_witness:
  "peer_endpoint (fst (phz_run (phz_new sample_endpoint (sample_context 3))
      [Ev_start 0, Ev_datagram sample_ssl 0 \<lparr>ep_address = 2, ep_port = 9\<rparr> (replicate 1436 0)
         (wire (make_packet DATA 0 1)), sample_send])) = sample_endpoint"
proof -
  have k: "peer_endpoint_known (phz_new sample_endpoint (sample_context 3))"
    and p: "peer_endpoint (phz_new sample_endpoint (sample_context 3)) = sample_endpoint"
    by (simp_all add: phz_new_def sample_endpoint_def)
  from strangers_are_invisible [OF k] show ?thesis unfolding p by blast
qed

subsection \<open>A packet that arrives again\<close>

lemma seq_of_with_plaintext [simp]: "seq_of (with_plaintext pt p) = seq_of p"
  by (simp add: with_plaintext_def)

lemma on_data_continue:
  assumes "on_data ssl p s = (s1, xs, Continue)"
  shows "size_of p \<le> PACKET_SIZE" "hd xs = hd (send_ack (seq_of p) s)"
    "seq_of p \<in> received_packets s1"
    "peer_endpoint s1 = peer_endpoint s" "peer_endpoint_known s1 = peer_endpoint_known s"
  using assms by (auto simp: on_data_def accept_packet_def push_received_def send_ack_def Let_def
      split_beta split: if_splits sum.splits)

lemma on_handshake_continue:
  assumes "on_handshake p s = (s1, xs, Continue)"
  shows "size_of p \<le> PACKET_SIZE" "hd xs = hd (send_ack (seq_of p) s)"
    "seq_of p \<in> received_packets s1"
    "peer_endpoint s1 = peer_endpoint s" "peer_endpoint_known s1 = peer_endpoint_known s"
  using assms by (auto simp: on_handshake_def accept_packet_def push_received_def send_ack_def
      Let_def split_beta split: if_splits)

text \<open>
  C15. When a DATA or HANDSHAKE datagram from the peer is processed without ending the
  receive loop, the first thing sent is its acknowledgement; and if the same datagram
  arrives again at any later time (with whatever keys), it is acknowledged again and changes
  nothing but the time of the peer's last activity: it is not decrypted, not queued, and
  cannot end the loop.
\<close>

theorem duplicates_are_acknowledged_and_absorbed:
  assumes "on_datagram ssl now remote stale d s = (s1, xs, Continue)"
    and "p = receive_image stale d"
    and "ph_type (header p) \<in> {type_code DATA, type_code HANDSHAKE}"
    and "peer_endpoint_known s \<longrightarrow> remote = peer_endpoint s"
  shows "hd xs = Send_datagram remote (wire (make_packet ACK 0 (seq_of p)))
    \<and> on_datagram ssl' now' remote stale d s1 =
        (s1\<lparr>last_peer_activity := now'\<rparr>,
         [Send_datagram remote (wire (make_packet ACK 0 (seq_of p)))], Continue)"
proof -
  let ?s = "s\<lparr>peer_endpoint := remote, peer_endpoint_known := True, last_peer_activity := now\<rparr>"
  have ne: "type_code DATA \<noteq> type_code ACK" "type_code HANDSHAKE \<noteq> type_code ACK"
    "type_code HANDSHAKE \<noteq> type_code DATA"
    by simp_all
  have on: "on_datagram ssl now remote stale d s =
      (if ph_type (header p) = type_code DATA then on_data ssl p ?s else on_handshake p ?s)"
    using assms(2,3,4) ne by (auto simp: on_datagram_def Let_def)
  have f: "size_of p \<le> PACKET_SIZE" "hd xs = hd (send_ack (seq_of p) ?s)"
    "seq_of p \<in> received_packets s1" "peer_endpoint s1 = remote" "peer_endpoint_known s1"
    using on_data_continue [of ssl p ?s s1 xs] on_handshake_continue [of p ?s s1 xs]
      assms(1) on by (auto split: if_splits)
  have "hd xs = Send_datagram remote (wire (make_packet ACK 0 (seq_of p)))"
    using f(2) by (simp add: send_ack_def)
  moreover have "on_datagram ssl' now' remote stale d s1 =
      (s1\<lparr>last_peer_activity := now'\<rparr>,
       [Send_datagram remote (wire (make_packet ACK 0 (seq_of p)))], Continue)"
    using assms(2,3) f ne
    by (auto simp: on_datagram_def Let_def on_data_def on_handshake_def send_ack_def)
  ultimately show ?thesis ..
qed

theorem duplicates_are_acknowledged_and_absorbed_witness:
  "\<exists>s1 xs. on_datagram sample_ssl 0 sample_endpoint (replicate 1436 0)
       (wire (make_packet HANDSHAKE 32 0)) (phz_new sample_endpoint (sample_context 3))
     = (s1, xs, Continue)
   \<and> hd xs = Send_datagram sample_endpoint (wire (make_packet ACK 0 0))"
proof -
  let ?p = "make_packet HANDSHAKE 32 0"
  let ?s = "phz_new sample_endpoint (sample_context 3)"
  have r: "receive_image (replicate 1436 0) (wire ?p) = receive_image (replicate 1436 0) (wire ?p)"
    ..
  have h: "header (receive_image (replicate 1436 0) (wire ?p)) = header ?p"
    by (rule receive_image_wire(1)) (simp_all add: packet_wf_def make_packet_def)
  have p: "ph_type (header (receive_image (replicate 1436 0) (wire ?p)))
      \<in> {type_code DATA, type_code HANDSHAKE}"
    by (simp add: h) (simp add: make_packet_def)
  have k: "peer_endpoint_known ?s \<longrightarrow> sample_endpoint = peer_endpoint ?s"
    by (simp add: phz_new_def)
  obtain s1 xs where on: "on_datagram sample_ssl 0 sample_endpoint (replicate 1436 0) (wire ?p) ?s
      = (s1, xs, Continue)"
  proof -
    have "snd (snd (on_datagram sample_ssl 0 sample_endpoint (replicate 1436 0) (wire ?p) ?s))
        = Continue"
      by (simp add: on_datagram_def h Let_def on_handshake_def split_beta phz_new_def)
        (simp add: make_packet_def)
    then show ?thesis using that by (metis prod.collapse)
  qed
  from duplicates_are_acknowledged_and_absorbed [OF on r p k] on show ?thesis
    by (auto simp: h) (simp add: make_packet_def)
qed

subsection \<open>One pass of the timeout loop\<close>

text \<open>
  The pass over the late packets when every send succeeds and nothing else runs in between:
  \<open>resend_next\<close> and \<open>resend_completed\<close> alternate until the list is exhausted.
\<close>

function resend_pass :: "int \<Rightarrow> u32 list \<Rightarrow> 'k phz \<Rightarrow> 'k phz \<times> effect list" where
  "resend_pass now late s =
     (case resend_next late s of
        (es, None) \<Rightarrow> (s, es)
      | (es, Some (seq, rest)) \<Rightarrow>
          (let (s2, fs) = resend_pass now rest (fst (resend_completed now seq no_error s))
           in (s2, es @ fs)))"
  by pat_completeness auto

lemma resend_next_rest: "(es, Some (seq, rest)) = resend_next late s \<Longrightarrow> length rest < length late"
  by (induction late s rule: resend_next.induct) (auto split: option.splits)

termination resend_pass
proof (relation "measure (\<lambda>(now, late, s). length late)", goal_cases)
  case (2 now late s es y z seq rest)
  then have "(es, Some (seq, rest)) = resend_next late s" by simp
  from resend_next_rest [OF this] show ?case by simp
qed simp

declare resend_pass.simps [simp del]

lemma resend_pass_Nil [simp]: "resend_pass now [] s = (s, [])"
  by (subst resend_pass.simps) simp

lemma resend_pass_Cons:
  "resend_pass now (seq # rest) s =
     (case map_of (in_flight s) seq of
        None \<Rightarrow> resend_pass now rest s
      | Some pl \<Rightarrow>
          (let (s2, fs) = resend_pass now rest (fst (resend_completed now seq no_error s))
           in (s2, Send_datagram (peer_endpoint s) (wire (pl_packet pl)) # fs)))"
  by (subst resend_pass.simps) (auto simp: split: option.split simp: resend_pass.simps [of now rest s])

definition refreshed :: "int \<Rightarrow> u32 set \<Rightarrow> (u32 \<times> packet_local) list \<Rightarrow> (u32 \<times> packet_local) list" where
  "refreshed now K fl = map (\<lambda>(k, pl). (k, if k \<in> K then pl\<lparr>send_time := now\<rparr> else pl)) fl"

lemma update_refreshed:
  assumes "distinct (map fst fl)" "map_of fl k = Some pl"
  shows "AList.update k (pl\<lparr>send_time := now\<rparr>) fl = refreshed now {k} fl"
  using assms
proof (induction fl)
  case (Cons e fl)
  show ?case
  proof (cases "fst e = k")
    case True
    then have "k \<notin> fst ` set fl" using Cons.prems(1) by auto
    then have "refreshed now {k} fl = fl" by (force simp: refreshed_def intro!: map_idI)
    then show ?thesis using True Cons.prems(2) by (cases e) (simp add: refreshed_def)
  next
    case False
    then show ?thesis using Cons by (cases e) (simp add: refreshed_def)
  qed
qed simp

lemma refreshed_simps:
  "map fst (refreshed now K fl) = map fst fl"
  "refreshed now K (refreshed now L fl) = refreshed now (L \<union> K) fl"
  "refreshed now {} fl = fl"
  "map_of (refreshed now K fl) k
     = map_option (\<lambda>pl. if k \<in> K then pl\<lparr>send_time := now\<rparr> else pl) (map_of fl k)"
  by (auto simp: refreshed_def comp_def split_beta intro: map_idI) (induction fl, auto)

lemma resend_pass_spec:
  assumes "distinct (map fst (in_flight s))" "set late \<subseteq> fst ` set (in_flight s)" "distinct late"
  shows "resend_pass now late s =
    (s\<lparr>in_flight := refreshed now (set late) (in_flight s)\<rparr>,
     map (\<lambda>k. Send_datagram (peer_endpoint s) (wire (pl_packet (the (map_of (in_flight s) k))))) late)"
  using assms
proof (induction late arbitrary: s)
  case Nil
  then show ?case by (simp add: refreshed_simps)
next
  case (Cons k late)
  then obtain pl where m: "map_of (in_flight s) k = Some pl"
    by (metis insert_subset list.simps(15) map_of_eq_None_iff option.exhaust)
  let ?s = "s\<lparr>in_flight := refreshed now {k} (in_flight s)\<rparr>"
  have r: "fst (resend_completed now k no_error s) = ?s"
    using m update_refreshed [OF Cons.prems(1) m] by (simp add: resend_completed_def)
  have keys: "fst ` set (refreshed now {k} (in_flight s)) = fst ` set (in_flight s)"
    using arg_cong [OF refreshed_simps(1) [of now "{k}" "in_flight s"], of set] by simp
  have IH: "resend_pass now late ?s =
    (?s\<lparr>in_flight := refreshed now (set late) (in_flight ?s)\<rparr>,
     map (\<lambda>k. Send_datagram (peer_endpoint ?s) (wire (pl_packet (the (map_of (in_flight ?s) k))))) late)"
    using Cons.prems keys by (intro Cons.IH) (auto simp: refreshed_simps)
  have same: "wire (pl_packet (the (map_of (refreshed now {k} (in_flight s)) j)))
      = wire (pl_packet (the (map_of (in_flight s) j)))" if "j \<in> set late" for j
    using that Cons.prems(3) by (cases "map_of (in_flight s) j") (auto simp: refreshed_simps(4))
  show ?case
    unfolding resend_pass_Cons m using same by (simp add: r IH m refreshed_simps(2))
qed



end
