(* ===== verification/Reorder.thy ===== *)
theory Reorder
  imports Packets
begin

text \<open>
  \<open>ProtoStream::receive_chunks_loop\<close> (\<open>src/protohopz/protostream.cpp\<close>): the reorder
  buffer that turns the packets of the transport, in any order, into the ordered stream of
  chunks. The locals of the coroutine are a record; one iteration is one function, which
  returns the chunks it pushes. The buffer (\<open>unordered_map\<close>) is an association list; the
  sequence arithmetic is on 32-bit words, as in the code.
\<close>

subsection \<open>The loop\<close>

record chunk_loop =
  packets_buffer :: "(u32 \<times> phz_packet) list"
  expected_sequence :: u32

definition chunk_loop_start :: chunk_loop where
  "chunk_loop_start = \<lparr>packets_buffer = [], expected_sequence = 1\<rparr>"

definition SEQUENCE_WINDOW_SIZE :: u32 where
  "SEQUENCE_WINDOW_SIZE = 65536"

text \<open>The inner loop: push and erase as long as the expected packet is there.\<close>

function flush_ready ::
  "u32 \<Rightarrow> (u32 \<times> phz_packet) list \<Rightarrow> bytes list \<times> u32 \<times> (u32 \<times> phz_packet) list" where
  "flush_ready e buf =
     (case map_of buf e of
        None \<Rightarrow> ([], e, buf)
      | Some p \<Rightarrow>
          (let (cs, e', buf') = flush_ready (e + 1) (AList.delete e buf)
           in (payload_of p # cs, e', buf')))"
  by pat_completeness auto

lemma length_delete_less: "map_of buf e = Some p \<Longrightarrow> length (AList.delete e buf) < length buf"
  by (drule map_of_SomeD) (force simp: AList.delete_eq intro!: length_filter_less)

termination flush_ready
  by (relation "measure (\<lambda>(e, buf). length buf)") (auto simp: length_delete_less)

declare flush_ready.simps [simp del]

text \<open>One iteration on a packet of the transport.\<close>

definition receive_chunk :: "phz_packet \<Rightarrow> chunk_loop \<Rightarrow> chunk_loop \<times> bytes list" where
  "receive_chunk p l =
     (if ph_type (header p) \<noteq> type_code DATA then (l, [])
      else if seq_of p < expected_sequence l then (l, [])
      else if expected_sequence l + SEQUENCE_WINDOW_SIZE < seq_of p then (l, [])
      else if seq_of p \<in> fst ` set (packets_buffer l) then (l, [])
      else
        let l1 = (if MAX_PACKETS_BUFFER \<le> length (packets_buffer l)
                  then l\<lparr>packets_buffer := [], expected_sequence := seq_of p\<rparr> else l);
            (cs, e, buf) = flush_ready (expected_sequence l1) ((seq_of p, p) # packets_buffer l1)
        in (l1\<lparr>packets_buffer := buf, expected_sequence := e\<rparr>, cs))"

fun receive_chunks :: "phz_packet list \<Rightarrow> chunk_loop \<Rightarrow> chunk_loop \<times> bytes list" where
  "receive_chunks [] l = (l, [])"
| "receive_chunks (p # ps) l =
     (let (l1, cs) = receive_chunk p l; (l2, ds) = receive_chunks ps l1 in (l2, cs @ ds))"

lemma receive_chunks_append:
  "receive_chunks (ps @ qs) l =
     (let (l1, cs) = receive_chunks ps l; (l2, ds) = receive_chunks qs l1 in (l2, cs @ ds))"
  by (induction ps arbitrary: l) (simp_all add: split_beta Let_def)

lemma receive_chunks_snoc:
  assumes "receive_chunks ps l = (l1, cs)" "receive_chunk p l1 = (l2, ds)"
  shows "receive_chunks (ps @ [p]) l = (l2, cs @ ds)"
  using assms by (simp add: receive_chunks_append)

subsection \<open>The flush loop\<close>

text \<open>The keys of the buffer as natural numbers, and what the loop keeps of it.\<close>

definition keys_of :: "(u32 \<times> phz_packet) list \<Rightarrow> nat set" where
  "keys_of buf = (unat \<circ> fst) ` set buf"

definition contents_ok :: "(u32 \<Rightarrow> bytes) \<Rightarrow> (u32 \<times> phz_packet) list \<Rightarrow> bool" where
  "contents_ok f buf \<longleftrightarrow> (\<forall>(k, p) \<in> set buf. payload_of p = f k)"

lemma keys_of_simps [simp]:
  "keys_of [] = {}" "keys_of ((k, p) # buf) = insert (unat k) (keys_of buf)"
  by (simp_all add: keys_of_def)

lemma unat_mem_keys_of: "unat k \<in> keys_of buf \<longleftrightarrow> k \<in> fst ` set buf"
  by (auto simp: keys_of_def image_iff word_unat_eq_iff)

lemma keys_of_delete: "keys_of (AList.delete e buf) = keys_of buf - {unat e}"
  by (auto simp: keys_of_def AList.delete_eq image_iff word_unat_eq_iff)

lemma keys_of_less: "k \<in> keys_of buf \<Longrightarrow> k < 2 ^ 32"
proof -
  assume "k \<in> keys_of buf"
  then obtain w :: u32 where "k = unat w" by (auto simp: keys_of_def)
  then show ?thesis using unsigned_less [of w] by simp
qed

lemma contents_ok_delete: "contents_ok f buf \<Longrightarrow> contents_ok f (AList.delete e buf)"
  by (auto simp: contents_ok_def AList.delete_eq)

lemma finite_keys_of [simp]: "finite (keys_of buf)"
  by (simp add: keys_of_def)

lemma card_keys_of: "distinct (map fst buf) \<Longrightarrow> card (keys_of buf) = length buf"
proof -
  assume "distinct (map fst buf)"
  then have "distinct (map (unat \<circ> fst) buf)"
    by (simp add: distinct_map) (meson comp_inj_on inj_onI word_unat_eq_iff)
  from distinct_card [OF this] show ?thesis by (simp add: keys_of_def)
qed

lemma unat_next: "unat (e :: u32) + 1 < 2 ^ 32 \<Longrightarrow> unat (e + 1) = unat e + 1"
  by (rule unat_word_ariths(1) [THEN trans]) simp

text \<open>
  The flush loop pushes a contiguous run that starts at the expected number, removes
  exactly that run, and stops at a number that is missing. The counter may only wrap when
  the buffer becomes empty.
\<close>

lemma flush_ready_spec:
  assumes "flush_ready e buf = (cs, e', buf')"
    and "distinct (map fst buf)" "contents_ok f buf" "\<forall>k \<in> keys_of buf. unat e \<le> k"
  shows "cs = map (\<lambda>i. f (e + of_nat i)) [0..<length cs]
    \<and> e' = e + of_nat (length cs)
    \<and> (\<forall>i < length cs. unat e + i \<in> keys_of buf)
    \<and> keys_of buf' = keys_of buf - {unat e..<unat e + length cs}
    \<and> distinct (map fst buf') \<and> contents_ok f buf'
    \<and> (\<forall>k \<in> keys_of buf'. unat e + length cs < k) \<and> unat e' \<notin> keys_of buf'"
  using assms
proof (induction e buf arbitrary: cs e' buf' rule: flush_ready.induct)
  case (1 e buf)
  show ?case
  proof (cases "map_of buf e")
    case None
    then have "e \<notin> fst ` set buf" by (simp add: map_of_eq_None_iff)
    then have n: "unat e \<notin> keys_of buf" by (simp add: unat_mem_keys_of)
    then have "\<forall>k \<in> keys_of buf. unat e < k" using "1.prems"(4) by (metis nat_less_le)
    then show ?thesis
      using "1.prems" None n by (auto simp: flush_ready.simps [of e buf])
  next
    case (Some p)
    let ?buf1 = "AList.delete e buf"
    obtain ds e1 buf1 where r: "flush_ready (e + 1) ?buf1 = (ds, e1, buf1)"
      by (metis prod_cases3)
    have cs: "cs = payload_of p # ds" "e' = e1" "buf' = buf1"
      using "1.prems"(1) Some r by (simp_all add: flush_ready.simps [of e buf])
    have m: "(e, p) \<in> set buf" using Some by (rule map_of_SomeD)
    then have pf: "payload_of p = f e" using "1.prems"(3) by (auto simp: contents_ok_def)
    have ek: "unat e \<in> keys_of buf" using m by (force simp: keys_of_def)
    have gt: "\<forall>k \<in> keys_of ?buf1. unat e < k"
      using "1.prems"(4) by (auto simp: keys_of_delete nat_less_le)
    have low: "\<forall>k \<in> keys_of ?buf1. unat (e + 1) \<le> k"
    proof
      fix k assume k: "k \<in> keys_of ?buf1"
      then have "unat e + 1 < 2 ^ 32" using gt keys_of_less [OF k] by force
      then show "unat (e + 1) \<le> k" using gt k by (simp add: unat_next Suc_le_eq)
    qed
    note IH = "1.IH" [OF Some r _ _ low, of] 
    have I: "ds = map (\<lambda>i. f (e + 1 + of_nat i)) [0..<length ds]
      \<and> e1 = e + 1 + of_nat (length ds)
      \<and> (\<forall>i < length ds. unat (e + 1) + i \<in> keys_of ?buf1)
      \<and> keys_of buf1 = keys_of ?buf1 - {unat (e + 1)..<unat (e + 1) + length ds}
      \<and> distinct (map fst buf1) \<and> contents_ok f buf1
      \<and> (\<forall>k \<in> keys_of buf1. unat (e + 1) + length ds < k) \<and> unat e1 \<notin> keys_of buf1"
      using "1.prems"(2,3) by (intro IH) (auto simp: distinct_delete contents_ok_delete)
    have empty: "ds = [] \<and> keys_of ?buf1 = {}" if "\<not> unat e + 1 < 2 ^ 32"
    proof -
      have "keys_of ?buf1 = {}" using gt keys_of_less [of _ ?buf1] that by fastforce
      then show ?thesis using I by (metis empty_iff length_greater_0_conv)
    qed
    have list: "cs = map (\<lambda>i. f (e + of_nat i)) [0..<length cs]"
    proof -
      have "map (\<lambda>i. f (e + of_nat i)) [0..<Suc (length ds)]
          = f e # map (\<lambda>i. f (e + 1 + of_nat i)) [0..<length ds]"
        by (simp add: upt_conv_Cons map_Suc_upt [symmetric] comp_def add.assoc del: upt_Suc)
      then show ?thesis using I cs pf by simp
    qed
    show ?thesis
    proof (cases "unat e + 1 < 2 ^ 32")
      case True
      then have u: "unat (e + 1) = unat e + 1" by (rule unat_next)
      have mem: "unat e + i \<in> keys_of buf" if "i < length cs" for i
        using that I ek cs(1) u by (cases i) (auto simp: keys_of_delete)
      have ks: "keys_of buf' = keys_of buf - {unat e..<unat e + length cs}"
        using I cs u by (auto simp: keys_of_delete)
      have e': "e' = e + of_nat (length cs)" using I cs by (simp add: add.assoc)
      show ?thesis
      proof (intro conjI list e' ks allI impI mem)
        show "\<forall>k \<in> keys_of buf'. unat e + length cs < k" using I cs u by auto
      qed (use I cs in auto)
    next
      case False
      then have "ds = []" "keys_of ?buf1 = {}" "keys_of buf1 = {}" using empty I by auto
      moreover have "keys_of buf - {unat e} = {}" using calculation(2) by (simp add: keys_of_delete)
      ultimately show ?thesis using I cs list ek by (auto simp: add.assoc)
    qed
  qed
qed

subsection \<open>The invariant of the loop\<close>

definition reorder_inv :: "(u32 \<Rightarrow> bytes) \<Rightarrow> nat \<Rightarrow> chunk_loop \<Rightarrow> bool" where
  "reorder_inv f n l \<longleftrightarrow>
     distinct (map fst (packets_buffer l)) \<and> contents_ok f (packets_buffer l)
     \<and> (\<forall>k \<in> keys_of (packets_buffer l).
          unat (expected_sequence l) < k \<and> k \<le> unat (expected_sequence l) + 65536)
     \<and> expected_sequence l = 1 + of_nat n"

lemma reorder_inv_start: "reorder_inv f 0 chunk_loop_start"
  by (simp add: reorder_inv_def chunk_loop_start_def contents_ok_def)

lemma reorder_inv_length: "reorder_inv f n l \<Longrightarrow> length (packets_buffer l) \<le> 65536"
proof -
  assume i: "reorder_inv f n l"
  let ?e = "unat (expected_sequence l)"
  have "keys_of (packets_buffer l) \<subseteq> {?e<..?e + 65536}"
    using i by (auto simp: reorder_inv_def)
  then have "card (keys_of (packets_buffer l)) \<le> 65536"
    using card_mono [of "{?e<..?e + 65536}"] by simp
  then show ?thesis using i by (simp add: card_keys_of reorder_inv_def)
qed

text \<open>The window test, read over the natural numbers: no wrap-around lets a packet through.\<close>

lemma window_nat:
  assumes "e \<le> s" "\<not> e + SEQUENCE_WINDOW_SIZE < (s :: u32)"
  shows "unat e \<le> unat s" "unat s \<le> unat e + 65536"
proof -
  show le: "unat e \<le> unat s" using assms(1) by (simp add: word_le_nat_alt)
  show "unat s \<le> unat e + 65536"
  proof (cases "unat e + 65536 < 2 ^ 32")
    case True
    then have "unat (e + 65536) = unat e + 65536" by (simp add: unat_word_ariths(1))
    then show ?thesis using assms(2) by (simp add: SEQUENCE_WINDOW_SIZE_def word_less_nat_alt)
  next
    case False
    have "unat s < 2 ^ 32" using unsigned_less [of s] by simp
    then show ?thesis using False by simp
  qed
qed

text \<open>A buffer at its cap holds the whole window: only the expected packet can be new.\<close>

lemma full_buffer_expected:
  assumes "reorder_inv f n l" "MAX_PACKETS_BUFFER \<le> length (packets_buffer l)"
    and "expected_sequence l \<le> s" "\<not> expected_sequence l + SEQUENCE_WINDOW_SIZE < s"
    and "s \<notin> fst ` set (packets_buffer l)"
  shows "s = expected_sequence l"
proof -
  let ?e = "unat (expected_sequence l)" and ?K = "keys_of (packets_buffer l)"
  have sub: "?K \<subseteq> {?e<..?e + 65536}" using assms(1) by (auto simp: reorder_inv_def)
  have "card ?K = length (packets_buffer l)"
    using assms(1) by (simp add: reorder_inv_def card_keys_of)
  then have "?K = {?e<..?e + 65536}"
    using assms(2) card_seteq [OF _ sub] by (simp add: MAX_PACKETS_BUFFER_def)
  moreover have "unat s \<notin> ?K" using assms(5) by (simp add: unat_mem_keys_of)
  ultimately have "unat s = ?e" using window_nat [OF assms(3,4)] by auto
  then show ?thesis by (simp add: word_unat_eq_iff)
qed

text \<open>What an iteration does with a packet that passes the four guards.\<close>

definition accepts :: "phz_packet \<Rightarrow> chunk_loop \<Rightarrow> bool" where
  "accepts p l \<longleftrightarrow>
     ph_type (header p) = type_code DATA \<and> expected_sequence l \<le> seq_of p
     \<and> \<not> expected_sequence l + SEQUENCE_WINDOW_SIZE < seq_of p
     \<and> seq_of p \<notin> fst ` set (packets_buffer l)"

lemma receive_chunk_refused: "\<not> accepts p l \<Longrightarrow> receive_chunk p l = (l, [])"
  by (auto simp: receive_chunk_def accepts_def not_less)

definition buffer_for :: "phz_packet \<Rightarrow> chunk_loop \<Rightarrow> (u32 \<times> phz_packet) list" where
  "buffer_for p l =
     (seq_of p, p) # (if MAX_PACKETS_BUFFER \<le> length (packets_buffer l) then []
                      else packets_buffer l)"

lemma receive_chunk_accepted:
  assumes "reorder_inv f n l" "accepts p l"
    and "flush_ready (expected_sequence l) (buffer_for p l) = (cs, e, buf)"
  shows "receive_chunk p l = (l\<lparr>packets_buffer := buf, expected_sequence := e\<rparr>, cs)"
proof -
  have "seq_of p = expected_sequence l" if "MAX_PACKETS_BUFFER \<le> length (packets_buffer l)"
    using full_buffer_expected [OF assms(1) that] assms(2) by (simp add: accepts_def)
  then show ?thesis
    using assms(2,3) by (auto simp: receive_chunk_def accepts_def buffer_for_def not_less Let_def)
qed

lemma buffer_for_facts:
  assumes "reorder_inv f n l" "accepts p l" "payload_of p = f (seq_of p)"
  shows "distinct (map fst (buffer_for p l))" "contents_ok f (buffer_for p l)"
    "\<forall>k \<in> keys_of (buffer_for p l). unat (expected_sequence l) \<le> k
       \<and> k \<le> unat (expected_sequence l) + 65536"
  using assms window_nat [of "expected_sequence l" "seq_of p"]
  by (auto simp: reorder_inv_def accepts_def buffer_for_def contents_ok_def less_imp_le)

lemma receive_chunk_inv:
  assumes "reorder_inv f n l" "receive_chunk p l = (l', cs)"
    and "ph_type (header p) = type_code DATA \<longrightarrow> payload_of p = f (seq_of p)"
  shows "reorder_inv f (n + length cs) l'
    \<and> cs = map (\<lambda>i. f (1 + of_nat (n + i))) [0..<length cs]"
proof (cases "accepts p l")
  case False
  then show ?thesis using assms(1,2) by (simp add: receive_chunk_refused)
next
  case True
  let ?e = "expected_sequence l"
  have pf: "payload_of p = f (seq_of p)" using True assms(3) by (simp add: accepts_def)
  note b = buffer_for_facts [OF assms(1) True pf]
  obtain e buf where fl: "flush_ready ?e (buffer_for p l) = (cs, e, buf)"
    and l': "l' = l\<lparr>packets_buffer := buf, expected_sequence := e\<rparr>"
    using receive_chunk_accepted [OF assms(1) True] assms(2) by (metis prod.inject prod_cases3)
  have n: "?e = 1 + of_nat n" using assms(1) by (simp add: reorder_inv_def)
  have F: "cs = map (\<lambda>i. f (?e + of_nat i)) [0..<length cs]" "e = ?e + of_nat (length cs)"
    "keys_of buf = keys_of (buffer_for p l) - {unat ?e..<unat ?e + length cs}"
    "distinct (map fst buf)" "contents_ok f buf"
    "\<forall>k \<in> keys_of buf. unat ?e + length cs < k"
    using flush_ready_spec [OF fl b(1,2)] b(3) by blast+
  have win: "unat e < k \<and> k \<le> unat e + 65536" if k: "k \<in> keys_of buf" for k
  proof -
    have "unat ?e + length cs < 2 ^ 32" using F(6) k keys_of_less [OF k] by force
    then have "unat e = unat ?e + length cs"
      by (simp add: F(2) unat_word_ariths(1) unsigned_of_nat take_bit_nat_eq_self)
    then show ?thesis using F(3,6) k b(3) by force
  qed
  show ?thesis
    using F(1,2,4,5) win by (simp add: reorder_inv_def l' n add.assoc)
qed

lemma receive_chunks_inv:
  assumes "reorder_inv f n l" "receive_chunks ps l = (l', cs)"
    and "\<forall>p \<in> set ps. ph_type (header p) = type_code DATA \<longrightarrow> payload_of p = f (seq_of p)"
  shows "reorder_inv f (n + length cs) l'
    \<and> cs = map (\<lambda>i. f (1 + of_nat (n + i))) [0..<length cs]"
  using assms
proof (induction ps arbitrary: n l cs)
  case Nil
  then show ?case by simp
next
  case (Cons p ps)
  obtain l1 c1 where p1: "receive_chunk p l = (l1, c1)" by (metis surj_pair)
  obtain c2 where p2: "receive_chunks ps l1 = (l', c2)" and cs: "cs = c1 @ c2"
    using Cons.prems(2) p1 by (auto split: prod.splits)
  have s1: "reorder_inv f (n + length c1) l1"
    "c1 = map (\<lambda>i. f (1 + of_nat (n + i))) [0..<length c1]"
    using receive_chunk_inv [OF Cons.prems(1) p1] Cons.prems(3) by auto
  have s2: "reorder_inv f (n + length c1 + length c2) l'"
    "c2 = map (\<lambda>i. f (1 + of_nat (n + length c1 + i))) [0..<length c2]"
    using Cons.IH [OF s1(1) p2] Cons.prems(3) by auto
  have "map (\<lambda>i. f (1 + of_nat (n + i))) [0..<length c1 + length c2]
      = map (\<lambda>i. f (1 + of_nat (n + i))) [0..<length c1]
        @ map (\<lambda>i. f (1 + of_nat (n + length c1 + i))) [0..<length c2]"
    by (rule nth_equalityI) (auto simp: nth_append)
  then show ?case using s1 s2 cs by (simp add: add.assoc)
qed

text \<open>
  C17. Whatever packets the transport hands over, in whatever order, with whatever gaps,
  repetitions and foreign packet types: as long as every DATA packet numbered \<open>k\<close> carries
  the \<open>k\<close>-th content, the chunks pushed are the contents 1, 2, 3, ... in this order, without
  a gap or a repetition, the counter tells how many they are (also across the wrap-around of
  the 32-bit counter), and the buffer never exceeds its cap.
\<close>

theorem chunks_in_order:
  assumes "receive_chunks ps chunk_loop_start = (l, cs)"
    and "\<forall>p \<in> set ps. ph_type (header p) = type_code DATA \<longrightarrow> payload_of p = f (seq_of p)"
  shows "cs = map (\<lambda>i. f (1 + of_nat i)) [0..<length cs]
    \<and> expected_sequence l = 1 + of_nat (length cs)
    \<and> length (packets_buffer l) \<le> MAX_PACKETS_BUFFER"
proof -
  have i: "reorder_inv f (0 + length cs) l
      \<and> cs = map (\<lambda>i. f (1 + of_nat (0 + i))) [0..<length cs]"
    by (rule receive_chunks_inv [OF reorder_inv_start assms])
  then have "length (packets_buffer l) \<le> 65536" by (intro reorder_inv_length) blast
  then show ?thesis using i by (simp add: reorder_inv_def MAX_PACKETS_BUFFER_def)
qed

definition data_packet :: "u32 \<Rightarrow> bytes \<Rightarrow> phz_packet" where
  "data_packet k d =
     (let p = make_packet DATA (length d) k
      in p\<lparr>payload_region := d @ drop (length d) (payload_region p)\<rparr>)"

lemma data_packet_facts:
  assumes "length d \<le> PACKET_SIZE"
  shows "ph_type (header (data_packet k d)) = type_code DATA" "seq_of (data_packet k d) = k"
    "payload_of (data_packet k d) = d"
  using assms by (simp_all add: data_packet_def make_packet_def payload_of_def Let_def
      unsigned_of_nat take_bit_nat_eq_self)

theorem chunks_in_order_witness:
  "\<exists>l cs. receive_chunks [data_packet 2 (le_bytes 4 (2 :: u32)), data_packet 1 (le_bytes 4 (1 :: u32)),
       data_packet 2 (le_bytes 4 (2 :: u32))] chunk_loop_start = (l, cs)
   \<and> cs = map (\<lambda>i. le_bytes 4 (1 + of_nat i :: u32)) [0..<length cs]"
proof -
  let ?p = "\<lambda>k :: u32. data_packet k (le_bytes 4 k)"
  let ?ps = "[?p 2, ?p 1, ?p 2]"
  obtain l cs where r: "receive_chunks ?ps chunk_loop_start = (l, cs)" by (metis surj_pair)
  have c: "\<forall>p \<in> set ?ps. ph_type (header p) = type_code DATA \<longrightarrow> payload_of p = le_bytes 4 (seq_of p)"
    by (simp only: list.set ball_simps) (simp add: data_packet_facts)
  from chunks_in_order [OF r c] r show ?thesis by blast
qed

subsection \<open>The contiguous prefix of what has arrived\<close>

definition data_seqs :: "phz_packet list \<Rightarrow> nat set" where
  "data_seqs ps = (\<lambda>p. unat (seq_of p)) ` {p \<in> set ps. ph_type (header p) = type_code DATA}"

lemma data_seqs_Cons:
  "data_seqs (p # ps) =
     (if ph_type (header p) = type_code DATA then insert (unat (seq_of p)) (data_seqs ps)
      else data_seqs ps)"
  by (auto simp: data_seqs_def)

lemma data_seqs_Nil [simp]: "data_seqs [] = {}"
  by (simp add: data_seqs_def)

lemma data_seqs_snoc:
  "data_seqs (ps @ [p]) =
     (if ph_type (header p) = type_code DATA then insert (unat (seq_of p)) (data_seqs ps)
      else data_seqs ps)"
  by (auto simp: data_seqs_def)

text \<open>
  No packet overtakes a missing one by a whole window: when number \<open>k\<close> arrives, the numbers
  up to \<open>k - 65536\<close> have arrived.
\<close>

definition reordering_bounded :: "phz_packet list \<Rightarrow> bool" where
  "reordering_bounded ps \<longleftrightarrow>
     (\<forall>i < length ps. ph_type (header (ps ! i)) = type_code DATA
        \<longrightarrow> {1..unat (seq_of (ps ! i)) - 65536} \<subseteq> data_seqs (take i ps))"

lemma reordering_bounded_snoc:
  "reordering_bounded (ps @ [p]) \<longleftrightarrow>
     reordering_bounded ps
     \<and> (ph_type (header p) = type_code DATA \<longrightarrow> {1..unat (seq_of p) - 65536} \<subseteq> data_seqs ps)"
  unfolding reordering_bounded_def
  by (auto simp: nth_append less_Suc_eq all_conj_distrib imp_conjL split: if_splits)

text \<open>The simulation relation to the specification: the set of numbers that have arrived.\<close>

definition prefix_rel :: "nat set \<Rightarrow> nat \<Rightarrow> chunk_loop \<Rightarrow> bool" where
  "prefix_rel S n l \<longleftrightarrow>
     S = {1..n} \<union> keys_of (packets_buffer l)
     \<and> unat (expected_sequence l) = Suc n \<and> Suc n \<notin> keys_of (packets_buffer l)
     \<and> (\<forall>k \<in> keys_of (packets_buffer l). k < Suc n + 65536)"

lemma prefix_rel_not_full:
  assumes "reorder_inv f n l" "prefix_rel S n l"
  shows "length (packets_buffer l) < MAX_PACKETS_BUFFER"
proof -
  have "keys_of (packets_buffer l) \<subseteq> {Suc n<..<Suc n + 65536}"
    using assms by (auto simp: reorder_inv_def prefix_rel_def)
  then have "card (keys_of (packets_buffer l)) \<le> card {Suc n<..<Suc n + 65536}"
    by (intro card_mono) simp_all
  then show ?thesis
    using assms(1) by (simp add: card_keys_of reorder_inv_def MAX_PACKETS_BUFFER_def)
qed

lemma receive_chunk_refines:
  assumes "reorder_inv f n l" "prefix_rel S n l" "receive_chunk p l = (l', cs)"
    and "ph_type (header p) = type_code DATA"
    and "payload_of p = f (seq_of p)" "1 \<le> unat (seq_of p)"
    and "\<forall>k \<in> insert (unat (seq_of p)) S. k + 65538 < 2 ^ 32"
    and "{1..unat (seq_of p) - 65536} \<subseteq> S"
  shows "prefix_rel (insert (unat (seq_of p)) S) (n + length cs) l'"
proof (cases "accepts p l")
  case False
  have S: "S = {1..n} \<union> keys_of (packets_buffer l)" and e: "unat (expected_sequence l) = Suc n"
    and m: "Suc n \<notin> S" and keys: "\<forall>k \<in> keys_of (packets_buffer l). k < Suc n + 65536"
    using assms(2) by (auto simp: prefix_rel_def)
  have small: "unat (seq_of p) < Suc n + 65536"
  proof (rule ccontr)
    assume "\<not> ?thesis"
    then have "Suc n \<in> {1..unat (seq_of p) - 65536}" by simp
    then show False using assms(8) m by blast
  qed
  have n: "n + 65536 < 2 ^ 32 - 2"
  proof (cases n)
    case (Suc j)
    then have "n \<in> S" using S by auto
    then show ?thesis using assms(7) by fastforce
  qed simp
  then have "unat (expected_sequence l + SEQUENCE_WINDOW_SIZE) = Suc n + 65536"
    by (simp add: SEQUENCE_WINDOW_SIZE_def unat_word_ariths(1) e)
  then have "\<not> expected_sequence l + SEQUENCE_WINDOW_SIZE < seq_of p"
    using small by (simp add: word_less_nat_alt)
  then have "unat (seq_of p) < Suc n \<or> unat (seq_of p) \<in> keys_of (packets_buffer l)"
    using False assms(4) e by (auto simp: accepts_def word_le_nat_alt unat_mem_keys_of)
  then have "unat (seq_of p) \<in> S" using S assms(6) by auto
  then show ?thesis
    using assms(2,3) receive_chunk_refused [OF False] by (simp add: insert_absorb)
next
  case True
  have S: "S = {1..n} \<union> keys_of (packets_buffer l)" and e: "unat (expected_sequence l) = Suc n"
    and m: "Suc n \<notin> S" and keys: "\<forall>k \<in> keys_of (packets_buffer l). k < Suc n + 65536"
    using assms(2) by (auto simp: prefix_rel_def)
  have small: "unat (seq_of p) < Suc n + 65536"
  proof (rule ccontr)
    assume "\<not> ?thesis"
    then have "Suc n \<in> {1..unat (seq_of p) - 65536}" by simp
    then show False using assms(8) m by blast
  qed
  note b = buffer_for_facts [OF assms(1) True assms(5)]
  have nf: "length (packets_buffer l) < MAX_PACKETS_BUFFER"
    by (rule prefix_rel_not_full [OF assms(1,2)])
  then have bk: "keys_of (buffer_for p l) = insert (unat (seq_of p)) (keys_of (packets_buffer l))"
    by (simp add: buffer_for_def)
  obtain e' buf where fl: "flush_ready (expected_sequence l) (buffer_for p l) = (cs, e', buf)"
    and l': "l' = l\<lparr>packets_buffer := buf, expected_sequence := e'\<rparr>"
    using receive_chunk_accepted [OF assms(1) True] assms(3) by (metis prod.inject prod_cases3)
  have F: "e' = expected_sequence l + of_nat (length cs)"
    "\<forall>i < length cs. Suc n + i \<in> keys_of (buffer_for p l)"
    "keys_of buf = keys_of (buffer_for p l) - {Suc n..<Suc n + length cs}"
    "unat e' \<notin> keys_of buf"
    using flush_ready_spec [OF fl b(1,2)] b(3) e by auto
  have top: "Suc n + length cs < 2 ^ 32"
  proof (cases "length cs")
    case 0
    moreover have "unat (expected_sequence l) < 2 ^ 32"
      using unsigned_less [of "expected_sequence l"] by simp
    ultimately show ?thesis using e by simp
  next
    case (Suc j)
    then have "Suc n + j \<in> insert (unat (seq_of p)) S" using F(2) bk S by auto
    then show ?thesis using assms(7) Suc by fastforce
  qed
  then have ue: "unat e' = Suc (n + length cs)"
    using e by (simp add: F(1) unat_word_ariths(1) unsigned_of_nat take_bit_nat_eq_self)
  have run: "{Suc n..<Suc n + length cs} \<subseteq> keys_of (buffer_for p l)"
    using F(2) by (force simp: le_iff_add)
  have "insert (unat (seq_of p)) S = {1..n} \<union> keys_of (buffer_for p l)" using S bk by auto
  also have "\<dots> = {1..n + length cs} \<union> keys_of buf" using F(3) run by force
  finally show ?thesis
    using F(3,4) ue l' bk small keys by (auto simp: prefix_rel_def)
qed

lemma receive_chunks_refines:
  assumes "\<forall>p \<in> set ps. ph_type (header p) = type_code DATA
      \<longrightarrow> payload_of p = f (seq_of p) \<and> 1 \<le> unat (seq_of p) \<and> unat (seq_of p) + 65538 < 2 ^ 32"
    and "reordering_bounded ps" "receive_chunks ps chunk_loop_start = (l, cs)"
  shows "prefix_rel (data_seqs ps) (length cs) l"
  using assms
proof (induction ps arbitrary: l cs rule: rev_induct)
  case Nil
  then show ?case by (auto simp: prefix_rel_def data_seqs_def chunk_loop_start_def)
next
  case (snoc p ps)
  obtain l1 c1 where r1: "receive_chunks ps chunk_loop_start = (l1, c1)" by (metis surj_pair)
  obtain c2 where r2: "receive_chunk p l1 = (l, c2)" and cs: "cs = c1 @ c2"
    using snoc.prems(3) r1 by (auto simp: receive_chunks_append split: prod.splits)
  have rel: "prefix_rel (data_seqs ps) (length c1) l1"
    using snoc.prems(1,2) r1 by (intro snoc.IH) (auto simp: reordering_bounded_snoc)
  have inv: "reorder_inv f (length c1) l1"
    using receive_chunks_inv [OF reorder_inv_start r1, of f] snoc.prems(1) by auto
  show ?case
  proof (cases "ph_type (header p) = type_code DATA")
    case True
    have "\<forall>k \<in> insert (unat (seq_of p)) (data_seqs ps). k + 65538 < 2 ^ 32"
      using snoc.prems(1) True by (auto simp: data_seqs_def)
    then have "prefix_rel (insert (unat (seq_of p)) (data_seqs ps)) (length c1 + length c2) l"
      using snoc.prems(1,2) True
      by (intro receive_chunk_refines [OF inv rel r2 True]) (auto simp: reordering_bounded_snoc)
    then show ?thesis using True cs by (simp add: data_seqs_snoc)
  next
    case False
    then have "l = l1" "c2 = []" using r2 by (auto simp: receive_chunk_def)
    then show ?thesis using False rel cs by (simp add: data_seqs_snoc)
  qed
qed

text \<open>
  C6. At every moment the stream has delivered exactly the longest contiguous prefix of the
  packets that have arrived: with no packet a whole window ahead of a missing one (and
  numbers below the wrap-around), everything up to the first missing number is delivered and
  the first missing number has not arrived. So once 1 to n have arrived, all n are delivered.
\<close>

theorem delivered_is_contiguous_prefix:
  assumes "receive_chunks ps chunk_loop_start = (l, cs)"
    and "\<forall>p \<in> set ps. ph_type (header p) = type_code DATA
      \<longrightarrow> payload_of p = f (seq_of p) \<and> 1 \<le> unat (seq_of p) \<and> unat (seq_of p) + 65538 < 2 ^ 32"
    and "reordering_bounded ps"
  shows "{1..length cs} \<subseteq> data_seqs ps \<and> Suc (length cs) \<notin> data_seqs ps
    \<and> cs = map (\<lambda>k. f (of_nat k)) [1..<Suc (length cs)]"
proof -
  have r: "prefix_rel (data_seqs ps) (length cs) l"
    by (rule receive_chunks_refines [OF assms(2,3,1)])
  have "cs = map (\<lambda>i. f (1 + of_nat (0 + i))) [0..<length cs]"
    using receive_chunks_inv [OF reorder_inv_start assms(1), of f] assms(2) by blast
  also have "\<dots> = map (\<lambda>k. f (of_nat k)) [1..<Suc (length cs)]"
    by (simp only: map_Suc_upt [symmetric] One_nat_def map_map comp_def of_nat_Suc add_0)
  finally show ?thesis using r by (auto simp: prefix_rel_def)
qed

theorem delivered_is_contiguous_prefix_witness:
  "\<exists>l cs. receive_chunks [data_packet 3 [8], data_packet 1 [6], data_packet 2 [7]] chunk_loop_start
     = (l, cs) \<and> 3 \<le> length cs"
proof -
  let ?ps = "[data_packet 3 [8], data_packet 1 [6], data_packet 2 [7]]"
  let ?f = "\<lambda>k :: u32. [ucast k + 5 :: u8]"
  obtain l cs where r: "receive_chunks ?ps chunk_loop_start = (l, cs)" by (metis surj_pair)
  have c: "\<forall>p \<in> set ?ps. ph_type (header p) = type_code DATA
      \<longrightarrow> payload_of p = ?f (seq_of p) \<and> 1 \<le> unat (seq_of p) \<and> unat (seq_of p) + 65538 < 2 ^ 32"
    by (simp add: data_packet_facts)
  have b: "reordering_bounded ?ps"
    by (auto simp: reordering_bounded_def data_packet_facts less_Suc_eq)
  have s: "data_seqs ?ps = {1, 2, 3}"
    by (auto simp: data_seqs_Cons data_packet_facts)
  have "Suc (length cs) \<notin> {1, 2, 3}" "{1..length cs} \<subseteq> {1, 2, 3}"
    using delivered_is_contiguous_prefix [OF r c b] unfolding s by blast+
  moreover have "length cs \<noteq> 0" "length cs \<noteq> 1" "length cs \<noteq> 2" using calculation(1) by auto
  ultimately have "3 \<le> length cs" by linarith
  then show ?thesis using r by blast
qed

subsection \<open>The hard cap of the buffer\<close>

lemma receive_chunk_buffers:
  assumes "accepts p l" "length (packets_buffer l) < MAX_PACKETS_BUFFER"
    and "seq_of p \<noteq> expected_sequence l" "expected_sequence l \<notin> fst ` set (packets_buffer l)"
  shows "receive_chunk p l = (l\<lparr>packets_buffer := (seq_of p, p) # packets_buffer l\<rparr>, [])"
proof -
  have "map_of ((seq_of p, p) # packets_buffer l) (expected_sequence l) = None"
    using assms(3,4) by (simp add: map_of_eq_None_iff)
  then show ?thesis
    using assms(1,2) by (simp add: receive_chunk_def accepts_def not_less [symmetric]
        flush_ready.simps [of "expected_sequence l"])
qed

lemma receive_gap:
  assumes "\<And>k. length (f k) \<le> PACKET_SIZE" "m \<le> 65536"
  shows "\<exists>buf. receive_chunks (map (\<lambda>k. data_packet (of_nat k) (f (of_nat k))) [2..<2 + m])
      chunk_loop_start = (\<lparr>packets_buffer = buf, expected_sequence = 1\<rparr>, [])
    \<and> length buf = m \<and> keys_of buf = {2..<2 + m}"
  using assms(2)
proof (induction m)
  case 0
  then show ?case by (simp add: chunk_loop_start_def)
next
  case (Suc m)
  let ?p = "data_packet (of_nat (2 + m)) (f (of_nat (2 + m)))"
  obtain buf where r: "receive_chunks (map (\<lambda>k. data_packet (of_nat k) (f (of_nat k))) [2..<2 + m])
      chunk_loop_start = (\<lparr>packets_buffer = buf, expected_sequence = 1\<rparr>, [])"
    and b: "length buf = m" "keys_of buf = {2..<2 + m}"
    using Suc by auto
  let ?l = "\<lparr>packets_buffer = buf, expected_sequence = 1\<rparr>"
  have s: "seq_of ?p = of_nat (2 + m)" and t: "ph_type (header ?p) = type_code DATA"
    using data_packet_facts [OF assms(1)] by blast+
  have us: "unat (seq_of ?p) = 2 + m"
  proof -
    have "2 + m < 2 ^ 32" using Suc.prems by simp
    then show ?thesis
      unfolding s by (simp add: unsigned_of_nat take_bit_nat_eq_self del: of_nat_add of_nat_Suc add_2_eq_Suc)
  qed
  have notin: "k \<notin> fst ` set buf" if "unat k \<notin> {2..<2 + m}" for k
    using that b(2) unat_mem_keys_of [of k buf] by blast
  have acc: "accepts ?p ?l"
    unfolding accepts_def using t us Suc.prems notin [of "seq_of ?p"]
    by (simp add: word_le_nat_alt word_less_nat_alt SEQUENCE_WINDOW_SIZE_def del: of_nat_Suc of_nat_add)
  have "seq_of ?p \<noteq> 1" using us by (metis add_leD1 numeral_le_one_iff semiring_norm(69) unat_1 le_add1)
  then have one: "receive_chunk ?p ?l
      = (\<lparr>packets_buffer = (seq_of ?p, ?p) # buf, expected_sequence = 1\<rparr>, [])"
    using receive_chunk_buffers [OF acc] b(1) notin [of 1] Suc.prems
    by (simp add: MAX_PACKETS_BUFFER_def del: of_nat_Suc of_nat_add add_2_eq_Suc)
  have u: "[2..<2 + Suc m] = [2..<2 + m] @ [2 + m]" by simp
  have "receive_chunks (map (\<lambda>k. data_packet (of_nat k) (f (of_nat k))) [2..<2 + Suc m])
      chunk_loop_start = (\<lparr>packets_buffer = (seq_of ?p, ?p) # buf, expected_sequence = 1\<rparr>, [])"
    unfolding u map_append list.map using receive_chunks_snoc [OF r one] by (simp only: append_Nil)
  moreover have "keys_of ((seq_of ?p, ?p) # buf) = {2..<2 + Suc m}"
    using b(2) us by (auto simp del: of_nat_Suc of_nat_add)
  moreover have "length ((seq_of ?p, ?p) # buf) = Suc m" using b(1) by simp
  ultimately show ?case by blast
qed

text \<open>Nothing is pushed as long as the expected packet does not arrive.\<close>

lemma receive_chunks_stalled:
  assumes "reorder_inv f n l" "unat (expected_sequence l) \<notin> data_seqs ps"
    and "\<forall>p \<in> set ps. ph_type (header p) = type_code DATA \<longrightarrow> payload_of p = f (seq_of p)"
  shows "snd (receive_chunks ps l) = []"
  using assms
proof (induction ps arbitrary: l)
  case Nil
  then show ?case by simp
next
  case (Cons p ps)
  obtain l1 cs where r: "receive_chunk p l = (l1, cs)" by (metis surj_pair)
  have "cs = [] \<and> expected_sequence l1 = expected_sequence l"
  proof (cases "accepts p l")
    case False
    then show ?thesis using r by (simp add: receive_chunk_refused)
  next
    case True
    have ne: "seq_of p \<noteq> expected_sequence l"
      using Cons.prems(2) True by (auto simp: data_seqs_Cons accepts_def)
    then have nf: "length (packets_buffer l) < MAX_PACKETS_BUFFER"
      using full_buffer_expected [OF Cons.prems(1), of "seq_of p"] True
      unfolding accepts_def by (meson not_le)
    have "expected_sequence l \<notin> fst ` set (packets_buffer l)"
      using Cons.prems(1) unfolding reorder_inv_def unat_mem_keys_of [symmetric] by blast
    from receive_chunk_buffers [OF True nf ne this] r show ?thesis by auto
  qed
  moreover from this have "reorder_inv f n l1"
    using receive_chunk_inv [OF Cons.prems(1) r] Cons.prems(3) by simp
  ultimately show ?case
    using Cons.IH [of l1] Cons.prems(2,3) r
    by (auto simp: data_seqs_Cons split_beta split: if_splits)
qed

text \<open>
  C39. The cap of the buffer is reached by a gap of one window, and then loses packets: when
  2 to 65537 have arrived (each acknowledged by the transport, so never sent again) and the
  missing packet 1 comes, the reset drops all of them and only packet 1 is delivered; from
  then on nothing is delivered however many later packets arrive, unless packet 2 itself is
  handed over a second time, which the transport never does.
\<close>

theorem full_buffer_loses_a_window:
  assumes "\<And>k. length (f k) \<le> PACKET_SIZE"
    and "\<forall>p \<in> set ps. ph_type (header p) = type_code DATA \<longrightarrow> payload_of p = f (seq_of p)"
    and "2 \<notin> data_seqs ps"
  shows "snd (receive_chunks (map (\<lambda>k. data_packet (of_nat k) (f (of_nat k))) ([2..<65538] @ [1]) @ ps)
      chunk_loop_start) = [f 1]"
proof -
  let ?p = "data_packet 1 (f 1)"
  have n: "2 + 65536 = (65538 :: nat)" by simp
  obtain buf where r: "receive_chunks (map (\<lambda>k. data_packet (of_nat k) (f (of_nat k))) [2..<65538])
      chunk_loop_start = (\<lparr>packets_buffer = buf, expected_sequence = 1\<rparr>, [])"
    and b: "length buf = 65536" "keys_of buf = {2..<65538}"
    using receive_gap [of f, OF assms(1) order_refl, unfolded n] by blast
  have p: "ph_type (header ?p) = type_code DATA" "seq_of ?p = 1" "payload_of ?p = f 1"
    using data_packet_facts [OF assms(1)] by blast+
  have "1 \<notin> fst ` set buf" using b(2) unat_mem_keys_of [of 1 buf] by auto
  then have one: "receive_chunk ?p \<lparr>packets_buffer = buf, expected_sequence = 1\<rparr>
      = (\<lparr>packets_buffer = [], expected_sequence = 2\<rparr>, [f 1])"
    using b(1) p flush_ready.simps [of 1 "[(1, ?p)]"] flush_ready.simps [of 2 "[]"]
    by (simp add: receive_chunk_def SEQUENCE_WINDOW_SIZE_def MAX_PACKETS_BUFFER_def
        word_less_nat_alt)
  have i: "reorder_inv f 1 \<lparr>packets_buffer = [], expected_sequence = 2\<rparr>"
    by (simp add: reorder_inv_def contents_ok_def)
  have "snd (receive_chunks ps \<lparr>packets_buffer = [], expected_sequence = 2\<rparr>) = []"
    using receive_chunks_stalled [OF i _ assms(2)] assms(3) by simp
  moreover have "receive_chunks (map (\<lambda>k. data_packet (of_nat k) (f (of_nat k))) ([2..<65538] @ [1]))
      chunk_loop_start = (\<lparr>packets_buffer = [], expected_sequence = 2\<rparr>, [f 1])"
    unfolding map_append list.map of_nat_1 using receive_chunks_snoc [OF r one]
    by (simp only: append_Nil)
  ultimately show ?thesis
    unfolding receive_chunks_append [of _ ps] by (simp only: Let_def prod.case split_beta snd_conv append_Nil2 fst_conv)
qed

theorem full_buffer_loses_a_window_witness:
  "snd (receive_chunks (map (\<lambda>k. data_packet (of_nat k) (le_bytes 4 (of_nat k :: u32)))
      ([2..<65538] @ [1]) @ [data_packet 65538 (le_bytes 4 (65538 :: u32))]) chunk_loop_start)
   = [le_bytes 4 (1 :: u32)]"
proof -
  have a: "\<And>k :: u32. length (le_bytes 4 k) \<le> PACKET_SIZE" by simp
  have c: "\<forall>p \<in> set [data_packet 65538 (le_bytes 4 (65538 :: u32))].
      ph_type (header p) = type_code DATA \<longrightarrow> payload_of p = le_bytes 4 (seq_of p)"
    by (simp only: list.set ball_simps) (simp add: data_packet_facts)
  have d: "2 \<notin> data_seqs [data_packet 65538 (le_bytes 4 (65538 :: u32))]"
    by (simp add: data_seqs_Cons data_packet_facts)
  show ?thesis by (rule full_buffer_loses_a_window [OF a c d])
qed

end
