(* ===== verification/Stream.thy ===== *)
theory Stream
  imports Transport_Inv Reorder
begin

text \<open>
  \<open>ProtoStream\<close> (\<open>include/protohopz/protostream.hpp\<close>, \<open>src/protohopz/protostream.cpp\<close>): an
  ordered stream of chunks over one transport. As in \<open>Transport\<close>, a coroutine is cut at its
  \<open>co_await\<close> points. A consumer suspended in \<open>receive()\<close> is the waiter of \<open>ready_chunks_\<close>;
  it is resumed inside the \<open>push\<close> that wakes it.
\<close>

subsection \<open>State\<close>

datatype handshake_mode = INITIATOR | RESPONDER

record 'k stream =
  mode :: handshake_mode
  transport :: "'k phz"
  ready_chunks :: "(nat, bytes) async_queue"
  loops_running :: bool
  stream_stopping :: bool
  stream_error :: error_code
  chunk_locals :: chunk_loop

datatype stream_effect =
  Transport effect
| Receive_returned nat "error_code + bytes"
| Stream_send_returned error_code
| Cancel_chunks_loop

definition stream_new :: "handshake_mode \<Rightarrow> endpoint \<Rightarrow> 'k crypto_context \<Rightarrow> 'k stream" where
  "stream_new m peer c =
     \<lparr>mode = m, transport = phz_new peer c, ready_chunks = aq_init, loops_running = False,
      stream_stopping = False, stream_error = no_error, chunk_locals = chunk_loop_start\<rparr>"

subsection \<open>Starting the loops\<close>

text \<open>
  \<open>start_loops\<close> up to the handshake's first \<open>co_await\<close>, and after the handshake has returned
  \<open>ec\<close>. The chunk loop is spawned with fresh locals.
\<close>

definition start_loops_begin ::
  "'k openssl \<Rightarrow> int \<Rightarrow> 'k stream \<Rightarrow> error_code \<times> 'k stream" where
  "start_loops_begin ssl now s =
     (let (ec, t) = handshake_begin ssl (phz_start_loops now (transport s))
      in (ec, s\<lparr>stream_stopping := False, stream_error := no_error, transport := t\<rparr>))"

definition start_loops_end :: "error_code \<Rightarrow> 'k stream \<Rightarrow> error_code \<times> 'k stream" where
  "start_loops_end ec s =
     (if ec_failed ec then (ec, s)
      else (ec, s\<lparr>loops_running := True, chunk_locals := chunk_loop_start\<rparr>))"

subsection \<open>Sending\<close>

definition stream_packet :: "bytes \<Rightarrow> phz_packet" where
  "stream_packet data = data_packet 0 data"

text \<open>
  \<open>send\<close> once the loops run; \<open>ec\<close> is the result of \<open>start_loops\<close> when it had to be awaited.
\<close>

definition stream_send ::
  "'k openssl \<Rightarrow> int \<Rightarrow> error_code \<Rightarrow> bytes \<Rightarrow> 'k stream \<Rightarrow> 'k stream \<times> stream_effect list" where
  "stream_send ssl now ec data s =
     (if ec_failed ec then (s, [Stream_send_returned ec])
      else if PACKET_PAYLOAD_SIZE < length data
      then (s, [Stream_send_returned (make_error_code stream_payload_too_large)])
      else let (t, es) = send_packet ssl now (stream_packet data) (transport s)
           in (s\<lparr>transport := t\<rparr>, map Transport es))"

subsection \<open>Receiving\<close>

text \<open>The end of \<open>receive()\<close>, when its \<open>pop\<close> completes.\<close>

definition receive_end :: "'k stream \<Rightarrow> (nat, bytes) completion \<Rightarrow> stream_effect" where
  "receive_end s c =
     Receive_returned (handler c)
       (if ec_failed (status c) then Inl (status c)
        else if ec_failed (stream_error s) then Inl (stream_error s)
        else Inr (value_of c))"

definition with_ready ::
  "'k stream \<Rightarrow> (nat, bytes) async_queue \<times> (nat, bytes) completion list
     \<Rightarrow> 'k stream \<times> stream_effect list" where
  "with_ready s r = (let s1 = s\<lparr>ready_chunks := fst r\<rparr> in (s1, map (receive_end s1) (snd r)))"

text \<open>
  \<open>receive()\<close>: the check of the stored error, then the \<open>pop\<close> once the loops run; \<open>ec\<close> is
  the result of \<open>start_loops\<close> when it had to be awaited.
\<close>

definition stream_receive ::
  "nat \<Rightarrow> error_code \<Rightarrow> 'k stream \<Rightarrow> 'k stream \<times> stream_effect list" where
  "stream_receive w ec s =
     (if ec_failed (stream_error s) then (s, [Receive_returned w (Inl (stream_error s))])
      else if ec_failed ec then (s, [Receive_returned w (Inl ec)])
      else with_ready s (aq_pop w (ready_chunks s)))"

text \<open>The cancellation of a suspended \<open>receive()\<close>; its default value is \<open>Chunk{}\<close>.\<close>

definition stream_receive_cancelled :: "nat \<Rightarrow> 'k stream \<Rightarrow> 'k stream \<times> stream_effect list" where
  "stream_receive_cancelled w s = with_ready s (aq_cancel [] w (ready_chunks s))"

subsection \<open>The chunk loop\<close>

definition push_chunk :: "bytes \<Rightarrow> 'k stream \<Rightarrow> 'k stream \<times> stream_effect list" where
  "push_chunk c s = with_ready s (aq_push c (ready_chunks s))"

fun push_chunks :: "bytes list \<Rightarrow> 'k stream \<Rightarrow> 'k stream \<times> stream_effect list" where
  "push_chunks [] s = (s, [])"
| "push_chunks (c # cs) s =
     (let (s1, xs) = push_chunk c s; (s2, ys) = push_chunks cs s1 in (s2, xs @ ys))"

definition store_stream_error ::
  "error_code \<Rightarrow> 'k stream \<Rightarrow> 'k stream \<times> stream_effect list" where
  "store_stream_error ec s =
     (if \<not> ec_failed ec \<or> ec_failed (stream_error s) then (s, [])
      else let (s1, es) = push_chunk [] (s\<lparr>stream_error := ec, loops_running := False\<rparr>)
           in (s1, Cancel_chunks_loop # es))"

definition handle_receive_chunks_result ::
  "error_code \<Rightarrow> 'k stream \<Rightarrow> 'k stream \<times> stream_effect list" where
  "handle_receive_chunks_result ec s =
     (if \<not> ec_failed ec then (s, [])
      else if stream_stopping s \<and> ec = operation_aborted then (s, [])
      else store_stream_error ec s)"

text \<open>
  One iteration of \<open>receive_chunks_loop\<close> on the result of \<open>receive_packet\<close>: an error ends the
  loop, which reports it to its completion handler.
\<close>

definition chunks_iteration ::
  "error_code + phz_packet \<Rightarrow> 'k stream \<Rightarrow> 'k stream \<times> stream_effect list" where
  "chunks_iteration r s =
     (case r of
        Inl ec \<Rightarrow> handle_receive_chunks_result ec s
      | Inr p \<Rightarrow>
          (let (l, cs) = receive_chunk p (chunk_locals s)
           in push_chunks cs (s\<lparr>chunk_locals := l\<rparr>)))"

subsection \<open>Closing\<close>

definition close_begin :: "nat \<Rightarrow> 'k stream \<Rightarrow> 'k stream \<times> drain_result" where
  "close_begin w s = (let (t, r) = drain_begin w (transport s) in (s\<lparr>transport := t\<rparr>, r))"

text \<open>After the drain, whatever its result: both sets of loops are stopped.\<close>

definition close_end :: "'k stream \<Rightarrow> error_code \<times> 'k stream \<times> stream_effect list" where
  "close_end s =
     (let (t, es) = phz_stop_loops (transport s)
      in (stream_error s,
          s\<lparr>loops_running := False, stream_stopping := True, transport := t\<rparr>,
          Cancel_chunks_loop # map Transport es))"

subsection \<open>Events\<close>

datatype 'k stream_event =
  Se_packet "error_code + phz_packet"
| Se_receive nat error_code
| Se_receive_cancelled nat
| Se_send "'k openssl" int error_code bytes
| Se_transport "'k event"
| Se_close_begin nat
| Se_close_end
| Se_start_begin "'k openssl" int
| Se_start_end error_code

fun stream_step :: "'k stream \<Rightarrow> 'k stream_event \<Rightarrow> 'k stream \<times> stream_effect list" where
  "stream_step s (Se_packet r) = chunks_iteration r s"
| "stream_step s (Se_receive w ec) = stream_receive w ec s"
| "stream_step s (Se_receive_cancelled w) = stream_receive_cancelled w s"
| "stream_step s (Se_send ssl now ec d) = stream_send ssl now ec d s"
| "stream_step s (Se_transport e) =
     (let (t, es) = phz_step (transport s) e in (s\<lparr>transport := t\<rparr>, map Transport es))"
| "stream_step s (Se_close_begin w) = (fst (close_begin w s), [])"
| "stream_step s Se_close_end = snd (close_end s)"
| "stream_step s (Se_start_begin ssl now) = (snd (start_loops_begin ssl now s), [])"
| "stream_step s (Se_start_end ec) = (snd (start_loops_end ec s), [])"

fun stream_run :: "'k stream \<Rightarrow> 'k stream_event list \<Rightarrow> 'k stream \<times> stream_effect list" where
  "stream_run s [] = (s, [])"
| "stream_run s (e # es) =
     (let (s1, xs) = stream_step s e; (s2, ys) = stream_run s1 es in (s2, xs @ ys))"

definition restarts :: "'k stream_event \<Rightarrow> bool" where
  "restarts e = (case e of Se_start_begin _ _ \<Rightarrow> True | Se_start_end _ \<Rightarrow> True | _ \<Rightarrow> False)"

text \<open>The chunks that \<open>receive()\<close> calls return, in the order in which they return.\<close>

fun received :: "stream_effect list \<Rightarrow> bytes list" where
  "received [] = []"
| "received (Receive_returned w (Inr c) # es) = c # received es"
| "received (e # es) = received es"

lemma received_append [simp]: "received (xs @ ys) = received xs @ received ys"
  by (induction xs rule: received.induct) auto

lemma received_Transport [simp]: "received (map Transport es) = []"
  by (induction es) auto

subsection \<open>Delivery\<close>

lemma received_completions:
  assumes "\<forall>c \<in> set cs. status c = no_error \<or> ec_failed (status c)"
  shows "received (map (receive_end s) cs)
    = (if ec_failed (stream_error s) then [] else delivered cs)"
  using assms by (induction cs) (auto simp: receive_end_def delivered_def)

lemma aq_status:
  "\<forall>c \<in> set (snd (aq_push v q)). status c = no_error \<or> ec_failed (status c)"
  "\<forall>c \<in> set (snd (aq_pop w q)). status c = no_error \<or> ec_failed (status c)"
  "\<forall>c \<in> set (snd (aq_cancel d w q)). status c = no_error \<or> ec_failed (status c)"
  by (auto simp: aq_push_def aq_pop_def aq_cancel_def split: list.splits)

definition content :: "(u32 \<Rightarrow> bytes) \<Rightarrow> nat \<Rightarrow> bytes list" where
  "content f n = map (\<lambda>i. f (1 + of_nat i)) [0..<n]"

definition stream_inv :: "(u32 \<Rightarrow> bytes) \<Rightarrow> bytes list \<Rightarrow> 'k stream \<Rightarrow> bool" where
  "stream_inv f ds s \<longleftrightarrow>
     aq_inv (ready_chunks s)
     \<and> (\<exists>n. reorder_inv f n (chunk_locals s)
          \<and> (if ec_failed (stream_error s) then \<exists>k. ds = content f k
             else ds @ aq_queue (ready_chunks s) = content f n))"

text \<open>The queue is a FIFO channel, also through the completions of \<open>receive()\<close>.\<close>

lemma with_ready_simps [simp]:
  "ready_chunks (fst (with_ready s r)) = fst r"
  "stream_error (fst (with_ready s r)) = stream_error s"
  "chunk_locals (fst (with_ready s r)) = chunk_locals s"
  "stream_stopping (fst (with_ready s r)) = stream_stopping s"
  "transport (fst (with_ready s r)) = transport s"
  by (simp_all add: with_ready_def Let_def)

lemma received_with_ready:
  assumes "\<forall>c \<in> set (snd r). status c = no_error \<or> ec_failed (status c)"
  shows "received (snd (with_ready s r)) = (if ec_failed (stream_error s) then [] else delivered (snd r))"
  using received_completions [OF assms, of "s\<lparr>ready_chunks := fst r\<rparr>"]
  by (simp add: with_ready_def Let_def)

lemma push_chunk_fields [simp]:
  "stream_error (fst (push_chunk c s)) = stream_error s"
  "chunk_locals (fst (push_chunk c s)) = chunk_locals s"
  by (simp_all add: push_chunk_def)

lemma push_chunk_conserves:
  assumes "aq_inv (ready_chunks s)"
  shows "aq_inv (ready_chunks (fst (push_chunk c s)))"
    and "\<not> ec_failed (stream_error s) \<Longrightarrow>
      received (snd (push_chunk c s)) @ aq_queue (ready_chunks (fst (push_chunk c s)))
        = aq_queue (ready_chunks s) @ [c]"
    and "ec_failed (stream_error s) \<Longrightarrow> received (snd (push_chunk c s)) = []"
  using aq.ok_put [OF assms, of c] aq.put_conserves [OF assms, of c]
  by (simp_all add: push_chunk_def received_with_ready aq_status)

lemma push_chunks_conserves:
  assumes "aq_inv (ready_chunks s)"
  shows "aq_inv (ready_chunks (fst (push_chunks cs s)))
    \<and> stream_error (fst (push_chunks cs s)) = stream_error s
    \<and> chunk_locals (fst (push_chunks cs s)) = chunk_locals s
    \<and> (if ec_failed (stream_error s) then received (snd (push_chunks cs s)) = []
       else received (snd (push_chunks cs s)) @ aq_queue (ready_chunks (fst (push_chunks cs s)))
         = aq_queue (ready_chunks s) @ cs)"
  using assms
proof (induction cs arbitrary: s)
  case Nil
  then show ?case by simp
next
  case (Cons c cs)
  let ?s1 = "fst (push_chunk c s)"
  note p = push_chunk_conserves [OF Cons.prems, of c]
  note IH = Cons.IH [OF p(1)]
  show ?case
  proof (cases "ec_failed (stream_error s)")
    case True
    then show ?thesis using IH p by (simp add: split_beta Let_def)
  next
    case False
    have "received (snd (push_chunk c s)) @ aq_queue (ready_chunks ?s1) @ cs
        = aq_queue (ready_chunks s) @ c # cs"
      using p(2) [OF False] by (metis append.assoc append_Cons append_Nil)
    then show ?thesis using IH False by (simp add: split_beta Let_def)
  qed
qed

lemma content_append:
  "content f n @ map (\<lambda>i. f (1 + of_nat (n + i))) [0..<m] = content f (n + m)"
  unfolding content_def by (rule nth_equalityI) (auto simp: nth_append)

lemma content_prefix: "ds @ rest = content f n \<Longrightarrow> \<exists>k. ds = content f k"
proof -
  assume e: "ds @ rest = content f n"
  then have "ds = take (length ds) (content f n)" by (metis append_eq_conv_conj)
  also have "\<dots> = content f (min (length ds) n)" by (simp add: content_def take_map min_def)
  finally show ?thesis by blast
qed

text \<open>What a chunk event must carry: DATA packet \<open>k\<close> carries content \<open>k\<close>.\<close>

definition packet_event_ok :: "(u32 \<Rightarrow> bytes) \<Rightarrow> 'k stream_event \<Rightarrow> bool" where
  "packet_event_ok f e =
     (case e of
        Se_packet (Inr p) \<Rightarrow> ph_type (header p) = type_code DATA \<longrightarrow> payload_of p = f (seq_of p)
      | _ \<Rightarrow> True)"

lemma stream_inv_quiet:
  assumes "stream_inv f ds s" "ready_chunks s' = ready_chunks s" "chunk_locals s' = chunk_locals s"
    "stream_error s' = stream_error s"
  shows "stream_inv f ds s'"
  using assms unfolding stream_inv_def by metis

lemma store_stream_error_inv:
  assumes "stream_inv f ds s"
  shows "stream_inv f (ds @ received (snd (store_stream_error ec s))) (fst (store_stream_error ec s))"
proof (cases "\<not> ec_failed ec \<or> ec_failed (stream_error s)")
  case True
  then show ?thesis using assms by (auto simp: store_stream_error_def)
next
  case False
  let ?s = "s\<lparr>stream_error := ec, loops_running := False\<rparr>"
  have i: "aq_inv (ready_chunks ?s)" using assms by (simp add: stream_inv_def)
  note p = push_chunk_conserves [OF i, of "[]"]
  obtain n where "reorder_inv f n (chunk_locals s)"
    and "ds @ aq_queue (ready_chunks s) = content f n"
    using assms False by (auto simp: stream_inv_def)
  then show ?thesis
    using False p(1,3) content_prefix
    by (auto simp: store_stream_error_def stream_inv_def split_beta)
qed

lemma chunks_iteration_inv:
  assumes "stream_inv f ds s" "packet_event_ok f (Se_packet r)"
  shows "stream_inv f (ds @ received (snd (chunks_iteration r s))) (fst (chunks_iteration r s))"
proof (cases r)
  case (Inl ec)
  then show ?thesis
    using assms(1) store_stream_error_inv [OF assms(1)]
    by (simp add: chunks_iteration_def handle_receive_chunks_result_def)
next
  case (Inr p)
  obtain l cs where rc: "receive_chunk p (chunk_locals s) = (l, cs)" by (metis surj_pair)
  obtain n where n: "reorder_inv f n (chunk_locals s)"
    and q: "if ec_failed (stream_error s) then \<exists>k. ds = content f k
      else ds @ aq_queue (ready_chunks s) = content f n"
    and i: "aq_inv (ready_chunks s)"
    using assms(1) by (auto simp: stream_inv_def)
  have pf: "ph_type (header p) = type_code DATA \<longrightarrow> payload_of p = f (seq_of p)"
    using assms(2) Inr by (simp add: packet_event_ok_def)
  from receive_chunk_inv [OF n rc pf]
  have n': "reorder_inv f (n + length cs) l"
    and cs: "content f n @ cs = content f (n + length cs)"
    using content_append [of f n "length cs"] by metis+
  let ?s = "s\<lparr>chunk_locals := l\<rparr>"
  have i': "aq_inv (ready_chunks ?s)" using i by simp
  note p = push_chunks_conserves [OF i', of cs]
  have it: "chunks_iteration r s = push_chunks cs ?s" using Inr rc by (simp add: chunks_iteration_def)
  show ?thesis
  proof (cases "ec_failed (stream_error s)")
    case True
    then show ?thesis using p q n' unfolding it by (auto simp: stream_inv_def)
  next
    case False
    have "ds @ received (snd (push_chunks cs ?s)) @ aq_queue (ready_chunks (fst (push_chunks cs ?s)))
        = content f (n + length cs)"
      using p False q cs by (simp del: append_assoc add: append_assoc [symmetric])
    then show ?thesis using False p n' unfolding it by (auto simp: stream_inv_def)
  qed
qed

lemma with_ready_inv:
  assumes "stream_inv f ds s" "aq_inv (fst r)"
    and "\<forall>c \<in> set (snd r). status c = no_error \<or> ec_failed (status c)"
    and "delivered (snd r) @ aq_queue (fst r) = aq_queue (ready_chunks s)"
  shows "stream_inv f (ds @ received (snd (with_ready s r))) (fst (with_ready s r))"
  using assms(1,2,4) by (auto simp: stream_inv_def received_with_ready [OF assms(3)])

lemma stream_receive_inv:
  assumes "stream_inv f ds s"
  shows "stream_inv f (ds @ received (snd (stream_receive w ec s))) (fst (stream_receive w ec s))"
    and "stream_inv f (ds @ received (snd (stream_receive_cancelled w s)))
      (fst (stream_receive_cancelled w s))"
proof -
  have i: "aq_inv (ready_chunks s)" using assms by (simp add: stream_inv_def)
  have "stream_inv f (ds @ received (snd (with_ready s (aq_pop w (ready_chunks s)))))
      (fst (with_ready s (aq_pop w (ready_chunks s))))"
    using aq.get_conserves [OF i] aq.ok_get [OF i] by (intro with_ready_inv assms aq_status)
  then show "stream_inv f (ds @ received (snd (stream_receive w ec s))) (fst (stream_receive w ec s))"
    using assms by (auto simp: stream_receive_def)
  show "stream_inv f (ds @ received (snd (stream_receive_cancelled w s)))
      (fst (stream_receive_cancelled w s))"
    unfolding stream_receive_cancelled_def
    using aq.cancel_conserves [OF i, of "[]" w] aq.ok_cancel [OF i, of "[]" w]
    by (intro with_ready_inv assms aq_status) simp_all
qed

lemma stream_step_inv:
  assumes "stream_inv f ds s" "packet_event_ok f e" "\<not> restarts e"
  shows "stream_inv f (ds @ received (snd (stream_step s e))) (fst (stream_step s e))"
proof (cases e)
  case (Se_packet r)
  then show ?thesis using chunks_iteration_inv assms by simp
next
  case (Se_receive w ec)
  then show ?thesis using stream_receive_inv(1) assms by simp
next
  case (Se_receive_cancelled w)
  then show ?thesis using stream_receive_inv(2) assms by simp
next
  case (Se_send ssl now ec d)
  then show ?thesis
    using assms by (auto simp: stream_send_def split_beta Let_def intro: stream_inv_quiet)
next
  case (Se_transport e)
  then show ?thesis using assms by (auto simp: split_beta Let_def intro: stream_inv_quiet)
next
  case (Se_close_begin w)
  then show ?thesis
    using assms by (auto simp: close_begin_def split_beta Let_def intro: stream_inv_quiet)
next
  case Se_close_end
  then show ?thesis
    using assms by (auto simp: close_end_def split_beta Let_def intro: stream_inv_quiet)
qed (use assms(3) in \<open>simp_all add: restarts_def\<close>)

lemma stream_run_inv:
  assumes "stream_inv f ds s" "list_all (packet_event_ok f) es" "\<not> list_ex restarts es"
  shows "stream_inv f (ds @ received (snd (stream_run s es))) (fst (stream_run s es))"
  using assms
proof (induction es arbitrary: ds s)
  case (Cons e es)
  have "stream_inv f (ds @ received (snd (stream_step s e))) (fst (stream_step s e))"
    using Cons.prems by (intro stream_step_inv) auto
  from Cons.IH [OF this] Cons.prems show ?case by (simp add: split_beta Let_def)
qed simp

text \<open>
  C3. End of the stream: after the loops have started, over every interleaving of packets
  from the transport, \<open>receive()\<close> calls and their cancellations, sends, transport events,
  loop failures and closing, the chunks that \<open>receive()\<close> calls return are the contents of
  packets 1, 2, 3, ... in this order, without a gap or a repetition; in particular the empty
  wake-up chunk pushed by a failure is never returned as data.
\<close>

theorem received_chunks_in_order:
  assumes "list_all (packet_event_ok f) es" and "\<not> list_ex restarts es"
  shows "received (snd (stream_run (snd (start_loops_end no_error (stream_new m peer c))) es))
    = content f (length (received
        (snd (stream_run (snd (start_loops_end no_error (stream_new m peer c))) es))))"
proof -
  let ?s0 = "snd (start_loops_end no_error (stream_new m peer c))"
  let ?rs = "received (snd (stream_run ?s0 es))"
  have "stream_inv f [] ?s0"
    using reorder_inv_start [of f]
    by (simp add: stream_inv_def start_loops_end_def stream_new_def content_def aq_init_def aq_inv_def)
  from stream_run_inv [OF this assms] have "stream_inv f ?rs (fst (stream_run ?s0 es))" by simp
  then obtain k where "?rs = content f k"
    using content_prefix unfolding stream_inv_def by (metis (no_types))
  then show ?thesis by (simp add: content_def)
qed

theorem received_chunks_in_order_witness:
  "\<exists>n. received (snd (stream_run
     (snd (start_loops_end no_error (stream_new RESPONDER \<lparr>ep_address = 1, ep_port = 0\<rparr> (sample_context 3))))
     [Se_receive 0 no_error, Se_packet (Inr (data_packet 2 (le_bytes 4 (2 :: u32)))),
      Se_packet (Inr (data_packet 1 (le_bytes 4 (1 :: u32)))), Se_receive 0 no_error]))
   = content (le_bytes 4) n"
proof -
  let ?es = "[Se_receive 0 no_error, Se_packet (Inr (data_packet 2 (le_bytes 4 (2 :: u32)))),
      Se_packet (Inr (data_packet 1 (le_bytes 4 (1 :: u32)))), Se_receive 0 no_error]"
  have a: "list_all (packet_event_ok (le_bytes 4)) ?es"
    by (simp add: packet_event_ok_def data_packet_facts del: le_bytes.simps)
  have b: "\<not> list_ex restarts ?es" by (simp add: restarts_def)
  from received_chunks_in_order [OF a b] show ?thesis by blast
qed

subsection \<open>Failure\<close>

fun receive_results :: "stream_effect list \<Rightarrow> (nat \<times> (error_code + bytes)) list" where
  "receive_results [] = []"
| "receive_results (Receive_returned w r # es) = (w, r) # receive_results es"
| "receive_results (e # es) = receive_results es"

lemma receive_results_append [simp]:
  "receive_results (xs @ ys) = receive_results xs @ receive_results ys"
  by (induction xs rule: receive_results.induct) auto

lemma receive_results_Transport [simp]: "receive_results (map Transport es) = []"
  by (induction es) auto

definition failed_with :: "error_code \<Rightarrow> 'k stream \<times> stream_effect list \<Rightarrow> bool" where
  "failed_with ec r \<longleftrightarrow>
     stream_error (fst r) = ec
     \<and> snd ` set (receive_results (snd r)) \<subseteq> {Inl ec, Inl operation_aborted}"

lemma with_ready_failed:
  assumes "stream_error s = ec" "ec_failed ec"
    and "\<forall>c \<in> set (snd r). status c = no_error \<or> status c = operation_aborted"
  shows "failed_with ec (with_ready s r)"
proof -
  have "snd ` set (receive_results (map (receive_end (s\<lparr>ready_chunks := fst r\<rparr>)) cs))
      \<subseteq> {Inl ec, Inl operation_aborted}"
    if "\<forall>c \<in> set cs. status c = no_error \<or> status c = operation_aborted" for cs
    using that assms(1,2) by (induction cs) (auto simp: receive_end_def)
  then show ?thesis using assms(1,3) by (simp add: failed_with_def with_ready_def Let_def)
qed

lemma aq_status_cases:
  "\<forall>c \<in> set (snd (aq_push v q)). status c = no_error \<or> status c = operation_aborted"
  "\<forall>c \<in> set (snd (aq_pop w q)). status c = no_error \<or> status c = operation_aborted"
  "\<forall>c \<in> set (snd (aq_cancel d w q)). status c = no_error \<or> status c = operation_aborted"
  by (auto simp: aq_push_def aq_pop_def aq_cancel_def split: list.splits)

lemma push_chunks_failed:
  "stream_error s = ec \<Longrightarrow> ec_failed ec \<Longrightarrow> failed_with ec (push_chunks cs s)"
proof (induction cs arbitrary: s)
  case (Cons c cs)
  have p: "failed_with ec (push_chunk c s)"
    unfolding push_chunk_def using Cons.prems by (intro with_ready_failed aq_status_cases) auto
  then have "failed_with ec (push_chunks cs (fst (push_chunk c s)))"
    using Cons by (simp add: failed_with_def)
  then show ?case using p by (auto simp: failed_with_def split_beta Let_def)
qed (simp add: failed_with_def)

lemma stream_step_failed:
  assumes "stream_error s = ec" "ec_failed ec" "\<not> restarts e"
  shows "failed_with ec (stream_step s e)"
proof (cases e)
  case (Se_packet r)
  show ?thesis
  proof (cases r)
    case (Inl ec')
    then show ?thesis
      using Se_packet assms by (simp add: chunks_iteration_def handle_receive_chunks_result_def
          store_stream_error_def failed_with_def)
  next
    case (Inr p)
    then have "stream_step s e = push_chunks (snd (receive_chunk p (chunk_locals s)))
        (s\<lparr>chunk_locals := fst (receive_chunk p (chunk_locals s))\<rparr>)"
      using Se_packet by (simp add: chunks_iteration_def split_beta)
    then show ?thesis using assms by (simp add: push_chunks_failed)
  qed
next
  case (Se_receive w ec')
  then show ?thesis using assms by (simp add: stream_receive_def failed_with_def)
next
  case (Se_receive_cancelled w)
  then show ?thesis
    using with_ready_failed [OF assms(1,2) aq_status_cases(3)]
    by (simp add: stream_receive_cancelled_def)
qed (use assms in \<open>auto simp: failed_with_def stream_send_def close_begin_def close_end_def
    restarts_def split_beta Let_def\<close>)

lemma stream_run_failed:
  assumes "stream_error s = ec" "ec_failed ec" "\<not> list_ex restarts es"
  shows "failed_with ec (stream_run s es)"
  using assms
proof (induction es arbitrary: s)
  case (Cons e es)
  have p: "failed_with ec (stream_step s e)" using Cons.prems by (intro stream_step_failed) auto
  then have "failed_with ec (stream_run (fst (stream_step s e)) es)"
    using Cons by (intro Cons.IH) (auto simp: failed_with_def)
  then show ?case using p by (auto simp: failed_with_def split_beta Let_def)
qed (simp add: failed_with_def)



end
