(* ===== verification/Session_Log.thy ===== *)
theory Session_Log
  imports Stream Transport_Wire "HOL-Library.Sublist"
begin

text \<open>
  A sender's endpoint once the handshake is done, with the log of what its transport sends:
  every DATA datagram it ever puts on the wire, retransmissions included, is the encryption of
  the one chunk that the log holds under the datagram's number, the numbers of the log grow,
  and its chunks are those of the program's sends in the order of the calls. The operations
  are those of \<open>Transport\<close>; the log is a function of the run and of no influence on it.
\<close>

subsection \<open>Encrypted chunks on the wire\<close>

text \<open>Contract of two OpenSSL instances: \<open>r\<close> decrypts what \<open>ssl\<close> encrypts under the same key.\<close>

definition deciphers :: "'k openssl \<Rightarrow> 'k openssl \<Rightarrow> bool" where
  "deciphers r ssl \<longleftrightarrow>
     (\<forall>a b data ct. encrypt_data ssl a data = Inr ct \<longrightarrow> is_ready b
        \<longrightarrow> encryption_key b = encryption_key a \<longrightarrow> data \<noteq> [] \<longrightarrow> decrypt_data r b ct = Inr data)"

lemma deciphers_same: "aead_correct ssl \<Longrightarrow> set_tag ssl \<Longrightarrow> deciphers ssl ssl"
  unfolding deciphers_def using decrypt_encrypt by blast

definition chunk_ok :: "bytes \<Rightarrow> bool" where
  "chunk_ok m \<longleftrightarrow> m \<noteq> [] \<and> length m \<le> PACKET_PAYLOAD_SIZE"

definition carries_chunk :: "'k openssl \<Rightarrow> 'k crypto_context \<Rightarrow> u32 \<Rightarrow> bytes \<Rightarrow> bytes \<Rightarrow> bool" where
  "carries_chunk r c k m d \<longleftrightarrow> chunk_ok m \<and>
     (\<exists>ssl ct. deciphers r ssl \<and> encrypt_data ssl c m = Inr ct \<and> length ct \<le> PACKET_SIZE
        \<and> d = wire (with_ciphertext ct (with_sequence k (stream_packet m))))"

fun started :: "effect list \<Rightarrow> u32 list" where
  "started [] = []"
| "started (Send_started k # es) = k # started es"
| "started (_ # es) = started es"

lemma started_append [simp]: "started (es @ fs) = started es @ started fs"
  by (induction es rule: started.induct) auto

lemma started_maps [simp]:
  "started (map Pop_completed cs) = []" "started (map Drain_completed ds) = []"
  by (induction cs, auto) (induction ds, auto)

lemma started_send_ack [simp]: "started (send_ack n s) = []"
  by (simp add: send_ack_def)

subsection \<open>The sender's log\<close>

text \<open>The senders that wait hold chunks.\<close>

definition waiting_chunks :: "'k phz \<Rightarrow> bool" where
  "waiting_chunks s \<longleftrightarrow> (\<forall>w \<in> set (av_waiters (cwnd s)). \<exists>m. w = stream_packet m \<and> chunk_ok m)"

text \<open>
  \<open>logs r n s m res\<close>: the operation keeps the keys, takes at most \<open>n\<close> numbers, and everything
  it registers or sends was registered before or is the chunk \<open>m\<close> under the one number it started.
\<close>

definition logs ::
  "'k openssl \<Rightarrow> nat \<Rightarrow> 'k phz \<Rightarrow> bytes \<Rightarrow> 'k phz \<times> effect list \<Rightarrow> bool" where
  "logs r n s m res \<longleftrightarrow>
     crypto (fst res) = crypto s \<and> connection_encrypted (fst res) = connection_encrypted s
     \<and> (\<forall>k d. (k, d) \<in> registered (fst res) \<union> set (data_wires (snd res)) \<longrightarrow>
          (k, d) \<in> registered s \<or> k \<in> set (started (snd res)) \<and> carries_chunk r (crypto s) k m d)
     \<and> (started (snd res) = [] \<or> started (snd res) = [sequence_counter s])
     \<and> unat (sequence_counter s) + length (started (snd res)) \<le> unat (sequence_counter (fst res))
     \<and> unat (sequence_counter (fst res)) \<le> unat (sequence_counter s) + n
     \<and> (waiting_chunks s \<longrightarrow> waiting_chunks (fst res))"

lemma logs_quiet:
  assumes "crypto (fst res) = crypto s" "connection_encrypted (fst res) = connection_encrypted s"
    "registered (fst res) \<subseteq> registered s" "set (data_wires (snd res)) \<subseteq> registered s"
    "started (snd res) = []" "sequence_counter (fst res) = sequence_counter s"
    "av_waiters (cwnd (fst res)) = av_waiters (cwnd s)"
  shows "logs r n s m res"
  using assms by (auto simp: logs_def waiting_chunks_def)

lemma logs_wrap:
  assumes "logs r n s1 m (t, es)"
    and "crypto s1 = crypto s" "connection_encrypted s1 = connection_encrypted s"
      "registered s1 \<subseteq> registered s" "sequence_counter s1 = sequence_counter s"
      "set (av_waiters (cwnd s1)) \<subseteq> set (av_waiters (cwnd s))"
    and "crypto t' = crypto t" "connection_encrypted t' = connection_encrypted t"
      "registered t' \<subseteq> registered t" "sequence_counter t' = sequence_counter t"
      "set (av_waiters (cwnd t')) \<subseteq> set (av_waiters (cwnd t))"
    and "data_wires es' = data_wires es" "started es' = started es"
  shows "logs r n s m (t', es')"
proof -
  have "(k, d) \<in> registered s \<or> k \<in> set (started es') \<and> carries_chunk r (crypto s) k m d"
    if "(k, d) \<in> registered t' \<union> set (data_wires es')" for k d
  proof -
    have "(k, d) \<in> registered t \<union> set (data_wires es)" using that assms(9,12) by auto
    then have "(k, d) \<in> registered s1 \<or> k \<in> set (started es) \<and> carries_chunk r (crypto s1) k m d"
      using assms(1) unfolding logs_def fst_conv snd_conv by blast
    then show ?thesis using assms(2,4,13) by auto
  qed
  moreover have "waiting_chunks s \<longrightarrow> waiting_chunks t'"
    using assms(1,6,11) by (auto simp: logs_def waiting_chunks_def)
  ultimately show ?thesis using assms unfolding logs_def by simp
qed

lemma logs_mono: "logs r n s m res \<Longrightarrow> n \<le> n' \<Longrightarrow> logs r n' s m res"
  by (auto simp: logs_def)

lemma stream_packet_facts:
  assumes "chunk_ok m"
  shows "payload_of (stream_packet m) = m" "size_of (stream_packet m) = length m"
    "ph_type (header (stream_packet m)) = type_code DATA" "packet_wf (stream_packet m)"
  using assms data_packet_facts [of m 0]
  by (auto simp: chunk_ok_def stream_packet_def data_packet_def packet_wf_def make_packet_def Let_def
      unsigned_of_nat take_bit_nat_eq_self)

lemma transmit_logs:
  assumes "connection_encrypted s" "chunk_ok m" "deciphers r ssl" "unat (sequence_counter s) + 1 < 2 ^ 32"
  shows "logs r 1 s m (transmit ssl now (stream_packet m) s)"
proof -
  let ?k = "sequence_counter s"
  let ?p = "with_sequence ?k (stream_packet m)"
  have p: "payload_of ?p = m" "size_of ?p = length m"
    using stream_packet_facts [OF assms(2)] by (simp_all add: with_sequence_def payload_of_def)
  have c: "unat (?k + 1) = Suc (unat ?k)" using assms(4) by (simp add: unat_Suc_word)
  show ?thesis
  proof (cases "encrypt_data ssl (crypto s) m")
    case (Inl e)
    then show ?thesis
      using assms(1,2) p c
      by (auto simp: transmit_def Let_def logs_def chunk_ok_def waiting_chunks_def)
  next
    case (Inr ct)
    let ?q = "with_ciphertext ct ?p" and ?s1 = "s\<lparr>sequence_counter := ?k + 1\<rparr>"
    show ?thesis
    proof (cases "PACKET_SIZE < length ct")
      case True
      then show ?thesis
        using assms(1,2) p c Inr by (auto simp: transmit_def Let_def logs_def chunk_ok_def waiting_chunks_def)
    next
      case False
      have t: "transmit ssl now (stream_packet m) s = register_packet now ?q ?s1"
        using assms(1,2) p Inr False by (simp add: transmit_def Let_def chunk_ok_def)
      have q: "seq_of ?q = ?k" "ph_type (header ?q) = type_code DATA"
        using stream_packet_facts(3) [OF assms(2)]
        by (simp_all add: with_ciphertext_def with_sequence_def)
      have ca: "carries_chunk r (crypto s) ?k m (wire ?q)"
        unfolding carries_chunk_def using assms(2,3) Inr False by auto
      have reg: "registered (fst (register_packet now ?q ?s1)) \<subseteq> insert (?k, wire ?q) (registered s)"
        using registered_update_sub [of "fst (register_packet now ?q ?s1)" ?k now ?q s] q
        by (simp add: register_packet_def)
      have eff: "snd (register_packet now ?q ?s1) = [Send_datagram (peer_endpoint s) (wire ?q), Send_started ?k]"
        using q by (simp add: register_packet_def)
      have dw: "data_wires (snd (register_packet now ?q ?s1)) = [(?k, wire ?q)]"
        unfolding eff using q by simp
      have st: "started (snd (register_packet now ?q ?s1)) = [?k]" unfolding eff by simp
      have fr: "crypto (fst (register_packet now ?q ?s1)) = crypto s"
        "connection_encrypted (fst (register_packet now ?q ?s1)) = connection_encrypted s"
        "sequence_counter (fst (register_packet now ?q ?s1)) = ?k + 1"
        by (simp_all add: register_packet_def)
      have w: "waiting_chunks s \<longrightarrow> waiting_chunks (fst (register_packet now ?q ?s1))"
        by (simp add: register_packet_def waiting_chunks_def)
      show ?thesis
        unfolding t logs_def fr dw st using reg ca c w by auto
    qed
  qed
qed

lemma send_continue_logs:
  assumes "connection_encrypted s" "chunk_ok m" "deciphers r ssl" "unat (sequence_counter s) + 1 < 2 ^ 32"
  shows "logs r 1 s m (send_continue ssl now ec (stream_packet m) s)"
proof -
  have "logs r 1 s m (s\<lparr>cwnd := av_wait (stream_packet m) (cwnd s)\<rparr>, [])"
    using assms(2) by (auto simp: logs_def waiting_chunks_def av_wait_def)
  moreover have "logs r 1 s m (s, [Send_returned e])" for e by (intro logs_quiet) auto
  ultimately show ?thesis using transmit_logs [OF assms, of now] by (simp add: send_continue_def)
qed

definition next_chunk :: "'k phz \<Rightarrow> bytes" where
  "next_chunk s = payload_of (hd (av_waiters (cwnd s)))"

lemma notify_sender_logs:
  assumes "connection_encrypted s" "waiting_chunks s" "deciphers r ssl" "unat (sequence_counter s) + 1 < 2 ^ 32"
  shows "logs r 1 s (next_chunk s) (notify_sender ssl now s)"
proof (cases "av_waiters (cwnd s)")
  case Nil
  then show ?thesis by (auto simp: notify_sender_def av_notify_one_def intro!: logs_quiet)
next
  case (Cons w ws)
  then obtain m where m: "w = stream_packet m" "chunk_ok m"
    using assms(2) by (auto simp: waiting_chunks_def)
  have n: "next_chunk s = m" using Cons m stream_packet_facts(1) [OF m(2)] by (simp add: next_chunk_def)
  let ?s = "s\<lparr>cwnd := (cwnd s)\<lparr>av_waiters := ws\<rparr>\<rparr>"
  obtain t es where t: "send_continue ssl now no_error (stream_packet m) ?s = (t, es)"
    by (metis surj_pair)
  have "logs r 1 ?s m (t, es)"
    unfolding t [symmetric] using assms m by (intro send_continue_logs) auto
  then have "logs r 1 s m (t, es)" by (rule logs_wrap) (use Cons in auto)
  moreover have "notify_sender ssl now s = (t, es)"
    using Cons m t by (simp add: notify_sender_def av_notify_one_def)
  ultimately show ?thesis using n by simp
qed


text \<open>Pieces that touch neither the keys nor what was sent.\<close>

lemma quiet_pieces [simp]:
  "crypto (fst (set_drained s)) = crypto s"
  "connection_encrypted (fst (set_drained s)) = connection_encrypted s"
  "registered (fst (set_drained s)) = registered s"
  "sequence_counter (fst (set_drained s)) = sequence_counter s"
  "cwnd (fst (set_drained s)) = cwnd s"
  "data_wires (snd (set_drained s)) = []" "started (snd (set_drained s)) = []"
  "crypto (fst (push_received p s)) = crypto s"
  "connection_encrypted (fst (push_received p s)) = connection_encrypted s"
  "registered (fst (push_received p s)) = registered s"
  "sequence_counter (fst (push_received p s)) = sequence_counter s"
  "cwnd (fst (push_received p s)) = cwnd s"
  "data_wires (snd (push_received p s)) = []" "started (snd (push_received p s)) = []"
  by (simp_all add: set_drained_def push_received_def split_beta registered_def)

lemma quiet_drain_check [simp]:
  "crypto (fst (drain_check s)) = crypto s"
  "connection_encrypted (fst (drain_check s)) = connection_encrypted s"
  "registered (fst (drain_check s)) = registered s"
  "sequence_counter (fst (drain_check s)) = sequence_counter s"
  "cwnd (fst (drain_check s)) = cwnd s"
  "data_wires (snd (drain_check s)) = []" "started (snd (drain_check s)) = []"
  by (simp_all add: drain_check_def)

lemma quiet_accept_packet [simp]:
  "crypto (fst (accept_packet p s)) = crypto s"
  "connection_encrypted (fst (accept_packet p s)) = connection_encrypted s"
  "registered (fst (accept_packet p s)) = registered s"
  "sequence_counter (fst (accept_packet p s)) = sequence_counter s"
  "cwnd (fst (accept_packet p s)) = cwnd s"
  "data_wires (snd (accept_packet p s)) = []" "started (snd (accept_packet p s)) = []"
  by (simp_all add: accept_packet_def)

lemma next_chunk_cong: "av_waiters (cwnd s1) = av_waiters (cwnd s) \<Longrightarrow> next_chunk s1 = next_chunk s"
  by (simp add: next_chunk_def)

lemma waiting_chunks_cong: "av_waiters (cwnd s1) = av_waiters (cwnd s) \<Longrightarrow> waiting_chunks s1 = waiting_chunks s"
  by (simp add: waiting_chunks_def)

lemma av_update_waiters [simp]: "av_waiters (av_update v w) = av_waiters w"
  by (simp add: av_update_def)

text \<open>A sender's endpoint between two events.\<close>

definition sending :: "'k phz \<Rightarrow> bool" where
  "sending s \<longleftrightarrow> connection_encrypted s \<and> waiting_chunks s \<and> unat (sequence_counter s) + 2 < 2 ^ 32"

lemma notify_sender_after:
  assumes "sending s" "deciphers r ssl"
    and "crypto s1 = crypto s" "connection_encrypted s1 = connection_encrypted s"
      "registered s1 \<subseteq> registered s" "sequence_counter s1 = sequence_counter s"
      "av_waiters (cwnd s1) = av_waiters (cwnd s)"
    and "notify_sender ssl now s1 = (t, es)"
    and "crypto t' = crypto t" "connection_encrypted t' = connection_encrypted t"
      "registered t' = registered t" "sequence_counter t' = sequence_counter t"
      "cwnd t' = cwnd t"
    and "data_wires es' = data_wires es" "started es' = started es"
  shows "logs r 1 s (next_chunk s) (t', es')"
proof -
  have "logs r 1 s1 (next_chunk s1) (notify_sender ssl now s1)"
    using assms(1-7) waiting_chunks_cong [of s1 s] by (intro notify_sender_logs) (auto simp: sending_def)
  then have "logs r 1 s1 (next_chunk s) (t, es)"
    using next_chunk_cong [of s1 s] assms(7,8) by simp
  then show ?thesis by (rule logs_wrap) (use assms in auto)
qed

lemma send_completed_logs:
  assumes "sending s" "deciphers r ssl"
  shows "logs r 1 s (next_chunk s) (send_completed ssl now seq ec s)"
proof (cases "ec_failed ec")
  case True
  let ?s1 = "s\<lparr>in_flight := AList.delete seq (in_flight s)\<rparr>"
  obtain t es where t: "notify_sender ssl now ?s1 = (t, es)" by (metis surj_pair)
  have "send_completed ssl now seq ec s
      = (fst (drain_check t), es @ snd (drain_check t) @ [Send_returned ec])"
    using True t by (simp add: send_completed_def Let_def split_beta)
  then show ?thesis
    using notify_sender_after [OF assms _ _ _ _ _ t] registered_delete [of seq s] by simp
next
  case False
  then show ?thesis by (auto simp: send_completed_def intro!: logs_quiet)
qed

lemma ack_handler_logs:
  assumes "sending s" "deciphers r ssl"
  shows "logs r 1 s (next_chunk s) (ack_handler ssl now seq s)"
proof (cases "seq \<in> fst ` set (in_flight s)")
  case True
  let ?s1 = "s\<lparr>in_flight := AList.delete seq (in_flight s),
                   cwnd := av_update (next_cwnd (av_get (cwnd s)) (sshthresh s)) (cwnd s)\<rparr>"
  obtain t es where t: "notify_sender ssl now ?s1 = (t, es)" by (metis surj_pair)
  have "ack_handler ssl now seq s = (fst (drain_check t), es @ snd (drain_check t))"
    using True t by (simp add: ack_handler_def Let_def split_beta)
  moreover have "registered ?s1 \<subseteq> registered s"
    using registered_delete [of seq s] by (simp add: registered_def)
  ultimately show ?thesis
    using notify_sender_after [OF assms _ _ _ _ _ t] by simp
next
  case False
  then show ?thesis by (auto simp: ack_handler_def intro!: logs_quiet)
qed

lemma store_loop_error_logs:
  assumes "sending s" "deciphers r ssl"
  shows "logs r 2 s (next_chunk s) (store_loop_error ssl now ec s)"
proof (cases "\<not> ec_failed ec \<or> ec_failed (loop_error s)")
  case True
  then show ?thesis by (auto simp: store_loop_error_def intro!: logs_quiet)
next
  case False
  let ?s1 = "s\<lparr>loop_error := ec, loops_started := False\<rparr>"
  obtain t es where t: "notify_sender ssl now ?s1 = (t, es)" by (metis surj_pair)
  let ?s3 = "fst (set_drained t)"
  let ?s4 = "?s3\<lparr>sequence_counter := sequence_counter ?s3 + 1\<rparr>"
  let ?es = "[Cancel_receive_loop, Cancel_timeout_loop, Cancel_socket] @ es @ snd (set_drained t)
      @ snd (push_received (wake_packet (sequence_counter ?s4)) ?s4)"
  have e: "store_loop_error ssl now ec s
      = (fst (push_received (wake_packet (sequence_counter ?s4)) ?s4), ?es)"
    using False t by (simp add: store_loop_error_def Let_def split_beta)
  have l: "logs r 1 s (next_chunk s) (?s3, ?es)"
    by (rule notify_sender_after [OF assms _ _ _ _ _ t]) simp_all
  have "unat (sequence_counter ?s3) + 1 < 2 ^ 32"
    using l assms(1) by (auto simp: logs_def sending_def)
  then have "unat (sequence_counter ?s4) = Suc (unat (sequence_counter ?s3))"
    by (simp add: unat_Suc_word)
  then show ?thesis
    using l unfolding e logs_def by (simp add: waiting_chunks_def)
qed

lemma handle_loop_result_logs:
  assumes "sending s" "deciphers r ssl"
  shows "logs r 2 s (next_chunk s) (handle_loop_result ssl now ec s)"
  using store_loop_error_logs [OF assms, of now ec]
  by (auto simp: handle_loop_result_def intro!: logs_quiet)

subsection \<open>A step of the sender\<close>

lemma on_datagram_exit:
  assumes "on_datagram ssl now remote stale d s = (s1, es, Exit ec)"
  shows "s1 = s\<lparr>peer_endpoint := remote, peer_endpoint_known := True, last_peer_activity := now\<rparr>"
    and "data_wires es = []" and "started es = []"
  using assms
  by (auto simp: on_datagram_def on_data_def on_handshake_def Let_def split_beta
      split: if_splits sum.splits)

lemma on_datagram_logs:
  assumes "sending s" "deciphers r ssl"
  shows "logs r 1 s (next_chunk s) (fst (on_datagram ssl now remote stale d s),
      fst (snd (on_datagram ssl now remote stale d s)))"
proof -
  let ?s1 = "s\<lparr>peer_endpoint := remote, peer_endpoint_known := True, last_peer_activity := now\<rparr>"
  have s1: "sending ?s1" "next_chunk ?s1 = next_chunk s"
    using assms(1) by (simp_all add: sending_def waiting_chunks_def next_chunk_def)
  have ack: "logs r 1 s (next_chunk s) (ack_handler ssl now seq ?s1)" for seq
  proof -
    obtain t es where t: "ack_handler ssl now seq ?s1 = (t, es)" by (metis surj_pair)
    then have "logs r 1 ?s1 (next_chunk s) (t, es)"
      using ack_handler_logs [OF s1(1) assms(2), of now seq] s1(2) by simp
    then show ?thesis unfolding t by (rule logs_wrap) simp_all
  qed
  have q: "logs r 1 s (next_chunk s) (t, es)"
    if "crypto t = crypto s" "connection_encrypted t = connection_encrypted s"
      "registered t = registered s" "sequence_counter t = sequence_counter s" "cwnd t = cwnd s"
      "data_wires es = []" "started es = []" for t es
    by (rule logs_quiet) (simp_all add: that)
  have "logs r 1 s (next_chunk s) (fst (on_data ssl p ?s1), fst (snd (on_data ssl p ?s1)))"
    and "logs r 1 s (next_chunk s) (fst (on_handshake p ?s1), fst (snd (on_handshake p ?s1)))" for p
    by (rule q; simp add: on_data_def on_handshake_def Let_def split_beta split: sum.splits)+
  then show ?thesis
    using ack q [of s "[]"] q [of ?s1 "[]"] by (simp add: on_datagram_def Let_def split_beta)
qed

lemma receive_iteration_logs:
  assumes "sending s" "deciphers r ssl"
  shows "logs r 2 s (next_chunk s) (receive_iteration ssl now remote stale d s)"
proof -
  obtain s1 es res where o: "on_datagram ssl now remote stale d s = (s1, es, res)"
    by (cases "on_datagram ssl now remote stale d s") auto
  show ?thesis
  proof (cases res)
    case Continue
    then show ?thesis
      using on_datagram_logs [OF assms, of now remote stale d] logs_mono [of r 1]
      by (simp add: receive_iteration_def o)
  next
    case (Exit ec)
    note x = on_datagram_exit [OF o [unfolded Exit]]
    have s1: "sending s1" "next_chunk s1 = next_chunk s"
      using assms(1) x(1) by (simp_all add: sending_def waiting_chunks_def next_chunk_def)
    obtain t fs where t: "handle_loop_result ssl now ec s1 = (t, fs)" by (metis surj_pair)
    then have "logs r 2 s1 (next_chunk s) (t, fs)"
      using handle_loop_result_logs [OF s1(1) assms(2), of now ec] s1(2) by simp
    then have "logs r 2 s (next_chunk s) (t, es @ fs)"
      by (rule logs_wrap) (use x in simp_all)
    then show ?thesis using Exit t by (simp add: receive_iteration_def o)
  qed
qed

lemma finish_loop_logs:
  assumes "sending s" "deciphers r ssl"
    and "crypto s1 = crypto s" "connection_encrypted s1 = connection_encrypted s"
      "registered s1 \<subseteq> registered s" "sequence_counter s1 = sequence_counter s"
      "av_waiters (cwnd s1) = av_waiters (cwnd s)"
  shows "logs r 2 s (next_chunk s) (finish_loop ssl now s1 res)"
proof -
  have s1: "sending s1" "next_chunk s1 = next_chunk s"
    using assms by (simp_all add: sending_def waiting_chunks_def next_chunk_def)
  obtain t es where t: "finish_loop ssl now s1 res = (t, es)" by (metis surj_pair)
  have "logs r 2 s1 (next_chunk s) (finish_loop ssl now s1 res)"
    using handle_loop_result_logs [OF s1(1) assms(2), of now] s1(2)
    by (cases res) (auto simp: finish_loop_def intro!: logs_quiet)
  then have "logs r 2 s1 (next_chunk s) (t, es)" unfolding t .
  then show ?thesis unfolding t by (rule logs_wrap) (use assms in simp_all)
qed

text \<open>
  The events of an endpoint once its session stands: no handshake, every OpenSSL instance it
  uses is one the peer's can decipher, and what it sends are the packets of
  \<open>ProtoStream::send\<close>.
\<close>

fun session_event :: "'k openssl \<Rightarrow> 'k event \<Rightarrow> bool" where
  "session_event r (Ev_send ssl now p) \<longleftrightarrow>
     deciphers r ssl \<and> chunk_ok (payload_of p) \<and> p = stream_packet (payload_of p)"
| "session_event r (Ev_sent ssl now seq ec) \<longleftrightarrow> deciphers r ssl"
| "session_event r (Ev_datagram ssl now remote stale d) \<longleftrightarrow> deciphers r ssl"
| "session_event r (Ev_loop_exit ssl now ec) \<longleftrightarrow> deciphers r ssl"
| "session_event r (Ev_timeout ssl now) \<longleftrightarrow> deciphers r ssl"
| "session_event r (Ev_resent ssl now seq ec) \<longleftrightarrow> deciphers r ssl"
| "session_event r (Ev_handshake_begin ssl) \<longleftrightarrow> False"
| "session_event r (Ev_initiator_finish ssl p) \<longleftrightarrow> False"
| "session_event r (Ev_responder_reply ssl p) \<longleftrightarrow> False"
| "session_event r (Ev_responder_finish ec) \<longleftrightarrow> False"
| "session_event r e \<longleftrightarrow> True"

text \<open>The chunk that a step of the sender sends, if it sends one: the caller's or the waiter's.\<close>

definition step_chunk :: "'k phz \<Rightarrow> 'k event \<Rightarrow> bytes" where
  "step_chunk s e = (case e of Ev_send ssl now p \<Rightarrow> payload_of p | _ \<Rightarrow> next_chunk s)"

lemma stop_loops_logs:
  assumes "sending s"
  shows "logs r 2 s m (phz_stop_loops s)"
proof -
  have "unat (sequence_counter s) + 1 < 2 ^ 32" using assms by (simp add: sending_def)
  then have c: "unat (sequence_counter s + 1) = Suc (unat (sequence_counter s))"
    by (simp add: unat_Suc_word)
  show ?thesis
    by (auto simp: logs_def phz_stop_loops_def Let_def split_beta c registered_def waiting_chunks_def
        push_received_def)
qed

lemma phz_step_logs:
  assumes "sending s" "phz_inv s" "session_event r e"
  shows "logs r 2 s (step_chunk s e) (phz_step s e)"
proof (cases e)
  case (Ev_timeout ssl now)
  have "logs r 2 s (next_chunk s)
      (finish_loop ssl now (fst (timeout_top now s)) (snd (snd (timeout_top now s))))"
    using assms(3) Ev_timeout
    by (intro finish_loop_logs [OF assms(1)]) (simp_all add: timeout_top_def Let_def)
  then show ?thesis using Ev_timeout by (simp add: step_chunk_def split_beta)
next
  case (Ev_resent ssl now seq ec)
  have "logs r 2 s (next_chunk s) (finish_loop ssl now (fst (resend_completed now seq ec s))
      (snd (resend_completed now seq ec s)))"
    using assms(3) Ev_resent registered_resend_completed [of now seq ec s]
    by (intro finish_loop_logs [OF assms(1)]) (auto simp: resend_completed_def split: option.splits)
  then show ?thesis using Ev_resent by (simp add: step_chunk_def split_beta)
next
  case (Ev_send ssl now p)
  have "unat (sequence_counter s) + 1 < 2 ^ 32" using assms(1) by (simp add: sending_def)
  then have "logs r 1 s (payload_of p) (send_continue ssl now no_error (stream_packet (payload_of p)) s)"
    using assms(1,3) Ev_send by (intro send_continue_logs) (auto simp: sending_def)
  then show ?thesis
    using Ev_send assms(3) logs_mono [of r 1 s "payload_of p" _ 2]
    by (simp add: step_chunk_def send_packet_def)
next
  case (Ev_sent ssl now seq ec)
  then show ?thesis
    using assms(3) logs_mono [OF send_completed_logs [OF assms(1)], of r ssl 2]
    by (simp add: step_chunk_def)
next
  case Ev_datagram
  then show ?thesis using assms(3) receive_iteration_logs [OF assms(1)] by (simp add: step_chunk_def)
next
  case Ev_loop_exit
  then show ?thesis using assms(3) handle_loop_result_logs [OF assms(1)] by (simp add: step_chunk_def)
next
  case Ev_stop
  then show ?thesis using stop_loops_logs [OF assms(1)] by simp
next
  case (Ev_resend late)
  have "started (fst (resend_next late s)) = []"
    by (induction late s rule: resend_next.induct) (auto split: option.splits)
  then show ?thesis
    using Ev_resend resend_next_wires [of s late] assms(2)
    by (auto simp: phz_inv_def intro!: logs_quiet)
next
  case (Ev_start now)
  then show ?thesis by (auto simp: phz_start_loops_def intro!: logs_quiet)
next
  case (Ev_pop w)
  then show ?thesis by (auto simp: receive_packet_begin_def split_beta registered_def intro!: logs_quiet)
next
  case (Ev_drain w)
  then show ?thesis by (auto simp: drain_begin_def registered_def intro!: logs_quiet)
qed (use assms(3) in simp_all)

subsection \<open>The history of a session\<close>

text \<open>What the sender's transport sent, in order: the number and the chunk.\<close>

fun sent_log :: "'k phz \<Rightarrow> 'k event list \<Rightarrow> (u32 \<times> bytes) list" where
  "sent_log s [] = []"
| "sent_log s (e # es) =
     map (\<lambda>k. (k, step_chunk s e)) (started (snd (phz_step s e))) @ sent_log (fst (phz_step s e)) es"

definition known_datagram ::
  "'k openssl \<Rightarrow> 'k crypto_context \<Rightarrow> (u32 \<times> bytes) list \<Rightarrow> u32 \<times> bytes \<Rightarrow> bool" where
  "known_datagram r c L w \<longleftrightarrow>
     ph_type (datagram_header (snd w)) \<noteq> type_code DATA
     \<or> (\<exists>m. (fst w, m) \<in> set L \<and> carries_chunk r c (fst w) m (snd w))"

definition history ::
  "'k openssl \<Rightarrow> 'k crypto_context \<Rightarrow> 'k phz \<Rightarrow> effect list \<Rightarrow> (u32 \<times> bytes) list \<Rightarrow> bool" where
  "history r c s xs L \<longleftrightarrow>
     crypto s = c \<and> connection_encrypted s \<and> waiting_chunks s
     \<and> (\<forall>w \<in> registered s \<union> set (data_wires xs). known_datagram r c L w)
     \<and> sorted_wrt (<) (map fst L)
     \<and> (\<forall>k \<in> set (map fst L). 1 \<le> k \<and> k < sequence_counter s)
     \<and> 1 \<le> sequence_counter s"

lemma known_datagram_mono: "known_datagram r c L w \<Longrightarrow> set L \<subseteq> set L' \<Longrightarrow> known_datagram r c L' w"
  by (auto simp: known_datagram_def)

lemma history_step:
  assumes "history r c s xs L" "logs r n s m (s', ys)"
  shows "history r c s' (xs @ ys) (L @ map (\<lambda>k. (k, m)) (started ys))"
proof -
  let ?L = "L @ map (\<lambda>k. (k, m)) (started ys)"
  have h: "crypto s = c" "connection_encrypted s" "waiting_chunks s" "1 \<le> sequence_counter s"
    and k: "\<forall>w \<in> registered s \<union> set (data_wires xs). known_datagram r c L w"
    and srt: "sorted_wrt (<) (map fst L)"
    and rng: "\<forall>k \<in> set (map fst L). 1 \<le> k \<and> k < sequence_counter s"
    using assms(1) by (simp_all add: history_def)
  have l: "crypto s' = c" "connection_encrypted s'" "waiting_chunks s'"
    and new: "\<And>k d. (k, d) \<in> registered s' \<union> set (data_wires ys) \<Longrightarrow>
      (k, d) \<in> registered s \<or> k \<in> set (started ys) \<and> carries_chunk r c k m d"
    and st: "started ys = [] \<or> started ys = [sequence_counter s]"
    and c: "unat (sequence_counter s) + length (started ys) \<le> unat (sequence_counter s')"
    using assms(2) h by (auto simp: logs_def)
  have le: "sequence_counter s \<le> sequence_counter s'" using c by (simp add: word_le_nat_alt)
  have lt: "sequence_counter s < sequence_counter s'" if "started ys \<noteq> []"
    using c that st by (auto simp: word_less_nat_alt)
  have "known_datagram r c ?L w" if w: "w \<in> registered s' \<union> set (data_wires (xs @ ys))" for w
  proof (cases "w \<in> registered s \<union> set (data_wires xs)")
    case True
    then show ?thesis using k known_datagram_mono [of r c L w ?L] by auto
  next
    case False
    obtain j d where jd: "w = (j, d)" by (cases w)
    then have "j \<in> set (started ys) \<and> carries_chunk r c j m d" using new [of j d] w False by auto
    then show ?thesis unfolding jd known_datagram_def by auto
  qed
  moreover have "sorted_wrt (<) (map fst ?L)" using srt rng st by (auto simp: sorted_wrt_append)
  moreover have "\<forall>k \<in> set (map fst ?L). 1 \<le> k \<and> k < sequence_counter s'"
    using rng le lt st h(4) by fastforce
  ultimately show ?thesis using l h(4) le by (auto simp: history_def)
qed

lemma history_run:
  assumes "history r c s xs L" "phz_inv s" "list_all event_ok es" "list_all (session_event r) es"
    and "unat (sequence_counter s) + 2 * length es + 2 < 2 ^ 32"
  shows "history r c (fst (phz_run s es)) (xs @ snd (phz_run s es)) (L @ sent_log s es)"
  using assms
proof (induction es arbitrary: s xs L)
  case Nil
  then show ?case by simp
next
  case (Cons e es)
  let ?s1 = "fst (phz_step s e)"
  have "sending s" using Cons.prems by (simp add: sending_def history_def)
  then have l: "logs r 2 s (step_chunk s e) (?s1, snd (phz_step s e))"
    using phz_step_logs [of s r e] Cons.prems by simp
  have "unat (sequence_counter ?s1) \<le> unat (sequence_counter s) + 2" using l by (simp add: logs_def)
  then have "history r c (fst (phz_run ?s1 es)) ((xs @ snd (phz_step s e)) @ snd (phz_run ?s1 es))
      ((L @ map (\<lambda>k. (k, step_chunk s e)) (started (snd (phz_step s e)))) @ sent_log ?s1 es)"
    using Cons.prems history_step [OF Cons.prems(1) l] by (intro Cons.IH phz_step_inv) simp_all
  then show ?case by (simp add: split_beta Let_def)
qed

subsection \<open>One sending coroutine\<close>

text \<open>The chunks the program asks the transport to send, in the order of the calls.\<close>

fun send_calls :: "'k event list \<Rightarrow> bytes list" where
  "send_calls [] = []"
| "send_calls (Ev_send ssl now p # es) = payload_of p # send_calls es"
| "send_calls (_ # es) = send_calls es"

text \<open>
  \<open>resumes s res\<close>: an operation other than a send leaves the waiting sender alone, lets it
  fail, or lets it send.
\<close>

definition resumes :: "'k phz \<Rightarrow> 'k phz \<times> effect list \<Rightarrow> bool" where
  "resumes s res \<longleftrightarrow>
     started (snd res) = [] \<and> av_waiters (cwnd (fst res)) \<in> {[], av_waiters (cwnd s)}
     \<or> (\<exists>k. started (snd res) = [k]) \<and> av_waiters (cwnd s) \<noteq> [] \<and> av_waiters (cwnd (fst res)) = []"

lemma resumes_quiet: "started es = [] \<Longrightarrow> av_waiters (cwnd t) = av_waiters (cwnd s) \<Longrightarrow> resumes s (t, es)"
  by (simp add: resumes_def)

lemma resumes_wrap:
  assumes "resumes s1 res" "av_waiters (cwnd s1) = av_waiters (cwnd s)"
    "av_waiters (cwnd t) = av_waiters (cwnd (fst res))" "started es = started (snd res)"
  shows "resumes s (t, es)"
  using assms by (simp add: resumes_def)

lemma resumes_start:
  "resumes s1 res \<Longrightarrow> av_waiters (cwnd s1) = av_waiters (cwnd s) \<Longrightarrow> resumes s res"
  by (simp add: resumes_def)

lemma send_continue_sends:
  "started (snd (send_continue ssl now ec p s)) = []
     \<and> av_waiters (cwnd (fst (send_continue ssl now ec p s))) \<in> {av_waiters (cwnd s), av_waiters (cwnd s) @ [p]}
   \<or> (\<exists>k. started (snd (send_continue ssl now ec p s)) = [k])
     \<and> av_waiters (cwnd (fst (send_continue ssl now ec p s))) = av_waiters (cwnd s)"
  by (auto simp: send_continue_def transmit_def register_packet_def Let_def av_wait_def
      split: sum.splits)

lemma notify_sender_resumes:
  assumes "length (av_waiters (cwnd s)) \<le> 1"
  shows "resumes s (notify_sender ssl now s)"
proof (cases "av_waiters (cwnd s)")
  case Nil
  then show ?thesis by (simp add: notify_sender_def av_notify_one_def resumes_def)
next
  case (Cons p ps)
  then show ?thesis
    using assms send_continue_sends [of ssl now no_error p "s\<lparr>cwnd := (cwnd s)\<lparr>av_waiters := []\<rparr>\<rparr>"]
    by (auto simp: notify_sender_def av_notify_one_def resumes_def)
qed

lemma resumes_notify:
  assumes "length (av_waiters (cwnd s)) \<le> 1" "av_waiters (cwnd s1) = av_waiters (cwnd s)"
    and "av_waiters (cwnd t) = av_waiters (cwnd (fst (notify_sender ssl now s1)))"
    and "started es = started (snd (notify_sender ssl now s1))"
  shows "resumes s (t, es)"
  using resumes_wrap [OF notify_sender_resumes assms(2-4)] assms(1,2) by simp

lemma send_completed_resumes:
  assumes "length (av_waiters (cwnd s)) \<le> 1"
  shows "resumes s (send_completed ssl now seq ec s)"
proof (cases "ec_failed ec")
  case True
  then show ?thesis
    by (simp add: send_completed_def Let_def split_beta)
      (rule resumes_notify [OF assms, of "s\<lparr>in_flight := AList.delete seq (in_flight s)\<rparr>" _ ssl now]; simp)
qed (simp add: send_completed_def resumes_def)

lemma ack_handler_resumes:
  assumes "length (av_waiters (cwnd s)) \<le> 1"
  shows "resumes s (ack_handler ssl now seq s)"
proof (cases "seq \<in> fst ` set (in_flight s)")
  case True
  then show ?thesis
    by (simp add: ack_handler_def Let_def split_beta)
      (rule resumes_notify [OF assms, of "s\<lparr>in_flight := AList.delete seq (in_flight s),
         cwnd := av_update (next_cwnd (av_get (cwnd s)) (sshthresh s)) (cwnd s)\<rparr>" _ ssl now]; simp)
qed (simp add: ack_handler_def resumes_def)

lemma store_loop_error_resumes:
  assumes "length (av_waiters (cwnd s)) \<le> 1"
  shows "resumes s (store_loop_error ssl now ec s)"
proof (cases "\<not> ec_failed ec \<or> ec_failed (loop_error s)")
  case False
  then show ?thesis
    by (simp add: store_loop_error_def Let_def split_beta)
      (rule resumes_notify [OF assms, of "s\<lparr>loop_error := ec, loops_started := False\<rparr>" _ ssl now]; simp)
qed (auto simp: store_loop_error_def resumes_def)

lemma finish_loop_resumes:
  assumes "length (av_waiters (cwnd s)) \<le> 1"
  shows "resumes s (handle_loop_result ssl now ec s)" "resumes s (finish_loop ssl now s res)"
proof -
  show h: "resumes s (handle_loop_result ssl now ec s)" for ec
    using store_loop_error_resumes [OF assms] by (auto simp: handle_loop_result_def intro: resumes_quiet)
  show "resumes s (finish_loop ssl now s res)"
    using h by (cases res) (auto simp: finish_loop_def intro: resumes_quiet)
qed

lemma receive_iteration_resumes:
  assumes "length (av_waiters (cwnd s)) \<le> 1"
  shows "resumes s (receive_iteration ssl now remote stale d s)"
proof -
  obtain s1 es res where o: "on_datagram ssl now remote stale d s = (s1, es, res)"
    by (cases "on_datagram ssl now remote stale d s") auto
  let ?s1 = "s\<lparr>peer_endpoint := remote, peer_endpoint_known := True, last_peer_activity := now\<rparr>"
  have ack: "resumes s (ack_handler ssl now n ?s1)" for n
    using resumes_wrap [OF ack_handler_resumes [of ?s1 ssl now n], of s
        "fst (ack_handler ssl now n ?s1)" "snd (ack_handler ssl now n ?s1)"] assms by simp
  have q: "resumes s (t, fs)" if "cwnd t = cwnd s" "started fs = []" for t fs
    using that by (simp add: resumes_def)
  have "resumes s (fst (on_data ssl p ?s1), fst (snd (on_data ssl p ?s1)))"
    and "resumes s (fst (on_handshake p ?s1), fst (snd (on_handshake p ?s1)))" for p
    by (rule q; simp add: on_data_def on_handshake_def Let_def split_beta split: sum.splits)+
  then have r: "resumes s (fst (on_datagram ssl now remote stale d s),
      fst (snd (on_datagram ssl now remote stale d s)))"
    using ack q [of s "[]"] q [of ?s1 "[]"] by (simp add: on_datagram_def Let_def split_beta)
  show ?thesis
  proof (cases res)
    case Continue
    then show ?thesis using r by (simp add: receive_iteration_def o)
  next
    case (Exit ec)
    note x = on_datagram_exit [OF o [unfolded Exit]]
    have "resumes s1 (handle_loop_result ssl now ec s1)"
      using assms x(1) by (intro finish_loop_resumes) simp
    from resumes_wrap [OF this, of s "fst (handle_loop_result ssl now ec s1)"
        "es @ snd (handle_loop_result ssl now ec s1)"] show ?thesis
      using Exit x by (simp add: receive_iteration_def o split_beta)
  qed
qed

lemma phz_step_resumes:
  assumes "length (av_waiters (cwnd s)) \<le> 1" "\<forall>ssl now p. e \<noteq> Ev_send ssl now p"
    and "session_event r e"
  shows "resumes s (phz_step s e)"
proof (cases e)
  case (Ev_timeout ssl now)
  let ?s1 = "fst (timeout_top now s)"
  have q: "av_waiters (cwnd ?s1) = av_waiters (cwnd s)" by (simp add: timeout_top_def Let_def)
  show ?thesis
    using resumes_start [OF finish_loop_resumes(2) [of ?s1 ssl now "snd (snd (timeout_top now s))"] q]
      assms(1) q Ev_timeout by (auto simp: split_beta)
next
  case (Ev_resent ssl now seq ec)
  let ?s1 = "fst (resend_completed now seq ec s)"
  have q: "av_waiters (cwnd ?s1) = av_waiters (cwnd s)"
    by (simp add: resend_completed_def split: option.splits)
  show ?thesis
    using resumes_start [OF finish_loop_resumes(2) [of ?s1 ssl now "snd (resend_completed now seq ec s)"] q]
      assms(1) q Ev_resent by (auto simp: split_beta)
next
  case (Ev_resend late)
  have "started (fst (resend_next late s)) = []"
    by (induction late s rule: resend_next.induct) (auto split: option.splits)
  then show ?thesis using Ev_resend by (simp add: resumes_def)
next
  case Ev_sent
  then show ?thesis using send_completed_resumes [OF assms(1)] by simp
next
  case Ev_datagram
  then show ?thesis using receive_iteration_resumes [OF assms(1)] by simp
next
  case Ev_loop_exit
  then show ?thesis using finish_loop_resumes(1) [OF assms(1)] by simp
qed (use assms(2,3) in \<open>auto simp: resumes_def phz_start_loops_def phz_stop_loops_def Let_def split_beta
      push_received_def receive_packet_begin_def drain_begin_def\<close>)

lemma log_of_calls:
  assumes "single_sender s es" "list_all (session_event r) es" "length (av_waiters (cwnd s)) \<le> 1"
  shows "subseq (map snd (sent_log s es)) (map payload_of (av_waiters (cwnd s)) @ send_calls es)"
  using assms
proof (induction es arbitrary: s)
  case Nil
  then show ?case by simp
next
  case (Cons e es)
  let ?s1 = "fst (phz_step s e)" and ?ks = "started (snd (phz_step s e))"
  let ?L = "map snd (sent_log ?s1 es)"
  have IH: "length (av_waiters (cwnd ?s1)) \<le> 1 \<Longrightarrow>
      subseq ?L (map payload_of (av_waiters (cwnd ?s1)) @ send_calls es)"
    using Cons by (intro Cons.IH) (auto simp: phz_next_def)
  show ?case
  proof (cases "\<exists>ssl now p. e = Ev_send ssl now p")
    case True
    then obtain ssl now p where e: "e = Ev_send ssl now p" by blast
    have w: "av_waiters (cwnd s) = []" using Cons.prems(1) e by simp
    from send_continue_sends [of ssl now no_error p s] show ?thesis
      using IH e w by (auto simp: step_chunk_def send_packet_def comp_def dest: list_emb_Cons)
  next
    case False
    then have "resumes s (phz_step s e)" using Cons.prems by (intro phz_step_resumes) auto
    moreover have "send_calls (e # es) = send_calls es" "step_chunk s e = next_chunk s"
      using False by (cases e; simp add: step_chunk_def)+
    ultimately show ?thesis
      using IH Cons.prems(3)
      by (cases "av_waiters (cwnd s)")
        (auto simp: resumes_def next_chunk_def comp_def dest: list_emb_Cons)
  qed
qed

end
