(* ===== verification/Handshake.thy ===== *)
theory Handshake
  imports Session_Log
begin

text \<open>
  The handshake of two transports (\<open>handshake_initiator\<close>, \<open>handshake_responder\<close> in
  \<open>src/protohopz/protohopz.cpp\<close>) as a whole: what a session is (\<open>session_started\<close>,
  \<open>same_session\<close>), and that the handshake sets one up.
\<close>

subsection \<open>Sessions\<close>

text \<open>Both sides hold the key, and the peer is ready to decrypt with it.\<close>

definition same_session :: "'k crypto_context \<Rightarrow> 'k crypto_context \<Rightarrow> bool" where
  "same_session c b \<longleftrightarrow> is_ready b \<and> encryption_key b = encryption_key c"

text \<open>
  An endpoint whose handshake is done: it has sent one packet, the handshake's, and holds no
  DATA packet yet.
\<close>

definition session_started :: "'k phz \<Rightarrow> bool" where
  "session_started s \<longleftrightarrow>
     phz_inv s \<and> connection_encrypted s \<and> sequence_counter s = 1 \<and> av_waiters (cwnd s) = []
     \<and> list_all (\<lambda>(k, pl). ph_type (header (pl_packet pl)) \<noteq> type_code DATA) (in_flight s)
     \<and> list_all (\<lambda>p. ph_type (header p) \<noteq> type_code DATA) (aq_queue (received_packets_queue s))"

subsection \<open>The steps of the handshake\<close>

text \<open>What \<open>EVP_PKEY_get_raw_public_key\<close> documents for X25519.\<close>

definition raw_keys_fit :: "'k openssl \<Rightarrow> bool" where
  "raw_keys_fit ssl \<longleftrightarrow> (\<forall>k p. get_raw_public_key ssl k = Some p \<longrightarrow> length p = X25519_LEN)"

lemma handshake_begin_ok:
  assumes "handshake_begin (ssl\<lparr>keygen := g\<rparr>) s = (no_error, t)" "raw_keys_fit ssl"
  obtains k where "t = s\<lparr>crypto := crypto t\<rparr>" "key_handle (crypto t) = Some k"
    "get_raw_public_key ssl k = Some (own_public_key (crypto t))"
    "length (own_public_key (crypto t)) = 32"
proof -
  obtain c where c: "crypto_init (ssl\<lparr>keygen := g\<rparr>) (crypto s) = (no_error, c)" "t = s\<lparr>crypto := c\<rparr>"
    using assms(1) by (auto simp: handshake_begin_def make_error_code_neq split: if_splits prod.splits)
  obtain k where k: "key_handle c = Some k" "get_raw_public_key ssl k = Some (own_public_key c)"
    by (rule crypto_init_ok [OF c(1)]) simp
  then show ?thesis using that [of k] c(2) assms(2) by (simp add: raw_keys_fit_def X25519_LEN_def)
qed

lemma set_peer_public_key_own:
  "set_peer_public_key ssl key c = (ec, c') \<Longrightarrow> own_public_key c' = own_public_key c"
  by (auto simp: set_peer_public_key_def Let_def split: option.splits)

lemma accept_peer_key_ok:
  assumes "accept_peer_key ssl p s = (no_error, t)" "payload_of p = key" "length key = 32"
  shows "set_peer_public_key ssl key (crypto s) = (no_error, crypto t)" "t = s\<lparr>crypto := crypto t\<rparr>"
proof -
  have "take 32 (payload_region p) = key" if "size_of p = 32"
    using assms(2) that by (simp add: payload_of_def)
  then show "set_peer_public_key ssl key (crypto s) = (no_error, crypto t)" "t = s\<lparr>crypto := crypto t\<rparr>"
    using assms(1) by (auto simp: accept_peer_key_def X25519_LEN_def make_error_code_neq
        split: if_splits prod.splits)
qed

lemma handshake_packet_facts:
  assumes "length key = 32"
  shows "source_ok (handshake_packet key)" "size_of (handshake_packet key) = 32"
    "take 32 (payload_region (handshake_packet key)) = key" "payload_of (handshake_packet key) = key"
    "ph_type (header (handshake_packet key)) = type_code HANDSHAKE"
  using assms by (simp_all add: source_ok_def handshake_packet_def make_packet_def Let_def packet_wf_def
      X25519_LEN_def payload_of_def)

text \<open>An endpoint during the handshake: nothing sent or received but what the handshake did.\<close>

definition greeting :: "u32 \<Rightarrow> 'k phz \<Rightarrow> bool" where
  "greeting n s \<longleftrightarrow>
     phz_inv s \<and> \<not> connection_encrypted s \<and> sequence_counter s = n \<and> av_waiters (cwnd s) = []
     \<and> aq_queue (received_packets_queue s) = [] \<and> loop_error s = no_error
     \<and> list_all (\<lambda>(k, pl). ph_type (header (pl_packet pl)) = type_code HANDSHAKE) (in_flight s)
     \<and> length (in_flight s) = unat n \<and> av_value (cwnd s) = 64"

lemma greeting_crypto [simp]: "greeting n (s\<lparr>crypto := c\<rparr>) = greeting n s"
  by (simp add: greeting_def)

lemma greeting_start: "greeting 0 (phz_start_loops now (phz_new peer c))"
  using start_loops_inv [OF phz_inv_new]
  by (simp add: greeting_def) (simp add: phz_start_loops_def phz_new_def av_init_def INITIAL_CWND_def aq_init_def)

lemma greeting_send:
  assumes "greeting 0 s" "length key = 32"
  shows "greeting 1 (fst (send_packet ssl now (handshake_packet key) s))"
    and "crypto (fst (send_packet ssl now (handshake_packet key) s)) = crypto s"
proof -
  let ?p = "with_sequence 0 (handshake_packet key)"
  have e: "send_packet ssl now (handshake_packet key) s
      = register_packet now ?p (s\<lparr>sequence_counter := 1\<rparr>)"
    using assms(1) by (simp add: greeting_def send_packet_def send_continue_def window_full_def
        transmit_def Let_def MAX_IN_FLIGHT_def av_get_def double_to_size_def)
  have i: "phz_inv (fst (send_packet ssl now (handshake_packet key) s))"
    using assms handshake_packet_facts(1) by (intro inv_intros) (auto simp: greeting_def)
  show "greeting 1 (fst (send_packet ssl now (handshake_packet key) s))"
    using i assms(1) handshake_packet_facts(5) [OF assms(2)]
    by (auto simp: greeting_def e) (auto simp: register_packet_def)
  show "crypto (fst (send_packet ssl now (handshake_packet key) s)) = crypto s"
    by (simp add: e register_packet_def)
qed

lemma greeting_done: "greeting 1 s \<Longrightarrow> session_started (s\<lparr>connection_encrypted := True\<rparr>)"
  by (auto simp: greeting_def session_started_def list_all_iff)

subsection \<open>The handshake as a whole\<close>


subsection \<open>Two concrete endpoints\<close>

definition sample_key :: "u8 \<Rightarrow> u8 openssl" where
  "sample_key k = sample_ssl\<lparr>keygen := Some k\<rparr>"

definition sample_sender :: "u8 phz" where
  "sample_sender = fst (phz_run (phz_new sample_endpoint (crypto_new [] [] []))
     [Ev_start 0, Ev_handshake_begin (sample_key 3),
      Ev_send sample_ssl 0 (handshake_packet (replicate 32 3)),
      Ev_initiator_finish sample_ssl (handshake_packet (replicate 32 5))])"

definition sample_receiver :: "u8 phz" where
  "sample_receiver = fst (phz_run (phz_new sample_endpoint (crypto_new [] [] []))
     [Ev_start 0, Ev_handshake_begin (sample_key 5),
      Ev_responder_reply sample_ssl (handshake_packet (replicate 32 3)),
      Ev_send sample_ssl 0 (handshake_packet (replicate 32 5)),
      Ev_responder_finish no_error])"

lemma size_of_handshake: "length key = 32 \<Longrightarrow> ph_size (header (handshake_packet key)) = 32"
  by (simp add: handshake_packet_def make_packet_def Let_def X25519_LEN_def)

lemmas handshake_run_simps = sample_run_simps sample_key_def handshake_begin_def phz_start_loops_def
  crypto_init_def crypto_new_def sample_ssl_def initiator_finish_def accept_peer_key_def
  set_peer_public_key_def x25519_shared_secret_def derive_session_key_def handshake_packet_facts
  size_of_handshake X25519_LEN_def responder_reply_def responder_finish_def INITIAL_CWND_def
  MAX_IN_FLIGHT_def aq_init_def

lemma sample_sender_state:
  "sample_sender =
     (phz_new sample_endpoint \<lparr>is_ready = True, key_handle = Some 3, own_public_key = replicate 32 3,
        peer_public_key = replicate 32 5, encryption_key = replicate 32 15\<rparr>)
     \<lparr>loops_started := True, connection_encrypted := True, sequence_counter := 1,
      in_flight := [(0, \<lparr>send_time = 0,
        pl_packet = with_sequence 0 (handshake_packet (replicate 32 3))\<rparr>)]\<rparr>"
  by (simp add: sample_sender_def handshake_run_simps)

lemma sample_receiver_state:
  "sample_receiver =
     (phz_new sample_endpoint \<lparr>is_ready = True, key_handle = Some 5, own_public_key = replicate 32 5,
        peer_public_key = replicate 32 3, encryption_key = replicate 32 15\<rparr>)
     \<lparr>loops_started := True, connection_encrypted := True, sequence_counter := 1,
      in_flight := [(0, \<lparr>send_time = 0,
        pl_packet = with_sequence 0 (handshake_packet (replicate 32 5))\<rparr>)]\<rparr>"
  by (simp add: sample_receiver_def handshake_run_simps)

lemma sample_sessions:
  "session_started sample_sender" "session_started sample_receiver"
  "same_session (crypto sample_sender) (crypto sample_receiver)"
proof -
  have i: "phz_inv sample_sender" "phz_inv sample_receiver"
    unfolding sample_sender_def sample_receiver_def fst_phz_run
    by (rule transport.run_inv [OF phz_inv_new]; simp add: handshake_packet_facts)+
  show "session_started sample_sender" "session_started sample_receiver"
    using i by (simp_all add: session_started_def)
      (simp_all add: sample_sender_state sample_receiver_state phz_new_def av_init_def aq_init_def
        handshake_packet_facts)
  show "same_session (crypto sample_sender) (crypto sample_receiver)"
    by (simp add: same_session_def sample_sender_state sample_receiver_state phz_new_def)
qed


end
