(* ===== verification/Network.thy ===== *)
theory Network
  imports Handshake
begin

text \<open>
  Two endpoints after the handshake and the network between them: the stream of the receiver
  returns a prefix of what the sender's transport has sent, whatever the network loses,
  repeats or reorders. \<open>Session_Log\<close> has the sender's side; here are the receiver's transport
  (every packet it hands up is genuine), its stream, and the composition.
\<close>

subsection \<open>A step of the receiver\<close>

text \<open>The plaintext packets that may be handed up: DATA packet \<open>k\<close> carries content \<open>k\<close>.\<close>

definition genuine :: "(u32 \<Rightarrow> bytes) \<Rightarrow> phz_packet \<Rightarrow> bool" where
  "genuine f p \<longleftrightarrow> (ph_type (header p) = type_code DATA \<longrightarrow> payload_of p = f (seq_of p))"

definition takes :: "(u32 \<Rightarrow> bytes) \<Rightarrow> 'k crypto_context \<Rightarrow> 'k phz \<Rightarrow> bool" where
  "takes f c s \<longleftrightarrow> aq_inv (received_packets_queue s) \<and> crypto s = c \<and> connection_encrypted s
     \<and> (\<forall>p \<in> set (aq_queue (received_packets_queue s)). genuine f p)"

definition hands :: "(u32 \<Rightarrow> bytes) \<Rightarrow> 'k crypto_context \<Rightarrow> 'k phz \<times> effect list \<Rightarrow> bool" where
  "hands f c res \<longleftrightarrow> takes f c (fst res) \<and> (\<forall>p \<in> set (popped (snd res)). genuine f p)"

lemma hands_quiet:
  assumes "takes f c s" "received_packets_queue t = received_packets_queue s" "crypto t = crypto s"
    "connection_encrypted t = connection_encrypted s" "popped es = []"
  shows "hands f c (t, es)"
  using assms by (simp add: hands_def takes_def)

lemma hands_trans:
  assumes "hands f c (s1, es)" "takes f c s1 \<Longrightarrow> hands f c (t, fs)"
  shows "hands f c (t, es @ fs)"
  using assms by (auto simp: hands_def)

lemma push_received_hands:
  assumes "takes f c s" "genuine f p"
  shows "hands f c (push_received p s)"
proof -
  have a: "aq_inv (received_packets_queue s)" using assms(1) by (simp add: takes_def)
  have q: "popped (snd (push_received p s)) @ aq_queue (received_packets_queue (fst (push_received p s)))
      = aq_queue (received_packets_queue s) @ [p]"
    and i: "aq_inv (received_packets_queue (fst (push_received p s)))"
    using aq.put_conserves [OF a, of p] aq_push_inv [OF a, of p]
    by (auto simp: push_received_def split_beta)
  have "set (popped (snd (push_received p s)))
      \<union> set (aq_queue (received_packets_queue (fst (push_received p s))))
    = insert p (set (aq_queue (received_packets_queue s)))"
    using arg_cong [OF q, of set] by auto
  then show ?thesis using assms i by (auto simp: hands_def takes_def)
qed

lemma transmit_session [simp]:
  "crypto (fst (transmit ssl now p s)) = crypto s"
  "connection_encrypted (fst (transmit ssl now p s)) = connection_encrypted s"
  by (auto simp: transmit_def register_packet_def Let_def split: sum.splits)

lemma send_continue_session [simp]:
  "crypto (fst (send_continue ssl now ec p s)) = crypto s"
  "connection_encrypted (fst (send_continue ssl now ec p s)) = connection_encrypted s"
  by (simp_all add: send_continue_def)

lemma notify_sender_session [simp]:
  "crypto (fst (notify_sender ssl now s)) = crypto s"
  "connection_encrypted (fst (notify_sender ssl now s)) = connection_encrypted s"
  by (simp_all add: notify_sender_def av_notify_one_def split: list.splits)

lemma wake_genuine [simp]: "genuine f (wake_packet n)"
  by (simp add: genuine_def wake_packet_def make_packet_def)

lemma store_loop_error_hands:
  assumes "takes f c s"
  shows "hands f c (store_loop_error ssl now ec s)"
proof (cases "\<not> ec_failed ec \<or> ec_failed (loop_error s)")
  case True
  then show ?thesis using assms by (auto simp: store_loop_error_def intro!: hands_quiet)
next
  case False
  let ?s1 = "s\<lparr>loop_error := ec, loops_started := False\<rparr>"
  let ?s3 = "fst (set_drained (fst (notify_sender ssl now ?s1)))"
  let ?s4 = "?s3\<lparr>sequence_counter := sequence_counter ?s3 + 1\<rparr>"
  have "takes f c ?s4" using assms by (simp add: takes_def)
  then show ?thesis
    using False push_received_hands [of f c ?s4 "wake_packet (sequence_counter ?s4)"]
    by (simp add: store_loop_error_def Let_def split_beta hands_def)
qed

lemma finish_loop_hands:
  assumes "takes f c s"
  shows "hands f c (handle_loop_result ssl now ec s)" "hands f c (finish_loop ssl now s res)"
proof -
  show h: "hands f c (handle_loop_result ssl now ec s)" for ec
    using assms store_loop_error_hands [OF assms]
    by (auto simp: handle_loop_result_def intro!: hands_quiet)
  show "hands f c (finish_loop ssl now s res)"
    using assms h by (cases res) (auto simp: finish_loop_def intro!: hands_quiet)
qed

lemma accept_packet_hands:
  assumes "takes f c s" "genuine f p"
  shows "hands f c (accept_packet p s)"
  unfolding accept_packet_def using assms by (intro push_received_hands) (simp_all add: takes_def)

text \<open>The datagrams that reach the receiver: the sender's, or others that are not DATA.\<close>

lemma receive_image_type:
  assumes "length stale = 1436" "d \<noteq> []"
  shows "ph_type (header (receive_image stale d)) = hd d"
    and "ph_type (datagram_header d) = hd d"
  using assms by (cases d; simp add: receive_image_def packet_of_image_def overlay_def
      header_of_bytes_def datagram_header_def)+

lemma carried_chunk_arrives:
  assumes "carries_chunk r c k m d" "length stale = 1436"
    and "is_ready b" "encryption_key b = encryption_key c"
  shows "ph_type (header (receive_image stale d)) = type_code DATA"
    and "seq_of (receive_image stale d) = k"
    and "decrypt_data r b (payload_of (receive_image stale d)) = Inr m"
    and "payload_of (with_plaintext m (receive_image stale d)) = m"
proof -
  obtain ssl ct where m: "chunk_ok m" and e: "deciphers r ssl" "encrypt_data ssl c m = Inr ct"
    "length ct \<le> PACKET_SIZE" and d: "d = wire (with_ciphertext ct (with_sequence k (stream_packet m)))"
    using assms(1) by (auto simp: carries_chunk_def)
  let ?q = "with_ciphertext ct (with_sequence k (stream_packet m))"
  have wf: "packet_wf (with_sequence k (stream_packet m))" using stream_packet_facts(4) [OF m] by simp
  note q = with_ciphertext_facts [OF e(3) wf]
  note i = receive_image_wire [OF assms(2) q(1)]
  show "ph_type (header (receive_image stale d)) = type_code DATA"
    "seq_of (receive_image stale d) = k"
    using i(1) q e(3) stream_packet_facts(3) [OF m] d by simp_all
  have "payload_of (receive_image stale d) = ct" using i(2) q e(3) d by simp
  moreover have "m \<noteq> []" using m by (simp add: chunk_ok_def)
  ultimately show "decrypt_data r b (payload_of (receive_image stale d)) = Inr m"
    using e(1,2) assms(3,4) unfolding deciphers_def by blast
  show "payload_of (with_plaintext m (receive_image stale d)) = m"
    using m by (simp add: chunk_ok_def payload_of_def with_plaintext_def unsigned_of_nat
        take_bit_nat_eq_self)
qed

text \<open>The chunk under each number of the log, \<open>x\<close> under the others.\<close>

definition logged :: "(u32 \<times> bytes) list \<Rightarrow> bytes \<Rightarrow> u32 \<Rightarrow> bytes" where
  "logged L x k = (case map_of L k of Some m \<Rightarrow> m | None \<Rightarrow> x)"

definition arrives :: "'k openssl \<Rightarrow> 'k crypto_context \<Rightarrow> (u32 \<times> bytes) list \<Rightarrow> bytes \<Rightarrow> bool" where
  "arrives r c L d \<longleftrightarrow> d \<noteq> [] \<and>
     (hd d \<noteq> type_code DATA \<or> (\<exists>k m. (k, m) \<in> set L \<and> carries_chunk r c k m d))"

lemma on_data_hands:
  assumes "takes (logged L x) b s" "same_session c b" "distinct (map fst L)"
    and "carries_chunk r c k m d" "(k, m) \<in> set L" "length stale = 1436"
  shows "hands (logged L x) b (fst (on_data r (receive_image stale d) s),
      fst (snd (on_data r (receive_image stale d) s)))"
proof -
  let ?p = "receive_image stale d"
  have bs: "is_ready b" "encryption_key b = encryption_key c"
    using assms(2) by (simp_all add: same_session_def)
  have s: "crypto s = b" "connection_encrypted s" using assms(1) by (simp_all add: takes_def)
  note a = carried_chunk_arrives [OF assms(4,6) bs]
  have "logged L x k = m" using assms(3,5) by (simp add: logged_def)
  then have g: "genuine (logged L x) (with_plaintext m ?p)"
    using a(2,4) by (simp add: genuine_def) (simp add: with_plaintext_def)
  have q: "hands (logged L x) b (s, es)" if "popped es = []" for es
    using assms(1) that by (intro hands_quiet [of _ _ s]) simp_all
  have "hands (logged L x) b (fst (accept_packet (with_plaintext m ?p) s),
      send_ack k s @ snd (accept_packet (with_plaintext m ?p) s))"
    using accept_packet_hands [OF assms(1) g] by (simp add: hands_def)
  then show ?thesis
    using q s a(2,3) by (simp add: on_data_def Let_def split_beta)
qed

lemma on_datagram_hands:
  assumes "takes (logged L x) b s" "same_session c b" "distinct (map fst L)"
    and "arrives r c L d" "length stale = 1436"
  shows "hands (logged L x) b (fst (on_datagram r now remote stale d s),
      fst (snd (on_datagram r now remote stale d s)))"
proof -
  let ?s1 = "s\<lparr>peer_endpoint := remote, peer_endpoint_known := True, last_peer_activity := now\<rparr>"
  let ?p = "receive_image stale d"
  have s1: "takes (logged L x) b ?s1" using assms(1) by (simp add: takes_def)
  have t: "ph_type (header ?p) = hd d"
    using receive_image_type(1) assms(4,5) by (simp add: arrives_def)
  have q: "hands (logged L x) b (u, es)"
    if "received_packets_queue u = received_packets_queue s" "crypto u = crypto s"
      "connection_encrypted u = connection_encrypted s" "popped es = []" for u es
    using hands_quiet [OF assms(1) that] .
  have data: "hands (logged L x) b (fst (on_data r ?p ?s1), fst (snd (on_data r ?p ?s1)))"
    if "hd d = type_code DATA"
    using that assms(4) on_data_hands [OF s1 assms(2,3) _ _ assms(5)] by (auto simp: arrives_def)
  have ack: "hands (logged L x) b (ack_handler r now n ?s1)" for n
  proof -
    have "crypto (fst (ack_handler r now n ?s1)) = crypto s"
      "connection_encrypted (fst (ack_handler r now n ?s1)) = connection_encrypted s"
      by (simp_all add: ack_handler_def Let_def split_beta)
    then show ?thesis
      using q [of "fst (ack_handler r now n ?s1)" "snd (ack_handler r now n ?s1)"] by simp
  qed
  have hs: "hands (logged L x) b (fst (on_handshake ?p ?s1), fst (snd (on_handshake ?p ?s1)))"
    if "hd d = type_code HANDSHAKE"
  proof -
    have "genuine (logged L x) ?p" using that t by (simp add: genuine_def)
    from accept_packet_hands [OF s1 this] have
      "hands (logged L x) b (fst (accept_packet ?p ?s1), send_ack n ?s1 @ snd (accept_packet ?p ?s1))" for n
      by (simp add: hands_def)
    then show ?thesis
      using q [of ?s1 "[]"] q [of ?s1 "send_ack _ ?s1"] by (simp add: on_handshake_def Let_def split_beta)
  qed
  show ?thesis
    using data hs ack q [of s "[]"] q [of ?s1 "[]"]
    by (simp add: on_datagram_def Let_def split_beta t)
qed

lemma receive_iteration_hands:
  assumes "takes (logged L x) b s" "same_session c b" "distinct (map fst L)"
    and "arrives r c L d" "length stale = 1436"
  shows "hands (logged L x) b (receive_iteration r now remote stale d s)"
proof -
  obtain s1 es res where o: "on_datagram r now remote stale d s = (s1, es, res)"
    by (cases "on_datagram r now remote stale d s") auto
  have h: "hands (logged L x) b (s1, es)"
    using on_datagram_hands [OF assms, of now remote] by (simp add: o)
  have "hands (logged L x) b (fst (handle_loop_result r now ec s1), es @ snd (handle_loop_result r now ec s1))" for ec
    by (rule hands_trans [OF h]) (simp add: finish_loop_hands(1))
  then show ?thesis
    using h by (cases res) (simp_all add: receive_iteration_def o split_beta)
qed

text \<open>
  The events of the receiver: no further handshake or restart, and the datagrams it reads are
  among \<open>W\<close> or are not DATA. Which ones, how often and in which order is up to the network.
\<close>

fun receiver_event :: "'k openssl \<Rightarrow> bytes set \<Rightarrow> 'k event \<Rightarrow> bool" where
  "receiver_event r W (Ev_datagram ssl now remote stale d) \<longleftrightarrow>
     ssl = r \<and> length stale = 1436 \<and> d \<noteq> [] \<and> (d \<in> W \<or> hd d \<noteq> type_code DATA)"
| "receiver_event r W (Ev_handshake_begin ssl) \<longleftrightarrow> False"
| "receiver_event r W (Ev_initiator_finish ssl p) \<longleftrightarrow> False"
| "receiver_event r W (Ev_responder_reply ssl p) \<longleftrightarrow> False"
| "receiver_event r W (Ev_responder_finish ec) \<longleftrightarrow> False"
| "receiver_event r W e \<longleftrightarrow> True"

lemma phz_step_hands:
  assumes "takes (logged L x) b s" "same_session c b" "distinct (map fst L)"
    and "receiver_event r W e" "\<forall>d \<in> W. d \<noteq> [] \<longrightarrow> arrives r c L d"
  shows "hands (logged L x) b (phz_step s e)"
proof -
  have q: "hands (logged L x) b res"
    if "received_packets_queue (fst res) = received_packets_queue s" "crypto (fst res) = crypto s"
      "connection_encrypted (fst res) = connection_encrypted s" "popped (snd res) = []" for res
    using hands_quiet [OF assms(1) that] by simp
  show ?thesis
  proof (cases e)
    case (Ev_datagram ssl now remote stale d)
    then have "arrives r c L d" using assms(4,5) by (auto simp: arrives_def)
    then show ?thesis using Ev_datagram assms(4) receive_iteration_hands [OF assms(1-3)] by simp
  next
    case (Ev_pop w)
    have a: "aq_inv (received_packets_queue s)" using assms(1) by (simp add: takes_def)
    have "popped (snd (receive_packet_begin w s))
        @ aq_queue (received_packets_queue (fst (receive_packet_begin w s)))
      = aq_queue (received_packets_queue s)"
      using aq.get_conserves [OF a, of w] by (simp add: receive_packet_begin_def split_beta)
    from arg_cong [OF this, of set] show ?thesis
      using Ev_pop assms(1) aq_pop_inv [OF a, of w]
      by (auto simp: hands_def takes_def receive_packet_begin_def split_beta)
  next
    case (Ev_timeout ssl now)
    have "takes (logged L x) b (fst (timeout_top now s))"
      using assms(1) by (simp add: takes_def timeout_top_def Let_def)
    then show ?thesis using Ev_timeout by (simp add: split_beta finish_loop_hands)
  next
    case (Ev_resent ssl now seq ec)
    have "takes (logged L x) b (fst (resend_completed now seq ec s))"
      using assms(1) by (simp add: takes_def resend_completed_def split: option.split)
    then show ?thesis using Ev_resent by (simp add: split_beta finish_loop_hands)
  next
    case Ev_loop_exit
    then show ?thesis using finish_loop_hands(1) [OF assms(1)] by simp
  next
    case Ev_stop
    let ?s1 = "s\<lparr>stopping_loops := True, in_flight := [], received_packets := {},
                 drained_signal := av_update False (drained_signal s),
                 sequence_counter := sequence_counter s + 1\<rparr>"
    have "takes (logged L x) b ?s1" using assms(1) by (simp add: takes_def)
    then have "hands (logged L x) b (push_received (wake_packet (sequence_counter ?s1)) ?s1)"
      by (rule push_received_hands) simp
    then show ?thesis
      using Ev_stop by (simp add: phz_stop_loops_def Let_def split_beta hands_def takes_def)
  next
    case Ev_sent
    then show ?thesis by (intro q) (simp_all add: send_completed_def Let_def split_beta)
  qed (use assms(4) in \<open>auto intro!: q simp: send_packet_def phz_start_loops_def drain_begin_def\<close>)
qed

subsection \<open>The receiver's stream\<close>

fun transport_effects :: "stream_effect list \<Rightarrow> effect list" where
  "transport_effects [] = []"
| "transport_effects (Transport e # es) = e # transport_effects es"
| "transport_effects (_ # es) = transport_effects es"

lemma transport_effects_append [simp]:
  "transport_effects (xs @ ys) = transport_effects xs @ transport_effects ys"
  by (induction xs rule: transport_effects.induct) auto

lemma transport_effects_Transport [simp]: "transport_effects (map Transport es) = es"
  by (induction es) auto

lemma transport_effects_receive_end [simp]: "transport_effects (map (receive_end s) cs) = []"
  by (induction cs) (auto simp: receive_end_def)

text \<open>
  The chunk loop works on what its transport handed out: the packet of a completed
  \<open>receive_packet()\<close> is one that a \<open>pop()\<close> has returned before.
\<close>

fun fed :: "'k stream \<Rightarrow> phz_packet list \<Rightarrow> 'k stream_event list \<Rightarrow> bool" where
  "fed s ps [] = True"
| "fed s ps (e # es) =
     ((case e of Se_packet (Inr p) \<Rightarrow> p \<in> set ps | _ \<Rightarrow> True)
      \<and> fed (fst (stream_step s e)) (ps @ popped (transport_effects (snd (stream_step s e)))) es)"

definition receiver_stream_event :: "'k openssl \<Rightarrow> bytes set \<Rightarrow> 'k stream_event \<Rightarrow> bool" where
  "receiver_stream_event r W e \<longleftrightarrow> \<not> restarts e
     \<and> (case e of Se_transport e' \<Rightarrow> receiver_event r W e' | _ \<Rightarrow> True)"

lemma with_ready_transport_effects [simp]: "transport_effects (snd (with_ready s res)) = []"
  by (simp add: with_ready_def Let_def)

lemma push_chunks_quiet [simp]:
  "transport (fst (push_chunks cs s)) = transport s"
  "transport_effects (snd (push_chunks cs s)) = []"
  by (induction cs arbitrary: s) (simp_all add: push_chunk_def split_beta Let_def)

lemma chunks_iteration_quiet [simp]:
  "transport (fst (chunks_iteration res s)) = transport s"
  "transport_effects (snd (chunks_iteration res s)) = []"
  by (simp_all add: chunks_iteration_def handle_receive_chunks_result_def store_stream_error_def
      push_chunk_def split_beta Let_def split: sum.split)

lemma stream_step_hands:
  assumes "takes (logged L x) b (transport s)" "same_session c b" "distinct (map fst L)"
    and "receiver_stream_event r W e" "\<forall>d \<in> W. d \<noteq> [] \<longrightarrow> arrives r c L d"
  shows "hands (logged L x) b
    (transport (fst (stream_step s e)), transport_effects (snd (stream_step s e)))"
proof -
  have step: "hands (logged L x) b (phz_step (transport s) e')" if "receiver_event r W e'" for e'
    using phz_step_hands [OF assms(1,2,3) that assms(5)] .
  have quiet: "hands (logged L x) b (transport s, [])" using assms(1) by (simp add: hands_def)
  show ?thesis
  proof (cases e)
    case (Se_transport e')
    then have "receiver_event r W e'" using assms(4) by (simp add: receiver_stream_event_def)
    from step [OF this] show ?thesis using Se_transport by (simp add: split_beta)
  next
    case (Se_send ssl now ec data)
    have "hands (logged L x) b (send_packet ssl now p (transport s))" for p
      using hands_quiet [OF assms(1), of "fst (send_packet ssl now p (transport s))"
          "snd (send_packet ssl now p (transport s))"] by (simp add: send_packet_def)
    then show ?thesis using Se_send quiet by (simp add: stream_send_def split_beta Let_def)
  next
    case (Se_close_begin w)
    then show ?thesis
      using step [of "Ev_drain w"] by (simp add: close_begin_def split_beta Let_def)
  next
    case Se_close_end
    then show ?thesis using step [of Ev_stop] by (simp add: close_end_def split_beta Let_def)
  qed (use quiet assms(4) in \<open>simp_all add: stream_receive_def stream_receive_cancelled_def
      receiver_stream_event_def restarts_def\<close>)
qed

lemma fed_packets_genuine:
  assumes "takes (logged L x) b (transport s)" "same_session c b" "distinct (map fst L)"
    and "\<forall>d \<in> W. d \<noteq> [] \<longrightarrow> arrives r c L d"
    and "list_all (receiver_stream_event r W) es" "fed s ps es" "\<forall>p \<in> set ps. genuine (logged L x) p"
  shows "list_all (packet_event_ok (logged L x)) es \<and> \<not> list_ex restarts es"
  using assms(1,5-7)
proof (induction es arbitrary: s ps)
  case Nil
  then show ?case by simp
next
  case (Cons e es)
  have h: "hands (logged L x) b
      (transport (fst (stream_step s e)), transport_effects (snd (stream_step s e)))"
    using Cons.prems assms by (intro stream_step_hands) auto
  have "list_all (packet_event_ok (logged L x)) es \<and> \<not> list_ex restarts es"
    using h Cons.prems
    by (intro Cons.IH [of "fst (stream_step s e)"
          "ps @ popped (transport_effects (snd (stream_step s e)))"]) (auto simp: hands_def)
  moreover have "packet_event_ok (logged L x) e"
    using Cons.prems(3,4) by (auto simp: packet_event_ok_def genuine_def split: stream_event.splits sum.splits)
  moreover have "\<not> restarts e" using Cons.prems(2) by (simp add: receiver_stream_event_def)
  ultimately show ?case by simp
qed

subsection \<open>Across the network\<close>

lemma log_prefix:
  assumes "sorted_wrt (<) (map fst L)" "\<forall>k \<in> set (map fst L). a \<le> unat k"
    and "\<And>i. i < length cs \<Longrightarrow> \<exists>k :: u32. unat k = a + i \<and> (k, cs ! i) \<in> set L"
  shows "prefix cs (map snd L)"
  using assms
proof (induction L arbitrary: a cs)
  case Nil
  then show ?case by (cases cs) force+
next
  case (Cons w L)
  obtain k m where w: "w = (k, m)" by (cases w)
  show ?case
  proof (cases cs)
    case (Cons c cs')
    obtain j where j: "unat j = a" "(j, c) \<in> set (w # L)" using Cons.prems(3) [of 0] Cons by auto
    have "(j, c) \<notin> set L"
      using Cons.prems(1,2) j(1) w by (force simp: word_less_nat_alt)
    then have c: "j = k" "c = m" using j(2) w by auto
    have "prefix cs' (map snd L)"
    proof (rule Cons.IH [of "Suc a"])
      show "\<forall>k \<in> set (map fst L). Suc a \<le> unat k"
        using Cons.prems(1) j(1) c(1) w by (auto simp: word_less_nat_alt)
      fix i assume i: "i < length cs'"
      then obtain j' where "unat j' = a + Suc i" "(j', cs' ! i) \<in> set (w # L)"
        using Cons.prems(3) [of "Suc i"] Cons by auto
      then show "\<exists>k. unat k = Suc a + i \<and> (k, cs' ! i) \<in> set L"
        using j(1) c(1) w by (intro exI [of _ j']) auto
    qed (use Cons.prems(1) in simp)
    then show ?thesis using Cons c w by simp
  qed simp
qed

text \<open>A stream right after \<open>start_loops\<close>.\<close>

definition fresh_stream :: "'k stream \<Rightarrow> bool" where
  "fresh_stream s \<longleftrightarrow> ready_chunks s = aq_init \<and> stream_error s = no_error
     \<and> chunk_locals s = chunk_loop_start"

lemma session_event_ok: "session_event r e \<Longrightarrow> event_ok e"
proof (cases e)
  case (Ev_send ssl now p)
  assume "session_event r e"
  then have m: "chunk_ok (payload_of p)" "p = stream_packet (payload_of p)"
    using Ev_send by simp_all
  have "source_ok (stream_packet (payload_of p))"
    using m(1) stream_packet_facts [OF m(1)] by (auto simp: source_ok_def chunk_ok_def)
  then show ?thesis using Ev_send m(2) by simp
qed simp_all

lemma session_history:
  assumes "session_started s" "list_all (session_event r) es" "length es < 2 ^ 31 - 2"
  shows "history r (crypto s) (fst (phz_run s es)) (snd (phz_run s es)) (sent_log s es)"
proof -
  have "list_all event_ok es" using assms(2) session_event_ok by (auto simp: list_all_iff)
  moreover have "history r (crypto s) s [] []"
    using assms(1)
    by (auto simp: history_def session_started_def waiting_chunks_def known_datagram_def
        registered_def list_all_iff)
  ultimately show ?thesis
    using history_run [of r "crypto s" s "[]" "[]" es] assms by (auto simp: session_started_def)
qed

lemma content_prefix_of_log:
  assumes "sorted_wrt (<) (map fst L)" "\<forall>k \<in> set (map fst L). 1 \<le> k"
    and "\<And>x. cs = content (logged L x) (length cs)"
  shows "prefix cs (map snd L)"
proof -
  have d: "distinct (map fst L)" using assms(1) strict_sorted_iff by blast
  have mem: "(1 + of_nat i, cs ! i) \<in> set L" if i: "i < length cs" for i
  proof -
    have e: "logged L x (1 + of_nat i) = cs ! i" for x
      using arg_cong [OF assms(3) [of x], of "\<lambda>zs. zs ! i"] i by (simp add: content_def)
    have "logged L [] (1 + of_nat i) = logged L [0] (1 + of_nat i)" by (simp only: e)
    then have "map_of L (1 + of_nat i) \<noteq> None"
      by (cases "map_of L (1 + of_nat i)") (simp_all add: logged_def)
    then show ?thesis using e [of "[]"] by (auto simp: logged_def dest: map_of_SomeD)
  qed
  have n: "length cs < 2 ^ 32"
  proof (rule ccontr)
    assume "\<not> length cs < 2 ^ 32"
    then have "(1 + of_nat (2 ^ 32 - 1), cs ! (2 ^ 32 - 1)) \<in> set L" by (intro mem) simp
    moreover have "1 + of_nat (2 ^ 32 - 1) = (0 :: u32)" by simp
    ultimately have "0 \<in> set (map fst L)" by (metis fst_conv imageI set_map)
    then show False using assms(2) by fastforce
  qed
  show ?thesis
  proof (rule log_prefix [OF assms(1), of 1])
    show "\<forall>k \<in> set (map fst L). 1 \<le> unat k" using assms(2) by (auto simp: word_le_nat_alt)
    fix i assume i: "i < length cs"
    then have "unat (1 + of_nat i :: u32) = 1 + i"
      using n by (simp add: unat_word_ariths unsigned_of_nat take_bit_nat_eq_self)
    then show "\<exists>k :: u32. unat k = 1 + i \<and> (k, cs ! i) \<in> set L" using mem [OF i] by blast
  qed
qed

text \<open>
  C2. Across the network: two endpoints hold the keys of one session, the sender's program
  has one sending coroutine, and the datagrams that reach the receiver are copies of what the
  sender's transport put on the wire or are not DATA: any of them may be lost, repeated or
  reordered, and every other event (timeouts, resends, failed sends, acknowledgements true or
  forged, loop failures, closing) may happen at any place on either side. Then the chunks that
  \<open>receive()\<close> returns are a prefix of the chunks the sender's transport sent, and these are
  the chunks of the program's \<open>send\<close> calls in the order of the calls, but for calls that fail.
\<close>

theorem network_delivers_sent_chunks:
  assumes "session_started s" and "session_started (transport t)" and "fresh_stream t"
    and "same_session (crypto s) (crypto (transport t))"
    and "list_all (session_event r) es" and "length es < 2 ^ 31 - 2" and "single_sender s es"
    and "list_all (receiver_stream_event r (snd ` set (data_wires (snd (phz_run s es))))) rs"
    and "fed t [] rs"
  shows "prefix (received (snd (stream_run t rs))) (map snd (sent_log s es))
    \<and> subseq (map snd (sent_log s es)) (send_calls es)"
proof
  let ?L = "sent_log s es" and ?W = "snd ` set (data_wires (snd (phz_run s es)))"
  let ?cs = "received (snd (stream_run t rs))"
  have "history r (crypto s) (fst (phz_run s es)) (snd (phz_run s es)) ?L"
    by (rule session_history [OF assms(1,5,6)])
  then have L: "sorted_wrt (<) (map fst ?L)" "\<forall>k \<in> set (map fst ?L). 1 \<le> k"
    and known: "\<And>w. w \<in> set (data_wires (snd (phz_run s es))) \<Longrightarrow> known_datagram r (crypto s) ?L w"
    by (auto simp: history_def)
  have d: "distinct (map fst ?L)" using L(1) strict_sorted_iff by blast
  have arr: "\<forall>d \<in> ?W. d \<noteq> [] \<longrightarrow> arrives r (crypto s) ?L d"
    using known receive_image_type(2) [of "replicate 1436 0"]
    by (fastforce simp: known_datagram_def arrives_def)
  have ok: "list_all (packet_event_ok (logged ?L x)) rs \<and> \<not> list_ex restarts rs" for x
  proof (rule fed_packets_genuine [OF _ assms(4) d arr assms(8,9)])
    show "takes (logged ?L x) (crypto (transport t)) (transport t)"
      using assms(2) by (auto simp: takes_def session_started_def phz_inv_def genuine_def list_all_iff)
  qed simp
  have "stream_inv (logged ?L x) [] t" for x
    using assms(3) reorder_inv_start [of "logged ?L x"]
    by (simp add: stream_inv_def fresh_stream_def content_def aq_init_def aq_inv_def)
  then have "stream_inv (logged ?L x) ?cs (fst (stream_run t rs))" for x
    using stream_run_inv [of "logged ?L x" "[]" t rs] ok [of x] by simp
  then have "\<exists>k. ?cs = content (logged ?L x) k" for x
    using content_prefix unfolding stream_inv_def by (metis (no_types))
  then have "?cs = content (logged ?L x) (length ?cs)" for x
    by (metis content_def length_map length_upt minus_nat.diff_0)
  then show "prefix ?cs (map snd ?L)" by (rule content_prefix_of_log [OF L])
  show "subseq (map snd ?L) (send_calls es)"
    using log_of_calls [OF assms(7,5)] assms(1) by (simp add: session_started_def)
qed

subsection \<open>A concrete session\<close>

definition sample_stream :: "u8 stream" where
  "sample_stream = (stream_new RESPONDER sample_endpoint (crypto_new [] [] []))\<lparr>transport := sample_receiver\<rparr>"

definition sample_cipher :: bytes where
  "sample_cipher = replicate 12 7 @ [1, 2, 3] @ replicate 16 0"

definition sample_datagram :: bytes where
  "sample_datagram = wire (with_ciphertext sample_cipher (with_sequence 1 (stream_packet [1, 2, 3])))"

definition sample_arrival :: "u8 stream_event" where
  "sample_arrival = Se_transport (Ev_datagram sample_ssl 0 sample_endpoint (replicate 1436 0) sample_datagram)"

definition sample_packet :: phz_packet where
  "sample_packet = with_plaintext [1, 2, 3] (receive_image (replicate 1436 0) sample_datagram)"

definition sample_receives :: "u8 stream_event list" where
  "sample_receives = [sample_arrival, sample_arrival, Se_transport (Ev_pop 0),
     Se_packet (Inr sample_packet), Se_receive 0 no_error]"

lemma sample_carries: "carries_chunk sample_ssl (crypto sample_sender) 1 [1, 2, 3] sample_datagram"
proof -
  have "encrypt_data sample_ssl (crypto sample_sender) [1, 2, 3] = Inr sample_cipher"
    by (simp add: encrypt_data_def sample_sender_state phz_new_def sample_ssl_def sample_cipher_def)
  moreover have "deciphers sample_ssl sample_ssl" using deciphers_same sample_ssl_correct by blast
  ultimately show ?thesis
    unfolding carries_chunk_def sample_datagram_def
    by (intro conjI exI [of _ sample_ssl] exI [of _ sample_cipher])
      (simp_all add: chunk_ok_def sample_cipher_def)
qed

lemma sample_arrives:
  "ph_type (header (receive_image (replicate 1436 0) sample_datagram)) = type_code DATA"
  "seq_of (receive_image (replicate 1436 0) sample_datagram) = 1"
  "decrypt_data sample_ssl (crypto sample_receiver)
     (payload_of (receive_image (replicate 1436 0) sample_datagram)) = Inr [1, 2, 3]"
  "payload_of sample_packet = [1, 2, 3]"
  using carried_chunk_arrives [OF sample_carries, of "replicate 1436 0" "crypto sample_receiver"]
    sample_sessions(3) by (simp_all add: same_session_def sample_packet_def)

lemma sample_size: "size_of (receive_image (replicate 1436 0) sample_datagram) = 31"
proof -
  have "packet_wf (with_sequence 1 (stream_packet [1, 2, 3]))"
    using stream_packet_facts(4) [of "[1, 2, 3]"] by (simp add: chunk_ok_def)
  then have w: "packet_wf (with_ciphertext sample_cipher (with_sequence 1 (stream_packet [1, 2, 3])))"
    "size_of (with_ciphertext sample_cipher (with_sequence 1 (stream_packet [1, 2, 3]))) = 31"
    by (simp_all add: with_ciphertext_facts sample_cipher_def)
  show ?thesis
    using receive_image_wire(1) [of "replicate 1436 0", OF _ w(1)] w(2) by (simp add: sample_datagram_def)
qed

definition sample_sent :: "u8 event list" where
  "sample_sent = [Ev_send sample_ssl 0 (stream_packet [1, 2, 3]), Ev_resend [0, 1]]"

lemma sample_packet_header:
  "ph_type (header sample_packet) = type_code DATA" "seq_of sample_packet = 1"
  "with_plaintext [1, 2, 3] (receive_image (replicate 1436 0) sample_datagram) = sample_packet"
  using sample_arrives(1,2) by (simp_all add: sample_packet_def) (simp_all add: with_plaintext_def)

lemma sample_iteration:
  assumes "connection_encrypted s" "loop_error s = no_error" "peer_endpoint s = sample_endpoint"
    and "crypto s = \<lparr>is_ready = True, key_handle = Some 5, own_public_key = replicate 32 5,
        peer_public_key = replicate 32 3, encryption_key = replicate 32 15\<rparr>"
  shows "receive_iteration sample_ssl 0 sample_endpoint (replicate 1436 0) sample_datagram s
    = (let s1 = s\<lparr>peer_endpoint := sample_endpoint, peer_endpoint_known := True, last_peer_activity := 0\<rparr>
       in if 1 \<in> received_packets s then (s1, send_ack 1 s1)
          else (fst (accept_packet sample_packet s1), send_ack 1 s1 @ snd (accept_packet sample_packet s1)))"
proof -
  have "crypto s = crypto sample_receiver" using assms(4) by (simp add: sample_receiver_state phz_new_def)
  then show ?thesis
    using assms(1-3) sample_arrives(3)
    by (simp add: receive_iteration_def on_datagram_def on_data_def Let_def sample_arrives(1,2)
        sample_packet_header(3) sample_size split_beta)
qed

lemma sample_received:
  "received (snd (stream_run sample_stream sample_receives)) = [[1, 2, 3]]"
  "fed sample_stream [] sample_receives"
  by (simp_all add: sample_receives_def sample_arrival_def sample_stream_def sample_iteration
     accept_packet_def push_received_def receive_packet_begin_def stream_new_def chunks_iteration_def
     sample_receiver_state phz_new_def aq_init_def aq_push_def aq_pop_def delivered_def send_ack_def
     receive_chunk_def sample_packet_header sample_arrives chunk_loop_start_def SEQUENCE_WINDOW_SIZE_def
     MAX_PACKETS_BUFFER_def flush_ready.simps push_chunk_def with_ready_def stream_receive_def
     receive_end_def Let_def)

lemma sample_stream_packet:
  "size_of (stream_packet [1, 2, 3]) = 3" "payload_of (stream_packet [1, 2, 3]) = [1, 2, 3]"
  "payload_of (with_sequence n (stream_packet [1, 2, 3])) = [1, 2, 3]"
  "ph_type (header (stream_packet [1, 2, 3])) = type_code DATA"
  using stream_packet_facts [of "[1, 2, 3]"]
  by (simp_all add: chunk_ok_def) (simp add: payload_of_def with_sequence_def)

lemma sample_sent_wires:
  "sample_datagram \<in> snd ` set (data_wires (snd (phz_run sample_sender sample_sent)))"
proof -
  have "encrypt_data sample_ssl (crypto sample_sender) [1, 2, 3] = Inr sample_cipher"
    by (simp add: encrypt_data_def sample_sender_state phz_new_def sample_ssl_def sample_cipher_def)
  then have "phz_step sample_sender (Ev_send sample_ssl 0 (stream_packet [1, 2, 3]))
      = register_packet 0 (with_ciphertext sample_cipher (with_sequence 1 (stream_packet [1, 2, 3])))
          (sample_sender\<lparr>sequence_counter := 2\<rparr>)"
    by (simp add: send_packet_def send_continue_def window_full_def transmit_def Let_def
        sample_stream_packet sample_sender_state phz_new_def av_init_def av_get_def INITIAL_CWND_def
        MAX_IN_FLIGHT_def double_to_size_def sample_cipher_def)
  moreover have "ph_type (header (with_ciphertext sample_cipher (with_sequence 1 (stream_packet [1, 2, 3]))))
      = type_code DATA"
    by (simp add: with_ciphertext_def sample_stream_packet)
  ultimately show ?thesis
    by (simp add: sample_sent_def split_beta Let_def register_packet_def sample_datagram_def)
qed

theorem network_delivers_sent_chunks_witness:
  "received (snd (stream_run sample_stream sample_receives)) = [[1, 2, 3]]
   \<and> prefix [[1, 2, 3]] (map snd (sent_log sample_sender sample_sent))
   \<and> subseq (map snd (sent_log sample_sender sample_sent)) [[1, 2, 3]]"
proof -
  have t: "transport sample_stream = sample_receiver" "fresh_stream sample_stream"
    by (simp_all add: sample_stream_def fresh_stream_def stream_new_def)
  have ev: "list_all (session_event sample_ssl) sample_sent"
    using deciphers_same [OF sample_ssl_correct(2,3)]
    by (simp add: sample_sent_def sample_stream_packet chunk_ok_def)
  have one: "single_sender sample_sender sample_sent"
    using sample_sessions(1) by (simp add: sample_sent_def session_started_def)
  have "sample_datagram \<noteq> []" by (simp add: sample_datagram_def wire_eq header_bytes_def)
  then have rs: "list_all (receiver_stream_event sample_ssl
      (snd ` set (data_wires (snd (phz_run sample_sender sample_sent))))) sample_receives"
    using sample_sent_wires
    by (simp add: sample_receives_def sample_arrival_def receiver_stream_event_def restarts_def)
  have "prefix (received (snd (stream_run sample_stream sample_receives)))
        (map snd (sent_log sample_sender sample_sent))
      \<and> subseq (map snd (sent_log sample_sender sample_sent)) (send_calls sample_sent)"
    by (rule network_delivers_sent_chunks [OF sample_sessions(1) _ t(2) _ ev _ one rs sample_received(2)])
      (simp_all add: t sample_sessions sample_sent_def)
  then show ?thesis
    by (simp add: sample_received sample_sent_def sample_stream_packet)
qed

end
