(* ===== verification/Filesystem.thy ===== *)
theory Filesystem
  imports Prelude
begin

text \<open>
  The part of \<open>std::filesystem\<close> (libstdc++ over POSIX) that the program uses, on an explicit
  store: path resolution with symbolic links, \<open>status\<close>, \<open>symlink_status\<close>,
  \<open>create_directory\<close>, \<open>create_directories\<close>, \<open>create_symlink\<close>, \<open>rename\<close>, \<open>remove_all\<close>,
  and opening, writing and closing a file. The store maps the canonical absolute path of an
  entry to its node; permissions, name lengths and disk space are not modelled (a failing
  write is an input of the operation). Error values are POSIX \<open>errno\<close> numbers.
\<close>

subsection \<open>The store\<close>

type_synonym path = "string list"

datatype node = File bytes | Directory | Link string

type_synonym fs = "(path \<times> node) list"

definition lookup :: "fs \<Rightarrow> path \<Rightarrow> node option" where
  "lookup fs p = (if p = [] then Some Directory else map_of fs p)"

definition put_node :: "path \<Rightarrow> node \<Rightarrow> fs \<Rightarrow> fs" where
  "put_node p n fs = AList.update p n fs"

definition below :: "path \<Rightarrow> path \<Rightarrow> bool" where
  "below d p \<longleftrightarrow> take (length d) p = d \<and> length d < length p"

abbreviation "ENOENT \<equiv> (2 :: int)"
abbreviation "EEXIST \<equiv> (17 :: int)"
abbreviation "ENOTDIR \<equiv> (20 :: int)"
abbreviation "EISDIR \<equiv> (21 :: int)"
abbreviation "ELOOP \<equiv> (40 :: int)"

subsection \<open>Path strings\<close>

fun split_slash :: "string \<Rightarrow> string list" where
  "split_slash [] = [[]]"
| "split_slash (c # cs) =
     (if c = CHR ''/'' then [] # split_slash cs
      else (c # hd (split_slash cs)) # tl (split_slash cs))"

definition absolute :: "string \<Rightarrow> bool" where
  "absolute s \<longleftrightarrow> (case s of [] \<Rightarrow> False | c # _ \<Rightarrow> c = CHR ''/'')"

text \<open>
  The elements of a relative \<open>std::filesystem::path\<close>: repeated separators count once, a
  trailing separator gives a last empty element.
\<close>

definition path_elements :: "string \<Rightarrow> path" where
  "path_elements s =
     filter (\<lambda>c. c \<noteq> []) (split_slash s)
     @ (if s \<noteq> [] \<and> last s = CHR ''/'' then [[]] else [])"

text \<open>System calls see a path up to its first NUL character.\<close>

definition has_nul :: "string \<Rightarrow> bool" where
  "has_nul s \<longleftrightarrow> CHR 0x00 \<in> set s"

definition c_str :: "string \<Rightarrow> string" where
  "c_str s = takeWhile (\<lambda>c. c \<noteq> CHR 0x00) s"

fun os_path :: "path \<Rightarrow> path" where
  "os_path [] = []"
| "os_path (c # cs) = (if has_nul c then [c_str c] else c # os_path cs)"

subsection \<open>Path resolution\<close>

datatype resolved = At path | Missing path | Unresolved int

text \<open>
  Resolution of the elements \<open>cs\<close> from the directory \<open>cur\<close>; \<open>n\<close> symbolic links may be
  followed on the way (the kernel's limit is 40), the last one only if \<open>follow\<close>. \<open>Missing\<close>
  is a path that could be created: its directory exists.
\<close>

function walk :: "nat \<Rightarrow> bool \<Rightarrow> fs \<Rightarrow> path \<Rightarrow> string list \<Rightarrow> resolved" where
  "walk n follow fs cur [] = At cur"
| "walk n follow fs cur (c # cs) =
     (case lookup fs cur of
        Some Directory \<Rightarrow>
          if c = [] \<or> c = ''.'' then walk n follow fs cur cs
          else if c = ''..'' then walk n follow fs (butlast cur) cs
          else (case lookup fs (cur @ [c]) of
             None \<Rightarrow> if cs = [] then Missing (cur @ [c]) else Unresolved ENOENT
           | Some (Link t) \<Rightarrow>
               if cs = [] \<and> \<not> follow then At (cur @ [c])
               else (case n of
                  0 \<Rightarrow> Unresolved ELOOP
                | Suc m \<Rightarrow> walk m follow fs (if absolute t then [] else cur) (split_slash t @ cs))
           | Some x \<Rightarrow> walk n follow fs (cur @ [c]) cs)
      | None \<Rightarrow> Unresolved ENOENT
      | Some x \<Rightarrow> Unresolved ENOTDIR)"
  by pat_completeness auto

termination walk
  by (relation "measures [\<lambda>(n, follow, fs, cur, cs). n, \<lambda>(n, follow, fs, cur, cs). length cs]") auto

definition MAXSYMLINKS :: nat where "MAXSYMLINKS = 40"

definition resolve :: "bool \<Rightarrow> fs \<Rightarrow> path \<Rightarrow> path \<Rightarrow> resolved" where
  "resolve follow fs base es = walk MAXSYMLINKS follow fs base (os_path es)"

subsection \<open>Operations\<close>

text \<open>
  \<open>create_directories\<close>: existing directories are descended into (through links too), a
  missing one is created; a link to nothing blocks the creation.
\<close>

fun make_dirs :: "fs \<Rightarrow> path \<Rightarrow> string list \<Rightarrow> fs \<times> int" where
  "make_dirs fs cur [] = (fs, 0)"
| "make_dirs fs cur (c # cs) =
     (case walk MAXSYMLINKS True fs cur [c] of
        At q \<Rightarrow> if lookup fs q = Some Directory then make_dirs fs q cs else (fs, ENOTDIR)
      | Missing q \<Rightarrow>
          if q = cur @ [c] then make_dirs (put_node q Directory fs) q cs else (fs, EEXIST)
      | Unresolved e \<Rightarrow> (fs, if e = ENOENT \<or> e = ENOTDIR then EEXIST else e))"

definition create_directories :: "fs \<Rightarrow> path \<Rightarrow> path \<Rightarrow> fs \<times> int" where
  "create_directories fs base es = make_dirs fs base (os_path es)"

text \<open>Opening an \<open>ofstream\<close> with \<open>trunc\<close>: the resolved file, emptied or created.\<close>

definition open_trunc :: "fs \<Rightarrow> path \<Rightarrow> path \<Rightarrow> (fs \<times> path) option" where
  "open_trunc fs base es =
     (case resolve True fs base es of
        At q \<Rightarrow> (case lookup fs q of
           Some (File d) \<Rightarrow> Some (put_node q (File []) fs, q)
         | _ \<Rightarrow> None)
      | Missing q \<Rightarrow> Some (put_node q (File []) fs, q)
      | Unresolved e \<Rightarrow> None)"

text \<open>Writing at an offset of an open file.\<close>

definition write_at :: "nat \<Rightarrow> bytes \<Rightarrow> bytes \<Rightarrow> bytes" where
  "write_at off d old =
     take off old @ replicate (off - length old) 0 @ d @ drop (off + length d) old"

definition write_file :: "path \<Rightarrow> nat \<Rightarrow> bytes \<Rightarrow> fs \<Rightarrow> fs" where
  "write_file q off d fs =
     (case lookup fs q of Some (File old) \<Rightarrow> put_node q (File (write_at off d old)) fs | _ \<Rightarrow> fs)"

text \<open>\<open>symlink_status\<close>: the node itself, \<open>None\<close> when there is none; other failures are errors.\<close>

definition symlink_status :: "fs \<Rightarrow> path \<Rightarrow> path \<Rightarrow> int + node option" where
  "symlink_status fs base es =
     (case resolve False fs base es of
        At q \<Rightarrow> Inr (lookup fs q)
      | Missing q \<Rightarrow> Inr None
      | Unresolved e \<Rightarrow> if e = ENOENT \<or> e = ENOTDIR then Inr None else Inl e)"

definition make_symlink :: "fs \<Rightarrow> path \<Rightarrow> path \<Rightarrow> string \<Rightarrow> fs \<times> int" where
  "make_symlink fs base es target =
     (if c_str target = [] then (fs, ENOENT)
      else case resolve False fs base es of
        At q \<Rightarrow> (fs, EEXIST)
      | Missing q \<Rightarrow> (put_node q (Link (c_str target)) fs, 0)
      | Unresolved e \<Rightarrow> (fs, e))"

text \<open>\<open>rename\<close> of a file or link (never of a directory here).\<close>

definition rename_node :: "fs \<Rightarrow> path \<Rightarrow> path \<Rightarrow> path \<Rightarrow> fs \<times> int" where
  "rename_node fs src base es =
     (case lookup fs src of
        None \<Rightarrow> (fs, ENOENT)
      | Some n \<Rightarrow>
          (case resolve False fs base es of
             At q \<Rightarrow> if lookup fs q = Some Directory then (fs, EISDIR)
                     else (put_node q n (if q = src then fs else AList.delete src fs), 0)
           | Missing q \<Rightarrow> (put_node q n (AList.delete src fs), 0)
           | Unresolved e \<Rightarrow> (fs, e)))"

definition remove_tree :: "path \<Rightarrow> fs \<Rightarrow> fs" where
  "remove_tree d fs = filter (\<lambda>(p, n). p \<noteq> d \<and> \<not> below d p) fs"

definition entries_below :: "path \<Rightarrow> fs \<Rightarrow> path list" where
  "entries_below d fs = filter (below d) (map fst fs)"

subsection \<open>Lemmas\<close>

lemma lookup_root [simp]: "lookup fs [] = Some Directory"
  by (simp add: lookup_def)

lemma lookup_put [simp]:
  "p \<noteq> [] \<Longrightarrow> lookup (put_node p n fs) q = (if q = p then Some n else lookup fs q)"
  by (auto simp: lookup_def put_node_def update_conv')

lemma lookup_delete:
  "p \<noteq> [] \<Longrightarrow> lookup (AList.delete p fs) q = (if q = p then None else lookup fs q)"
  by (auto simp: lookup_def delete_conv')

lemma lookup_remove_tree:
  assumes "d \<noteq> []"
  shows "lookup (remove_tree d fs) p = (if p = d \<or> below d p then None else lookup fs p)"
proof -
  have "map_of (remove_tree d fs) p = (if p = d \<or> below d p then None else map_of fs p)"
    by (induction fs) (auto simp: remove_tree_def)
  moreover have "\<not> below d []" by (simp add: below_def)
  ultimately show ?thesis using assms by (auto simp: lookup_def)
qed

lemma split_slash_nonempty [simp]: "split_slash s \<noteq> []"
  by (induction s) auto

text \<open>A store is well formed when the parent of every entry is a directory.\<close>

definition fs_wf :: "fs \<Rightarrow> bool" where
  "fs_wf fs \<longleftrightarrow> (\<forall>p c. lookup fs (p @ [c]) \<noteq> None \<longrightarrow> lookup fs p = Some Directory)"

lemma fs_wfD: "fs_wf fs \<Longrightarrow> lookup fs (p @ [c]) = Some x \<Longrightarrow> lookup fs p = Some Directory"
  by (auto simp: fs_wf_def)

lemma fs_wf_prefix:
  assumes "fs_wf fs" "lookup fs (p @ q) \<noteq> None" "q \<noteq> []"
  shows "lookup fs p = Some Directory"
  using assms(2,3)
proof (induction q rule: rev_induct)
  case (snoc c q)
  have "lookup fs (p @ q) = Some Directory"
    using fs_wfD [OF assms(1), of "p @ q" c] snoc.prems(1) by auto
  then show ?case using snoc.IH by (cases "q = []") auto
qed simp

lemma fs_wf_put:
  assumes "fs_wf fs" "lookup fs p = Some Directory" "lookup fs (p @ [c]) \<noteq> Some Directory"
  shows "fs_wf (put_node (p @ [c]) n fs)"
proof -
  have none: "lookup fs (p @ [c, d]) = None" for d
    using fs_wfD [OF assms(1), of "p @ [c]" d] assms(3) by (cases "lookup fs (p @ [c, d])") auto
  show ?thesis unfolding fs_wf_def
  proof (intro allI impI)
    fix q d assume "lookup (put_node (p @ [c]) n fs) (q @ [d]) \<noteq> None"
    then have *: "q @ [d] = p @ [c] \<or> lookup fs (q @ [d]) \<noteq> None" by (auto split: if_splits)
    then have "lookup fs q = Some Directory"
      using assms(1,2) by (auto simp: fs_wf_def)
    moreover have "q \<noteq> p @ [c]" using * none [of d] by auto
    ultimately show "lookup (put_node (p @ [c]) n fs) q = Some Directory" by simp
  qed
qed

lemma below_append [simp]: "below d (d @ r) \<longleftrightarrow> r \<noteq> []"
  by (auto simp: below_def)

lemma below_iff: "below d p \<longleftrightarrow> (\<exists>r. r \<noteq> [] \<and> p = d @ r)"
  by (auto simp: below_def) (metis append_take_drop_id drop_eq_Nil not_le)

definition no_links :: "path \<Rightarrow> fs \<Rightarrow> bool" where
  "no_links d fs \<longleftrightarrow> (\<forall>p t. below d p \<longrightarrow> lookup fs p \<noteq> Some (Link t))"

lemma no_linksD: "no_links d fs \<Longrightarrow> r \<noteq> [] \<Longrightarrow> lookup fs (d @ r) \<noteq> Some (Link t)"
  by (simp add: no_links_def)

text \<open>
  Resolution in a tree without links, of a path that has \<open>..\<close> at most as its last element:
  it ends inside the tree, or at an existing directory.
\<close>

lemma walk_confined:
  assumes "fs_wf fs" "no_links d fs" "''..'' \<notin> set (butlast cs)"
  shows "case walk n follow fs (d @ r) cs of
      At q \<Rightarrow> (\<exists>s. q = d @ s) \<or> lookup fs q = Some Directory
    | Missing q \<Rightarrow> (\<exists>s c. q = d @ s @ [c] \<and> lookup fs (d @ s) = Some Directory \<and> lookup fs q = None)
    | Unresolved e \<Rightarrow> True"
  using assms(3)
proof (induction cs arbitrary: r)
  case (Cons c cs)
  have up: "lookup fs (butlast p) = Some Directory" if "lookup fs p = Some Directory" for p
    using that assms(1) by (cases p rule: rev_cases) (auto dest: fs_wfD)
  have rest: "''..'' \<notin> set (butlast cs)" using Cons.prems by (auto split: if_splits)
  show ?case
  proof (cases "lookup fs (d @ r) = Some Directory \<and> c \<noteq> [] \<and> c \<noteq> ''.'' \<and> c \<noteq> ''..''")
    case True
    then show ?thesis
      using Cons.IH [of "r @ [c]"] rest no_linksD [OF assms(2), of "r @ [c]"]
      by (auto split: option.split node.split)
  next
    case False
    have "c = ''..'' \<Longrightarrow> cs = []" using Cons.prems by (auto split: if_splits)
    then show ?thesis
      using Cons.IH [of r] rest False up [of "d @ r"]
      by (auto split: option.split node.split)
  qed
qed simp

definition same_outside :: "path \<Rightarrow> fs \<Rightarrow> fs \<Rightarrow> bool" where
  "same_outside d fs fs' \<longleftrightarrow> (\<forall>p. \<not> below d p \<longrightarrow> lookup fs' p = lookup fs p)"

lemma same_outside_refl [simp]: "same_outside d fs fs"
  by (simp add: same_outside_def)

lemma same_outside_trans:
  "same_outside d a b \<Longrightarrow> same_outside d b c \<Longrightarrow> same_outside d a c"
  by (simp add: same_outside_def)

definition tree_ok :: "path \<Rightarrow> fs \<Rightarrow> bool" where
  "tree_ok d fs \<longleftrightarrow> fs_wf fs \<and> no_links d fs \<and> lookup fs d = Some Directory"

lemma tree_ok_put:
  assumes "tree_ok d fs" "lookup fs (d @ s) = Some Directory" "lookup fs (d @ s @ [c]) \<noteq> Some Directory"
    "\<nexists>t. n = Link t"
  shows "tree_ok d (put_node (d @ s @ [c]) n fs)" "same_outside d fs (put_node (d @ s @ [c]) n fs)"
proof -
  have "fs_wf (put_node ((d @ s) @ [c]) n fs)"
    using assms by (intro fs_wf_put) (auto simp: tree_ok_def)
  moreover have "d \<noteq> d @ s @ [c]" by simp
  ultimately show "tree_ok d (put_node (d @ s @ [c]) n fs)"
    using assms by (auto simp: tree_ok_def no_links_def)
  show "same_outside d fs (put_node (d @ s @ [c]) n fs)"
    by (auto simp: same_outside_def)
qed

lemma make_dirs_confined:
  assumes "tree_ok d fs" "''..'' \<notin> set (butlast cs)"
  shows "tree_ok d (fst (make_dirs fs (d @ r) cs))
    \<and> same_outside d fs (fst (make_dirs fs (d @ r) cs))"
  using assms
proof (induction cs arbitrary: fs r)
  case (Cons c cs)
  have rest: "''..'' \<notin> set (butlast cs)" using Cons.prems(2) by (auto split: if_splits)
  have wf: "fs_wf fs" "no_links d fs" using Cons.prems(1) by (simp_all add: tree_ok_def)
  note w = walk_confined [OF wf, of "[c]" MAXSYMLINKS True r]
  show ?case
  proof (cases "walk MAXSYMLINKS True fs (d @ r) [c]")
    case (At q)
    show ?thesis
    proof (cases "c = ''..''")
      case True
      then have "cs = []" using Cons.prems(2) by (auto split: if_splits)
      then show ?thesis using At Cons.prems(1) by simp
    next
      case False
      have wc: "\<exists>s. q = d @ s"
        using At False no_linksD [OF wf(2), of "r @ [c]"]
        by (auto split: option.splits node.splits if_splits)
      then show ?thesis using At Cons.IH [OF Cons.prems(1) rest] Cons.prems(1) by auto
    qed
  next
    case (Missing q)
    then obtain s e where q: "q = d @ s @ [e]" "lookup fs (d @ s) = Some Directory" "lookup fs q = None"
      using w by auto
    note p = tree_ok_put [OF Cons.prems(1) q(2), of e Directory]
    have pt: "tree_ok d (put_node q Directory fs)" "same_outside d fs (put_node q Directory fs)"
      using p q by simp_all
    show ?thesis
      using Missing Cons.IH [OF pt(1) rest, of "s @ [e]"] pt Cons.prems(1) q(1) same_outside_trans
      by auto
  next
    case (Unresolved e)
    then show ?thesis using Cons.prems(1) by simp
  qed
qed simp

lemma os_path_butlast: "''..'' \<notin> set es \<Longrightarrow> ''..'' \<notin> set (butlast (os_path es))"
  by (induction es rule: os_path.induct) auto

end
