(* ===== verification/File_Builder.thy ===== *)
theory File_Builder
  imports Errors Filesystem
begin

text \<open>
  \<open>File_builder\<close> (\<open>include/utils/file_builder.hpp\<close>, \<open>src/utils/file_builder.cpp\<close>): the
  received tree is built in a staging directory inside the output directory and moved out
  by \<open>commit\<close>. The store of \<open>Filesystem\<close> is passed explicitly. A path member is the
  canonical path it resolved to at construction; whether a write or a close succeeds is an
  input of the operation.
\<close>

subsection \<open>State\<close>

record open_file =
  of_path :: path
  of_offset :: nat
  of_good :: bool

record file_builder =
  builder_root :: path
  staging_root :: "path option"
  open_files :: "(u32 \<times> open_file) list"

definition to_boost_error :: "int \<Rightarrow> error_code" where
  "to_boost_error e = (if e = 0 then no_error else generic_error e)"

text \<open>The constructor: the output directory, then the first free staging name of 100.\<close>

fun decimal :: "nat \<Rightarrow> string" where
  "decimal n =
     (if n < 10 then [char_of (48 + n)] else decimal (n div 10) @ [char_of (48 + n mod 10)])"

declare decimal.simps [simp del]

definition staging_name :: "nat \<Rightarrow> nat \<Rightarrow> nat \<Rightarrow> string" where
  "staging_name pid now attempt =
     ''.filehopz-tmp-'' @ decimal pid @ ''-'' @ decimal now @ ''-'' @ decimal attempt"

fun pick_staging :: "(nat \<Rightarrow> string) \<Rightarrow> path \<Rightarrow> nat list \<Rightarrow> fs \<Rightarrow> path option \<times> fs" where
  "pick_staging name root [] fs = (None, fs)"
| "pick_staging name root (k # ks) fs =
     (if lookup fs (root @ [name k]) = None
      then (Some (root @ [name k]), put_node (root @ [name k]) Directory fs)
      else pick_staging name root ks fs)"

definition file_builder_new ::
  "nat \<Rightarrow> nat \<Rightarrow> path \<Rightarrow> string \<Rightarrow> fs \<Rightarrow> file_builder \<times> fs" where
  "file_builder_new pid now cwd root fs =
     (let base = (if absolute root then [] else cwd);
          es = path_elements root;
          none = \<lparr>builder_root = [], staging_root = None, open_files = []\<rparr> in
      if root = [] then (none, fs)
      else case create_directories fs base es of
        (fs1, e) \<Rightarrow>
          if e \<noteq> 0 then (none, fs1)
          else case resolve True fs1 base es of
            At r \<Rightarrow>
              (let (sp, fs2) = pick_staging (staging_name pid now) r [0..<100] fs1
               in (\<lparr>builder_root = r, staging_root = sp, open_files = []\<rparr>, fs2))
          | _ \<Rightarrow> (none, fs1))"

subsection \<open>Validation of received paths\<close>

definition is_forbidden_path_part :: "string \<Rightarrow> bool" where
  "is_forbidden_path_part part \<longleftrightarrow> part = ''..'' \<or> part = []"

definition validate_relative_path :: "string \<Rightarrow> error_code" where
  "validate_relative_path rel =
     (if rel = [] \<or> absolute rel then invalid_argument
      else if list_ex is_forbidden_path_part (path_elements rel) then invalid_argument
      else no_error)"

subsection \<open>Building the staging tree\<close>

definition create_directory ::
  "string \<Rightarrow> file_builder \<Rightarrow> fs \<Rightarrow> error_code \<times> file_builder \<times> fs" where
  "create_directory rel b fs =
     (case staging_root b of
        None \<Rightarrow> (no_such_file_or_directory, b, fs)
      | Some sp \<Rightarrow>
          let ec = validate_relative_path rel in
          if ec_failed ec then (ec, b, fs)
          else let (fs1, e) = create_directories fs sp (path_elements rel)
               in (to_boost_error e, b, fs1))"

definition create_file ::
  "string \<Rightarrow> u32 \<Rightarrow> file_builder \<Rightarrow> fs \<Rightarrow> error_code \<times> file_builder \<times> fs" where
  "create_file rel fid b fs =
     (case staging_root b of
        None \<Rightarrow> (no_such_file_or_directory, b, fs)
      | Some sp \<Rightarrow>
          let ec = validate_relative_path rel in
          if ec_failed ec then (ec, b, fs)
          else case create_directories fs sp (butlast (path_elements rel)) of
            (fs1, e) \<Rightarrow>
              if e \<noteq> 0 then (to_boost_error e, b, fs1)
              else case open_trunc fs1 sp (path_elements rel) of
                None \<Rightarrow> (make_error_code file_open_failed, b, fs1)
              | Some (fs2, q) \<Rightarrow>
                  (no_error,
                   b\<lparr>open_files := AList.update fid \<lparr>of_path = q, of_offset = 0, of_good = True\<rparr>
                       (open_files b)\<rparr>,
                   fs2))"

definition create_symlink ::
  "string \<Rightarrow> string \<Rightarrow> file_builder \<Rightarrow> fs \<Rightarrow> error_code \<times> file_builder \<times> fs" where
  "create_symlink rel target b fs =
     (case staging_root b of
        None \<Rightarrow> (no_such_file_or_directory, b, fs)
      | Some sp \<Rightarrow>
          let ec = validate_relative_path rel in
          if ec_failed ec then (ec, b, fs)
          else case create_directories fs sp (butlast (path_elements rel)) of
            (fs1, e) \<Rightarrow>
              if e \<noteq> 0 then (to_boost_error e, b, fs1)
              else case symlink_status fs1 sp (path_elements rel) of
                Inl e' \<Rightarrow> (to_boost_error e', b, fs1)
              | Inr (Some n) \<Rightarrow> (file_exists, b, fs1)
              | Inr None \<Rightarrow>
                  (case make_symlink fs1 sp (path_elements rel) target of
                     (fs2, e') \<Rightarrow> (to_boost_error e', b, fs2)))"

definition write_data ::
  "bool \<Rightarrow> bytes \<Rightarrow> u32 \<Rightarrow> file_builder \<Rightarrow> fs \<Rightarrow> error_code \<times> file_builder \<times> fs" where
  "write_data ok d fid b fs =
     (case map_of (open_files b) fid of
        None \<Rightarrow> (make_error_code unknown_file_id, b, fs)
      | Some f \<Rightarrow>
          if of_good f \<and> ok
          then (no_error,
                b\<lparr>open_files := AList.update fid (f\<lparr>of_offset := of_offset f + length d\<rparr>) (open_files b)\<rparr>,
                write_file (of_path f) (of_offset f) d fs)
          else (make_error_code file_write_failed,
                b\<lparr>open_files := AList.update fid (f\<lparr>of_good := False\<rparr>) (open_files b)\<rparr>, fs))"

definition close_file ::
  "bool \<Rightarrow> u32 \<Rightarrow> file_builder \<Rightarrow> fs \<Rightarrow> error_code \<times> file_builder \<times> fs" where
  "close_file ok fid b fs =
     (case map_of (open_files b) fid of
        None \<Rightarrow> (make_error_code unknown_file_id, b, fs)
      | Some f \<Rightarrow>
          if of_good f \<and> ok
          then (no_error, b\<lparr>open_files := AList.delete fid (open_files b)\<rparr>, fs)
          else (make_error_code file_write_failed,
                b\<lparr>open_files := AList.update fid (f\<lparr>of_good := False\<rparr>) (open_files b)\<rparr>, fs))"

subsection \<open>Commit and cleanup\<close>

definition close_all :: "(u32 \<Rightarrow> bool) \<Rightarrow> file_builder \<Rightarrow> error_code \<times> file_builder" where
  "close_all ok b =
     (if list_all (\<lambda>(fid, f). of_good f \<and> ok fid) (open_files b) then no_error
      else make_error_code file_write_failed,
      b\<lparr>open_files := []\<rparr>)"

text \<open>One entry of the staging tree; \<open>p\<close> is its canonical path.\<close>

definition commit_entry :: "path \<Rightarrow> path \<Rightarrow> path \<Rightarrow> fs \<Rightarrow> error_code \<times> fs" where
  "commit_entry root sp p fs =
     (let rel = drop (length sp) p in
      case lookup fs p of
        None \<Rightarrow> (to_boost_error ENOENT, fs)
      | Some Directory \<Rightarrow>
          (case symlink_status fs root rel of
             Inl e \<Rightarrow> (to_boost_error e, fs)
           | Inr st \<Rightarrow>
               if st \<noteq> None \<and> st \<noteq> Some Directory then (file_exists, fs)
               else let (fs1, e) = create_directories fs root rel in (to_boost_error e, fs1))
      | Some n \<Rightarrow>
          (case create_directories fs root (butlast rel) of
             (fs1, e) \<Rightarrow>
               if e \<noteq> 0 then (to_boost_error e, fs1)
               else case symlink_status fs1 root rel of
                 Inl e' \<Rightarrow> (to_boost_error e', fs1)
               | Inr st \<Rightarrow>
                   if st = Some Directory then (is_a_directory, fs1)
                   else let (fs2, e') = rename_node fs1 p root rel in (to_boost_error e', fs2)))"

fun commit_entries :: "path \<Rightarrow> path \<Rightarrow> path list \<Rightarrow> fs \<Rightarrow> error_code \<times> fs" where
  "commit_entries root sp [] fs = (no_error, fs)"
| "commit_entries root sp (p # ps) fs =
     (case commit_entry root sp p fs of
        (ec, fs1) \<Rightarrow> if ec_failed ec then (ec, fs1) else commit_entries root sp ps fs1)"

text \<open>
  \<open>listing\<close> is the order in which the recursive iterator reports the staging tree: a
  directory before its content, otherwise unspecified. The report is that of the tree at the
  start of the loop, which only moves away entries already reported.
\<close>

definition commit ::
  "(u32 \<Rightarrow> bool) \<Rightarrow> (fs \<Rightarrow> path list) \<Rightarrow> file_builder \<Rightarrow> fs \<Rightarrow> error_code \<times> file_builder \<times> fs" where
  "commit ok listing b fs =
     (case staging_root b of
        None \<Rightarrow> (no_such_file_or_directory, b, fs)
      | Some sp \<Rightarrow>
          (case close_all ok b of
             (ec, b1) \<Rightarrow>
               if ec_failed ec then (ec, b1, fs)
               else case commit_entries (builder_root b) sp (listing fs) fs of
                 (ec', fs1) \<Rightarrow>
                   if ec_failed ec' then (ec', b1, fs1) else (no_error, b1, remove_tree sp fs1)))"

definition cleanup :: "(u32 \<Rightarrow> bool) \<Rightarrow> file_builder \<Rightarrow> fs \<Rightarrow> file_builder \<times> fs" where
  "cleanup ok b fs =
     (case staging_root b of
        None \<Rightarrow> (b, fs)
      | Some sp \<Rightarrow> (snd (close_all ok b), remove_tree sp fs))"

subsection \<open>Operations as a run\<close>

datatype builder_op =
  Create_directory string
| Create_file string u32
| Create_symlink string string
| Write bool bytes u32
| Close_file bool u32

fun builder_step :: "builder_op \<Rightarrow> file_builder \<Rightarrow> fs \<Rightarrow> error_code \<times> file_builder \<times> fs" where
  "builder_step (Create_directory rel) b fs = create_directory rel b fs"
| "builder_step (Create_file rel fid) b fs = create_file rel fid b fs"
| "builder_step (Create_symlink rel target) b fs = create_symlink rel target b fs"
| "builder_step (Write ok d fid) b fs = write_data ok d fid b fs"
| "builder_step (Close_file ok fid) b fs = close_file ok fid b fs"

definition builder_next :: "file_builder \<times> fs \<Rightarrow> builder_op \<Rightarrow> file_builder \<times> fs" where
  "builder_next s x = snd (builder_step x (fst s) (snd s))"

definition builder_run :: "builder_op list \<Rightarrow> file_builder \<Rightarrow> fs \<Rightarrow> file_builder \<times> fs" where
  "builder_run ops b fs = run_steps builder_next (b, fs) ops"

subsection \<open>Confinement\<close>

lemma walk_Missing: "walk n follow fs cur cs = Missing q \<Longrightarrow> lookup fs q = None"
  by (induction n follow fs cur cs rule: walk.induct)
    (auto split: option.splits node.splits if_splits nat.splits)

definition keeps :: "fs \<Rightarrow> fs \<Rightarrow> bool" where
  "keeps fs fs' \<longleftrightarrow> (\<forall>p n. lookup fs p = Some n \<longrightarrow> lookup fs' p = Some n)"

lemma make_dirs_keeps: "keeps fs (fst (make_dirs fs cur cs))"
proof (induction cs arbitrary: fs cur)
  case (Cons c cs)
  have "keeps fs (fst (make_dirs (put_node q Directory fs) q cs))"
    if "walk MAXSYMLINKS True fs cur [c] = Missing q" "q = cur @ [c]" for q
  proof -
    have "keeps fs (put_node q Directory fs)"
      using walk_Missing [OF that(1)] that(2) by (auto simp: keeps_def)
    then show ?thesis using Cons.IH [of "put_node q Directory fs" q] unfolding keeps_def by blast
  qed
  then show ?case
    using Cons.IH [of fs] by (auto simp: keeps_def split: resolved.split)
qed (simp add: keeps_def)

definition open_ok :: "path \<Rightarrow> fs \<Rightarrow> u32 \<times> open_file \<Rightarrow> bool" where
  "open_ok sp fs e \<longleftrightarrow>
     (\<exists>s c. of_path (snd e) = sp @ s @ [c]) \<and> (\<exists>d. lookup fs (of_path (snd e)) = Some (File d))"

definition builder_inv :: "path \<Rightarrow> file_builder \<Rightarrow> fs \<Rightarrow> bool" where
  "builder_inv sp b fs \<longleftrightarrow>
     staging_root b = Some sp \<and> tree_ok sp fs \<and> list_all (open_ok sp fs) (open_files b)"

text \<open>The contract of an operation: the invariant is kept, nothing outside the staging changes.\<close>

definition confined :: "path \<Rightarrow> fs \<Rightarrow> error_code \<times> file_builder \<times> fs \<Rightarrow> bool" where
  "confined sp fs r \<longleftrightarrow> builder_inv sp (fst (snd r)) (snd (snd r)) \<and> same_outside sp fs (snd (snd r))"

lemma open_ok_keeps: "keeps fs fs' \<Longrightarrow> list_all (open_ok sp fs) es \<Longrightarrow> list_all (open_ok sp fs') es"
  unfolding open_ok_def keeps_def list_all_iff by blast

lemma open_ok_put:
  "p \<noteq> [] \<Longrightarrow> list_all (open_ok sp fs) es \<Longrightarrow> list_all (open_ok sp (put_node p (File d) fs)) es"
  by (auto simp: open_ok_def list_all_iff)

lemma list_all_update:
  "list_all P m \<Longrightarrow> P (k, v) \<Longrightarrow> list_all P (AList.update k v m)"
  using set_update_subset [of k v m] by (auto simp: list_all_iff)

lemma list_all_delete: "list_all P m \<Longrightarrow> list_all P (AList.delete k m)"
  using set_delete_subset [of k m] by (auto simp: list_all_iff)

lemma validate_no_dotdot:
  "\<not> ec_failed (validate_relative_path rel) \<Longrightarrow> ''..'' \<notin> set (path_elements rel)"
  by (auto simp: validate_relative_path_def is_forbidden_path_part_def list_ex_iff
      invalid_argument_def generic_error_def ec_failed_def split: if_splits)

lemma create_directories_confined:
  assumes "builder_inv sp b fs" "''..'' \<notin> set es"
  shows "builder_inv sp b (fst (create_directories fs sp es))"
    "same_outside sp fs (fst (create_directories fs sp es))"
  using make_dirs_confined [of sp fs "os_path es" "[]"] os_path_butlast [OF assms(2)] assms(1)
    open_ok_keeps [OF make_dirs_keeps]
  by (auto simp: builder_inv_def create_directories_def)

lemma tree_ok_put_file:
  assumes "tree_ok sp fs" "lookup fs (sp @ s @ [c]) = Some (File x)
      \<or> lookup fs (sp @ s @ [c]) = None \<and> lookup fs (sp @ s) = Some Directory"
  shows "tree_ok sp (put_node (sp @ s @ [c]) (File d) fs)"
    "same_outside sp fs (put_node (sp @ s @ [c]) (File d) fs)"
proof -
  have "lookup fs (sp @ s) = Some Directory"
    using assms fs_wfD [of fs "sp @ s" c] by (auto simp: tree_ok_def)
  then show "tree_ok sp (put_node (sp @ s @ [c]) (File d) fs)"
    "same_outside sp fs (put_node (sp @ s @ [c]) (File d) fs)"
    using assms by (auto intro!: tree_ok_put)
qed

lemma open_trunc_confined:
  assumes "builder_inv sp b fs" "''..'' \<notin> set es" "open_trunc fs sp es = Some (fs', q)"
  shows "builder_inv sp b fs'" "same_outside sp fs fs'" "open_ok sp fs' (fid, \<lparr>of_path = q, of_offset = 0, of_good = True\<rparr>)"
proof -
  have t: "tree_ok sp fs" "fs_wf fs" "no_links sp fs" "list_all (open_ok sp fs) (open_files b)"
    using assms(1) by (simp_all add: builder_inv_def tree_ok_def)
  have w: "case resolve True fs sp es of
      At q \<Rightarrow> (\<exists>s. q = sp @ s) \<or> lookup fs q = Some Directory
    | Missing q \<Rightarrow> (\<exists>s c. q = sp @ s @ [c] \<and> lookup fs (sp @ s) = Some Directory \<and> lookup fs q = None)
    | Unresolved e \<Rightarrow> True"
    using walk_confined [OF t(2,3) os_path_butlast [OF assms(2)], of MAXSYMLINKS True "[]"]
    by (simp add: resolve_def)
  have "\<exists>s c x. q = sp @ s @ [c] \<and> fs' = put_node q (File []) fs \<and> (lookup fs q = Some (File x)
      \<or> lookup fs q = None \<and> lookup fs (sp @ s) = Some Directory)"
  proof (cases "resolve True fs sp es")
    case (At p)
    then obtain x where x: "lookup fs p = Some (File x)" "q = p" "fs' = put_node p (File []) fs"
      using assms(3) by (auto simp: open_trunc_def split: option.splits node.splits)
    then obtain s where s: "p = sp @ s" using At w by auto
    have "s \<noteq> []" using s x(1) t(1) by (auto simp: tree_ok_def)
    then show ?thesis using x s by (cases s rule: rev_cases) auto
  next
    case (Missing p)
    then show ?thesis using assms(3) w by (auto simp: open_trunc_def)
  next
    case (Unresolved e)
    then show ?thesis using assms(3) by (simp add: open_trunc_def)
  qed
  then obtain s c x where q: "q = sp @ s @ [c]" "fs' = put_node q (File []) fs"
    and l: "lookup fs q = Some (File x) \<or> lookup fs q = None \<and> lookup fs (sp @ s) = Some Directory"
    by blast
  note p = tree_ok_put_file [OF t(1) l [unfolded q(1)], of "[]", folded q(1)]
  show "builder_inv sp b fs'" "same_outside sp fs fs'"
    using p t(4) open_ok_put [of q sp fs "open_files b" "[]"] assms(1) q
    by (auto simp: builder_inv_def)
  show "open_ok sp fs' (fid, \<lparr>of_path = q, of_offset = 0, of_good = True\<rparr>)"
    using q by (auto simp: open_ok_def)
qed

lemma create_directory_confined:
  assumes "builder_inv sp b fs"
  shows "confined sp fs (create_directory rel b fs)"
  using assms create_directories_confined [OF assms validate_no_dotdot]
  by (auto simp: create_directory_def builder_inv_def [of sp b fs] confined_def Let_def split_beta)

lemma create_file_confined:
  assumes "builder_inv sp b fs"
  shows "confined sp fs (create_file rel fid b fs)"
proof (cases "ec_failed (validate_relative_path rel)")
  case True
  then show ?thesis using assms by (simp add: create_file_def builder_inv_def confined_def)
next
  case False
  let ?es = "path_elements rel"
  have dd: "''..'' \<notin> set ?es" by (rule validate_no_dotdot [OF False])
  then have ddb: "''..'' \<notin> set (butlast ?es)" by (meson in_set_butlastD)
  have sp: "staging_root b = Some sp" using assms by (simp add: builder_inv_def)
  obtain fs1 e where c: "create_directories fs sp (butlast ?es) = (fs1, e)" by (metis surj_pair)
  note d = create_directories_confined [OF assms ddb, unfolded c fst_conv]
  show ?thesis
  proof (cases "e = 0 \<and> open_trunc fs1 sp ?es \<noteq> None")
    case True
    then obtain fs2 q where o: "open_trunc fs1 sp ?es = Some (fs2, q)" by auto
    let ?f = "\<lparr>of_path = q, of_offset = 0, of_good = True\<rparr>"
    note oc = open_trunc_confined [OF d(1) dd o]
    have "builder_inv sp (b\<lparr>open_files := AList.update fid ?f (open_files b)\<rparr>) fs2"
      using oc(1) oc(3) [of fid] by (simp add: builder_inv_def list_all_update)
    then show ?thesis
      using True sp False c o oc(2) d(2) same_outside_trans
      by (auto simp: create_file_def confined_def)
  next
    case F: False
    then show ?thesis
      using sp False c d by (auto simp: create_file_def confined_def split: option.split)
  qed
qed

lemma write_data_confined:
  assumes "builder_inv sp b fs"
  shows "confined sp fs (write_data ok d fid b fs)"
proof (cases "map_of (open_files b) fid")
  case None
  then show ?thesis using assms by (simp add: write_data_def confined_def)
next
  case (Some f)
  then have "(fid, f) \<in> set (open_files b)" by (rule map_of_SomeD)
  then have o: "open_ok sp fs (fid, f)" using assms by (auto simp: builder_inv_def list_all_iff)
  then obtain s c x where p: "of_path f = sp @ s @ [c]" "lookup fs (of_path f) = Some (File x)"
    by (auto simp: open_ok_def)
  note t = tree_ok_put_file [of sp fs s c x, folded p(1)]
  let ?fs = "write_file (of_path f) (of_offset f) d fs"
  have fs: "?fs = put_node (of_path f) (File (write_at (of_offset f) d x)) fs"
    using p(2) by (simp add: write_file_def)
  have all: "list_all (open_ok sp ?fs) (open_files b)"
    unfolding fs using assms p(1) by (intro open_ok_put) (auto simp: builder_inv_def)
  have new: "open_ok sp ?fs (fid, f\<lparr>of_offset := k\<rparr>)" for k
    unfolding fs using p(1) by (auto simp: open_ok_def)
  have bad: "open_ok sp fs (fid, f\<lparr>of_good := False\<rparr>)"
    using o by (simp add: open_ok_def)
  show ?thesis
    using Some assms all new bad t p(2) fs
    by (auto simp: write_data_def confined_def builder_inv_def intro!: list_all_update)
qed

lemma close_file_confined:
  assumes "builder_inv sp b fs"
  shows "confined sp fs (close_file ok fid b fs)"
proof (cases "map_of (open_files b) fid")
  case None
  then show ?thesis using assms by (simp add: close_file_def confined_def)
next
  case (Some f)
  then have "open_ok sp fs (fid, f\<lparr>of_good := False\<rparr>)"
    using assms map_of_SomeD [OF Some] by (auto simp: builder_inv_def list_all_iff open_ok_def)
  then show ?thesis
    using Some assms
    by (auto simp: close_file_def confined_def builder_inv_def intro!: list_all_update list_all_delete)
qed

fun is_symlink_op :: "builder_op \<Rightarrow> bool" where
  "is_symlink_op (Create_symlink rel target) = True"
| "is_symlink_op _ = False"

lemma builder_step_confined:
  "builder_inv sp b fs \<Longrightarrow> \<not> is_symlink_op x \<Longrightarrow> confined sp fs (builder_step x b fs)"
  by (cases x)
    (simp_all add: create_directory_confined create_file_confined write_data_confined
      close_file_confined)

definition confined_state :: "path \<Rightarrow> fs \<Rightarrow> file_builder \<times> fs \<Rightarrow> bool" where
  "confined_state sp fs0 s \<longleftrightarrow> builder_inv sp (fst s) (snd s) \<and> same_outside sp fs0 (snd s)"

interpretation builder_ops: step_system builder_next "confined_state sp fs0" "\<lambda>x. \<not> is_symlink_op x"
  for sp fs0
proof unfold_locales
  fix s x assume "confined_state sp fs0 s" "\<not> is_symlink_op x"
  then show "confined_state sp fs0 (builder_next s x)"
    using builder_step_confined [of sp "fst s" "snd s" x] same_outside_trans
    by (auto simp: confined_state_def confined_def builder_next_def)
qed

text \<open>
  C4. Confinement: in a staging tree that holds no link, no sequence of directory, file,
  write and close requests, whatever paths the peer sends (absolute, with \<open>..\<close>, with repeated
  or trailing separators, with embedded NUL characters) and whichever of them fail, changes
  anything outside the staging directory; and the staging tree stays a tree of directories
  and files.
\<close>

theorem builder_confined:
  assumes "builder_inv sp b fs" and "\<not> list_ex is_symlink_op ops"
    and "builder_run ops b fs = (b', fs')"
  shows "same_outside sp fs fs' \<and> builder_inv sp b' fs'"
proof -
  have "confined_state sp fs (b, fs)" using assms(1) by (simp add: confined_state_def)
  moreover have "list_all (\<lambda>x. \<not> is_symlink_op x) ops"
    using assms(2) by (auto simp: list_ex_iff list_all_iff)
  ultimately have "confined_state sp fs (builder_run ops b fs)"
    unfolding builder_run_def by (rule builder_ops.run_inv)
  then show ?thesis using assms(3) by (simp add: confined_state_def)
qed

definition sample_fs :: fs where
  "sample_fs = [([''out''], Directory), ([''out'', ''tmp''], Directory), ([''etc''], Directory)]"

definition sample_builder :: file_builder where
  "sample_builder =
     \<lparr>builder_root = [''out''], staging_root = Some [''out'', ''tmp''], open_files = []\<rparr>"

lemma sample_builder_inv: "builder_inv [''out'', ''tmp''] sample_builder sample_fs"
proof -
  have l: "lookup sample_fs p = (if p \<in> {[], [''out''], [''out'', ''tmp''], [''etc'']} then Some Directory else None)" for p
    by (auto simp: lookup_def sample_fs_def)
  have "fs_wf sample_fs"
    unfolding fs_wf_def l by (auto split: if_splits)
  then show ?thesis
    by (auto simp: builder_inv_def sample_builder_def tree_ok_def no_links_def l)
qed

theorem builder_confined_witness:
  "\<exists>b' fs'. builder_run [Create_file ''a/../../etc/x'' 1, Create_file ''a/b'' 2, Write True [7] 2,
      Close_file True 2] sample_builder sample_fs = (b', fs')
    \<and> lookup fs' [''etc'', ''x''] = None"
proof -
  let ?ops = "[Create_file ''a/../../etc/x'' 1, Create_file ''a/b'' 2, Write True [7] 2,
      Close_file True 2]"
  obtain b' fs' where r: "builder_run ?ops sample_builder sample_fs = (b', fs')" by (metis surj_pair)
  have n: "\<not> list_ex is_symlink_op ?ops" by simp
  have "same_outside [''out'', ''tmp''] sample_fs fs'"
    using builder_confined [OF sample_builder_inv n r] by blast
  then have "lookup fs' [''etc'', ''x''] = lookup sample_fs [''etc'', ''x'']"
    by (simp add: same_outside_def below_def)
  then show ?thesis using r by (auto simp: sample_fs_def lookup_def)
qed


end
