(* ===== verification/Staging.thy ===== *)
theory Staging
  imports File_Builder
begin

text \<open>
  What the builder's operations do to the staging tree when the peer sends a consistent tree:
  the functional behaviour of directory, file and link requests on plain paths.
\<close>

subsection \<open>Plain paths\<close>

definition plain :: "string \<Rightarrow> bool" where
  "plain c \<longleftrightarrow> c \<noteq> [] \<and> c \<noteq> ''.'' \<and> c \<noteq> ''..'' \<and> CHR ''/'' \<notin> set c \<and> CHR 0x00 \<notin> set c"

fun join_path :: "path \<Rightarrow> string" where
  "join_path [] = []"
| "join_path [c] = c"
| "join_path (c # cs) = c @ CHR ''/'' # join_path cs"

lemma split_slash_plain: "CHR ''/'' \<notin> set c \<Longrightarrow> split_slash c = [c]"
  by (induction c) auto

lemma split_slash_append:
  "CHR ''/'' \<notin> set c \<Longrightarrow> split_slash (c @ CHR ''/'' # s) = c # split_slash s"
  by (induction c) auto

lemma split_slash_join: "es \<noteq> [] \<Longrightarrow> list_all plain es \<Longrightarrow> split_slash (join_path es) = es"
  by (induction es rule: join_path.induct)
    (auto simp: plain_def split_slash_plain split_slash_append)

lemma join_path_ends:
  assumes "es \<noteq> []" "list_all plain es"
  shows "join_path es \<noteq> []" "last (join_path es) \<noteq> CHR ''/''" "\<not> absolute (join_path es)"
proof -
  show ne: "join_path es \<noteq> []"
    using assms by (induction es rule: join_path.induct) (auto simp: plain_def)
  show "last (join_path es) \<noteq> CHR ''/''"
    using assms
  proof (induction es rule: join_path.induct)
    case (3 c d cs)
    then have "join_path (d # cs) \<noteq> []"
      by (cases cs) (auto simp: plain_def)
    then show ?case using 3 by simp
  next
    case (2 c)
    then have "last c \<in> set c" "CHR ''/'' \<notin> set c" by (simp_all add: plain_def)
    then show ?case by (metis join_path.simps(2))
  qed simp
  show "\<not> absolute (join_path es)"
  proof -
    obtain c cs where es: "es = c # cs" using assms(1) by (cases es) auto
    then obtain x xs where c: "c = x # xs" "x \<noteq> CHR ''/''"
      using assms(2) by (cases c) (auto simp: plain_def)
    then show ?thesis by (cases cs) (simp_all add: es absolute_def)
  qed
qed

lemma path_elements_join:
  assumes "es \<noteq> []" "list_all plain es"
  shows "path_elements (join_path es) = es"
proof -
  have "filter (\<lambda>c. c \<noteq> []) es = es"
    using assms(2) by (auto simp: filter_id_conv list_all_iff plain_def)
  then show ?thesis
    using split_slash_join [OF assms] join_path_ends [OF assms] by (simp add: path_elements_def)
qed

lemma validate_join:
  assumes "es \<noteq> []" "list_all plain es"
  shows "validate_relative_path (join_path es) = no_error"
  using join_path_ends [OF assms] path_elements_join [OF assms] assms(2)
  by (auto simp: validate_relative_path_def list_ex_iff list_all_iff is_forbidden_path_part_def plain_def)

lemma os_path_plain: "list_all plain es \<Longrightarrow> os_path es = es"
  by (induction es rule: os_path.induct) (auto simp: plain_def has_nul_def)

text \<open>
  C31. The check of received paths accepts exactly the relative paths that do not end with
  a separator and have no component \<open>..\<close>; every tree path of plain names is accepted and
  read back as these names.
\<close>

theorem validate_relative_path_accepts:
  "(validate_relative_path rel = no_error \<longleftrightarrow>
      rel \<noteq> [] \<and> hd rel \<noteq> CHR ''/'' \<and> last rel \<noteq> CHR ''/'' \<and> ''..'' \<notin> set (split_slash rel))
   \<and> (es \<noteq> [] \<and> list_all plain es \<longrightarrow>
      validate_relative_path (join_path es) = no_error \<and> path_elements (join_path es) = es)"
proof -
  have i: "invalid_argument \<noteq> no_error" by (simp add: error_code_defs)
  have a: "absolute rel \<longleftrightarrow> rel \<noteq> [] \<and> hd rel = CHR ''/''" by (cases rel) (auto simp: absolute_def)
  have "[] \<in> set (path_elements rel) \<longleftrightarrow> rel \<noteq> [] \<and> last rel = CHR ''/''"
    by (simp add: path_elements_def)
  moreover have "''..'' \<in> set (path_elements rel) \<longleftrightarrow> ''..'' \<in> set (split_slash rel)"
    by (simp add: path_elements_def)
  ultimately have p: "list_ex is_forbidden_path_part (path_elements rel)
      \<longleftrightarrow> ''..'' \<in> set (split_slash rel) \<or> rel \<noteq> [] \<and> last rel = CHR ''/''"
    by (auto simp: list_ex_iff is_forbidden_path_part_def)
  have "validate_relative_path rel = no_error \<longleftrightarrow>
      rel \<noteq> [] \<and> hd rel \<noteq> CHR ''/'' \<and> last rel \<noteq> CHR ''/'' \<and> ''..'' \<notin> set (split_slash rel)"
    unfolding validate_relative_path_def p a using i by auto
  then show ?thesis using validate_join path_elements_join by blast
qed

theorem validate_relative_path_accepts_witness:
  "validate_relative_path ''a/b.txt'' = no_error"
proof -
  have "list_all plain [''a'', ''b.txt'']" by (simp add: plain_def)
  then have "validate_relative_path (join_path [''a'', ''b.txt'']) = no_error"
    using validate_relative_path_accepts [of "[]" "[''a'', ''b.txt'']"] by simp
  then show ?thesis by simp
qed

subsection \<open>Resolution of plain paths\<close>

lemma walk_plain:
  assumes "list_all plain es" "es \<noteq> []"
    and "\<And>k. k < length es \<Longrightarrow> lookup fs (cur @ take k es) = Some Directory"
    and "\<And>t. follow \<Longrightarrow> lookup fs (cur @ es) \<noteq> Some (Link t)"
  shows "walk n follow fs cur es =
    (case lookup fs (cur @ es) of None \<Rightarrow> Missing (cur @ es) | Some x \<Rightarrow> At (cur @ es))"
  using assms
proof (induction es arbitrary: cur)
  case (Cons c es)
  have c: "c \<noteq> []" "c \<noteq> ''.''" "c \<noteq> ''..''" using Cons.prems(1) by (auto simp: plain_def)
  have d: "lookup fs cur = Some Directory" using Cons.prems(3) [of 0] by simp
  show ?case
  proof (cases "es = []")
    case True
    then show ?thesis using c d Cons.prems(4) by (auto split: option.split node.split)
  next
    case False
    have d1: "lookup fs (cur @ [c]) = Some Directory"
      using Cons.prems(3) [of 1] False by simp
    have "walk n follow fs (cur @ [c]) es =
      (case lookup fs ((cur @ [c]) @ es) of
         None \<Rightarrow> Missing ((cur @ [c]) @ es) | Some x \<Rightarrow> At ((cur @ [c]) @ es))"
    proof (rule Cons.IH)
      show "lookup fs ((cur @ [c]) @ take k es) = Some Directory" if "k < length es" for k
        using Cons.prems(3) [of "Suc k"] that by simp
    qed (use Cons.prems(1,4) False in auto)
    then show ?thesis using c d d1 by (auto split: option.split node.split)
  qed
qed simp

lemma make_dirs_plain:
  assumes "list_all plain es" "lookup fs cur = Some Directory"
    and "\<And>k. k < length es \<Longrightarrow> lookup fs (cur @ take (Suc k) es) \<in> {None, Some Directory}"
  shows "snd (make_dirs fs cur es) = 0
    \<and> (\<forall>p. lookup (fst (make_dirs fs cur es)) p =
         (if \<exists>k < length es. p = cur @ take (Suc k) es then Some Directory else lookup fs p))"
  using assms
proof (induction es arbitrary: fs cur)
  case (Cons c es)
  have w: "walk MAXSYMLINKS True fs cur [c] =
    (case lookup fs (cur @ [c]) of None \<Rightarrow> Missing (cur @ [c]) | Some x \<Rightarrow> At (cur @ [c]))"
    using Cons.prems(1,2) Cons.prems(3) [of 0] by (intro walk_plain) auto
  let ?fs = "if lookup fs (cur @ [c]) = None then put_node (cur @ [c]) Directory fs else fs"
  have step: "make_dirs fs cur (c # es) = make_dirs ?fs (cur @ [c]) es"
    using w Cons.prems(3) [of 0] by auto
  have look: "lookup ?fs p = (if p = cur @ [c] then Some Directory else lookup fs p)" for p
    using Cons.prems(3) [of 0] by auto
  have IH: "snd (make_dirs ?fs (cur @ [c]) es) = 0
    \<and> (\<forall>p. lookup (fst (make_dirs ?fs (cur @ [c]) es)) p =
         (if \<exists>k < length es. p = (cur @ [c]) @ take (Suc k) es then Some Directory else lookup ?fs p))"
  proof (rule Cons.IH)
    show "list_all plain es" using Cons.prems(1) by simp
    show "lookup ?fs (cur @ [c]) = Some Directory" by (simp only: look) simp
    show "lookup ?fs ((cur @ [c]) @ take (Suc k) es) \<in> {None, Some Directory}"
      if "k < length es" for k
      using Cons.prems(3) [of "Suc k"] that by (simp only: look) auto
  qed
  have ex: "(\<exists>k < Suc (length es). p = cur @ take (Suc k) (c # es))
      \<longleftrightarrow> p = cur @ [c] \<or> (\<exists>k < length es. p = (cur @ [c]) @ take (Suc k) es)" for p
    by (auto simp: less_Suc_eq_0_disj)
  show ?case unfolding step using IH by (auto simp only: look ex length_Cons split: if_splits)
qed simp

subsection \<open>The requests on plain paths\<close>

text \<open>The store with the directories along \<open>es\<close> under \<open>sp\<close>.\<close>

definition with_dirs :: "path \<Rightarrow> path \<Rightarrow> (path \<Rightarrow> node option) \<Rightarrow> path \<Rightarrow> node option" where
  "with_dirs sp es L p =
     (if \<exists>k < length es. p = sp @ take (Suc k) es then Some Directory else L p)"

definition dirs_free :: "path \<Rightarrow> path \<Rightarrow> fs \<Rightarrow> bool" where
  "dirs_free sp es fs \<longleftrightarrow>
     lookup fs sp = Some Directory
     \<and> (\<forall>k < length es. lookup fs (sp @ take (Suc k) es) \<in> {None, Some Directory})"

lemma create_directories_plain:
  assumes "list_all plain es" "dirs_free sp es fs"
  shows "snd (create_directories fs sp es) = 0
    \<and> lookup (fst (create_directories fs sp es)) = with_dirs sp es (lookup fs)"
  using make_dirs_plain [OF assms(1), of fs sp] assms
  by (auto simp: create_directories_def os_path_plain dirs_free_def with_dirs_def)

lemma with_dirs_beside:
  assumes "\<And>k. k < length es \<Longrightarrow> p \<noteq> sp @ take (Suc k) es"
  shows "with_dirs sp es L p = L p"
  using assms by (auto simp: with_dirs_def)

lemma with_dirs_prefix:
  assumes "L sp = Some Directory" "k \<le> length es"
  shows "with_dirs sp es L (sp @ take k es) = Some Directory"
proof (cases k)
  case (Suc j)
  then have "\<exists>i < length es. sp @ take k es = sp @ take (Suc i) es"
    using assms(2) by (intro exI [of _ j]) simp
  then show ?thesis by (simp only: with_dirs_def if_True)
qed (use assms in \<open>simp add: with_dirs_def\<close>)

lemma plain_butlast: "list_all plain es \<Longrightarrow> list_all plain (butlast es)"
  by (auto simp: list_all_iff dest: in_set_butlastD)

lemma take_butlast_eq: "k < length es \<Longrightarrow> take k (butlast es) = take k es"
  by (auto simp: butlast_conv_take min_def not_le)

lemma with_dirs_existing:
  "(\<And>k. k < length es \<Longrightarrow> L (sp @ take (Suc k) es) = Some Directory) \<Longrightarrow> with_dirs sp es L = L"
  by (auto simp: with_dirs_def fun_eq_iff)

lemma with_dirs_new:
  assumes "p \<noteq> []" "with_dirs sp (butlast p) L = L"
  shows "with_dirs sp p L = L(sp @ p \<mapsto> Directory)"
proof (rule ext)
  fix q
  have d: "L (sp @ take (Suc j) p) = Some Directory" if "Suc j < length p" for j
  proof -
    have "take (Suc j) p = take (Suc j) (butlast p)" "j < length (butlast p)"
      using that by (auto simp: take_butlast_eq)
    then show ?thesis
      using fun_cong [OF assms(2), of "sp @ take (Suc j) p"] by (auto simp: with_dirs_def split: if_splits)
  qed
  have e: "(\<exists>j < length p. q = sp @ take (Suc j) p)
      \<longleftrightarrow> q = sp @ p \<or> (\<exists>j. Suc j < length p \<and> q = sp @ take (Suc j) p)"
  proof -
    have "\<exists>j < length p. take (Suc j) p = p"
      using assms(1) by (intro exI [of _ "length p - 1"]) auto
    moreover have "take (Suc j) p = p" if "j < length p" "\<not> Suc j < length p" for j
      using that by simp
    ultimately show ?thesis by (metis Suc_lessD)
  qed
  have "L q = Some Directory" if "\<exists>j. Suc j < length p \<and> q = sp @ take (Suc j) p"
    using that d by blast
  then show "with_dirs sp p L q = (L(sp @ p \<mapsto> Directory)) q"
    unfolding with_dirs_def e by auto
qed

lemma with_dirs_butlast_self: "es \<noteq> [] \<Longrightarrow> with_dirs sp (butlast es) L (sp @ es) = L (sp @ es)"
proof (rule with_dirs_beside)
  fix k assume "es \<noteq> []" "k < length (butlast es)"
  then show "sp @ es \<noteq> sp @ take (Suc k) (butlast es)"
    by (metis Suc_le_eq diff_less length_0_conv length_butlast length_take less_irrefl_nat
        min.absorb2 not_gr_zero not_le same_append_eq zero_less_one le_trans less_imp_le)
qed

text \<open>After the parents have been made, the last element resolves to its own place.\<close>

lemma resolve_after_parents:
  assumes "es \<noteq> []" "list_all plain es" "lookup fs1 = with_dirs sp (butlast es) (lookup fs)"
    and "lookup fs sp = Some Directory" "\<And>t. follow \<Longrightarrow> lookup fs (sp @ es) \<noteq> Some (Link t)"
  shows "resolve follow fs1 sp es =
    (case lookup fs (sp @ es) of None \<Rightarrow> Missing (sp @ es) | Some x \<Rightarrow> At (sp @ es))"
proof -
  have l: "lookup fs1 (sp @ es) = lookup fs (sp @ es)"
    using assms(1,3) by (simp add: with_dirs_butlast_self)
  have d: "lookup fs1 (sp @ take k es) = Some Directory" if "k < length es" for k
  proof -
    have "take k es = take k (butlast es)" using that by (simp add: take_butlast_eq)
    then show ?thesis using assms(3,4) that with_dirs_prefix [of "lookup fs" sp k "butlast es"] by simp
  qed
  have "walk MAXSYMLINKS follow fs1 sp es =
    (case lookup fs1 (sp @ es) of None \<Rightarrow> Missing (sp @ es) | Some x \<Rightarrow> At (sp @ es))"
    using assms(1,2,5) d l by (intro walk_plain) auto
  then show ?thesis using assms(2) l by (simp add: resolve_def os_path_plain)
qed

lemma create_directory_plain:
  assumes "staging_root b = Some sp" "es \<noteq> []" "list_all plain es" "dirs_free sp es fs"
  shows "\<exists>fs'. create_directory (join_path es) b fs = (no_error, b, fs')
    \<and> lookup fs' = with_dirs sp es (lookup fs)"
  using create_directories_plain [OF assms(3,4)] assms
  by (auto simp: create_directory_def validate_join path_elements_join to_boost_error_def
      split: prod.split)

lemma create_file_plain:
  assumes "staging_root b = Some sp" "es \<noteq> []" "list_all plain es" "dirs_free sp (butlast es) fs"
    and "lookup fs (sp @ es) = None \<or> (\<exists>d. lookup fs (sp @ es) = Some (File d))"
  shows "\<exists>fs'. create_file (join_path es) fid b fs =
      (no_error, b\<lparr>open_files := AList.update fid \<lparr>of_path = sp @ es, of_offset = 0, of_good = True\<rparr>
         (open_files b)\<rparr>, fs')
    \<and> lookup fs' = (with_dirs sp (butlast es) (lookup fs))(sp @ es \<mapsto> File [])"
proof -
  obtain fs1 e where c: "create_directories fs sp (butlast es) = (fs1, e)" by (metis surj_pair)
  have c1: "e = 0" "lookup fs1 = with_dirs sp (butlast es) (lookup fs)"
    using create_directories_plain [OF plain_butlast [OF assms(3)] assms(4)] c by auto
  have sp: "lookup fs sp = Some Directory" using assms(4) by (simp add: dirs_free_def)
  have r: "resolve True fs1 sp es =
    (case lookup fs (sp @ es) of None \<Rightarrow> Missing (sp @ es) | Some x \<Rightarrow> At (sp @ es))"
    using assms(2,3,5) c1(2) sp by (intro resolve_after_parents) auto
  have l: "lookup fs1 (sp @ es) = lookup fs (sp @ es)"
    using assms(2) c1(2) by (simp add: with_dirs_butlast_self)
  have "open_trunc fs1 sp es = Some (put_node (sp @ es) (File []) fs1, sp @ es)"
    using r l assms(5) by (auto simp: open_trunc_def)
  moreover have "lookup (put_node (sp @ es) (File []) fs1)
      = (with_dirs sp (butlast es) (lookup fs))(sp @ es \<mapsto> File [])"
    using c1(2) assms(2) by (auto simp: fun_eq_iff)
  ultimately show ?thesis
    using assms(1,2,3) c c1(1)
    by (auto simp: create_file_def validate_join path_elements_join)
qed

lemma create_symlink_plain:
  assumes "staging_root b = Some sp" "es \<noteq> []" "list_all plain es" "dirs_free sp (butlast es) fs"
    and "lookup fs (sp @ es) = None" "c_str t \<noteq> []"
  shows "\<exists>fs'. create_symlink (join_path es) t b fs = (no_error, b, fs')
    \<and> lookup fs' = (with_dirs sp (butlast es) (lookup fs))(sp @ es \<mapsto> Link (c_str t))"
proof -
  obtain fs1 e where c: "create_directories fs sp (butlast es) = (fs1, e)" by (metis surj_pair)
  have c1: "e = 0" "lookup fs1 = with_dirs sp (butlast es) (lookup fs)"
    using create_directories_plain [OF plain_butlast [OF assms(3)] assms(4)] c by auto
  have sp: "lookup fs sp = Some Directory" using assms(4) by (simp add: dirs_free_def)
  have r: "resolve False fs1 sp es = Missing (sp @ es)"
    using resolve_after_parents [of es fs1 sp fs False] assms(2,3,5) c1(2) sp by simp
  have "lookup (put_node (sp @ es) (Link (c_str t)) fs1)
      = (with_dirs sp (butlast es) (lookup fs))(sp @ es \<mapsto> Link (c_str t))"
    using c1(2) assms(2) by (auto simp: fun_eq_iff)
  then show ?thesis
    using assms(1,2,3,6) c c1(1) r
    by (auto simp: create_symlink_def validate_join path_elements_join symlink_status_def
        make_symlink_def to_boost_error_def)
qed

lemma write_data_appends:
  assumes "map_of (open_files b) fid = Some \<lparr>of_path = q, of_offset = length old, of_good = True\<rparr>"
    and "lookup fs q = Some (File old)"
  shows "\<exists>b' fs'. write_data True d fid b fs = (no_error, b', fs')
    \<and> staging_root b' = staging_root b \<and> builder_root b' = builder_root b
    \<and> open_files b' = AList.update fid \<lparr>of_path = q, of_offset = length (old @ d), of_good = True\<rparr>
        (open_files b)
    \<and> lookup fs' = (lookup fs)(q \<mapsto> File (old @ d))"
proof -
  have "q \<noteq> []" using assms(2) by auto
  then have "lookup (put_node q (File (old @ d)) fs) = (lookup fs)(q \<mapsto> File (old @ d))"
    by (auto simp: fun_eq_iff)
  then show ?thesis
    using assms by (simp add: write_data_def write_file_def write_at_def)
qed

end
