(* ===== verification/New_Builder.thy ===== *)
theory New_Builder
  imports Staging
begin

text \<open>
  The constructor of \<open>File_builder\<close>: creation of the output directory and choice of the
  staging directory.
\<close>

lemma set_entries_below: "set (entries_below sp fs) = {p. below sp p \<and> lookup fs p \<noteq> None}"
proof (rule set_eqI)
  fix p
  have "p \<in> fst ` set fs \<longleftrightarrow> map_of fs p \<noteq> None" by (simp add: map_of_eq_None_iff)
  moreover have "\<not> below sp []" by (simp add: below_def)
  ultimately show "p \<in> set (entries_below sp fs) \<longleftrightarrow> p \<in> {p. below sp p \<and> lookup fs p \<noteq> None}"
    unfolding entries_below_def lookup_def by auto
qed

text \<open>A builder right after its construction.\<close>

definition fresh_builder :: "path \<Rightarrow> string \<Rightarrow> file_builder \<Rightarrow> fs \<Rightarrow> bool" where
  "fresh_builder out name b fs \<longleftrightarrow>
     b = \<lparr>builder_root = out, staging_root = Some (out @ [name]), open_files = []\<rparr>
     \<and> fs_wf fs \<and> lookup fs (out @ [name]) = Some Directory \<and> entries_below (out @ [name]) fs = []"

subsection \<open>Resolution in growing stores\<close>

lemma walk_At_append:
  "walk n follow fs cur (xs @ ys) = At r \<Longrightarrow> follow \<Longrightarrow>
    \<exists>q m. walk n follow fs cur xs = At q \<and> walk m follow fs q ys = At r"
proof (induction n follow fs cur xs rule: walk.induct)
  case (1 n follow fs cur)
  then show ?case by auto
next
  case (2 n follow fs cur c cs)
  show ?case
  proof (cases "c = [] \<or> c = ''.'' \<or> c = ''..''")
    case True
    then show ?thesis
      using 2(1-3) 2(6-7) by (cases "c = ''..''") (auto split: option.splits node.splits)
  next
    case False
    have d: "lookup fs cur = Some Directory"
      using 2(6) by (auto split: option.splits node.splits)
    obtain x where x: "lookup fs (cur @ [c]) = Some x"
      using 2(6) False d by (cases "lookup fs (cur @ [c])") (auto split: if_splits)
    show ?thesis
      using 2 False d x by (cases x) (auto split: nat.splits split del: if_split)
  qed
qed

lemma walk_At_keeps:
  "walk n follow fs cur cs = At r \<Longrightarrow> keeps fs fs' \<Longrightarrow> walk n follow fs' cur cs = At r"
proof (induction n follow fs cur cs rule: walk.induct)
  case (2 n follow fs cur c cs)
  then have k: "lookup fs p = Some x \<Longrightarrow> lookup fs' p = Some x" for p x by (auto simp: keeps_def)
  show ?case
  proof (cases "c = [] \<or> c = ''.'' \<or> c = ''..''")
    case True
    then show ?thesis
      using 2(1-3) 2(6-7) k by (cases "c = ''..''") (auto split: option.splits node.splits)
  next
    case False
    have d: "lookup fs cur = Some Directory" "lookup fs' cur = Some Directory"
      using 2(6) k by (auto split: option.splits node.splits)
    obtain x where x: "lookup fs (cur @ [c]) = Some x" "lookup fs' (cur @ [c]) = Some x"
      using 2(6) False d k by (cases "lookup fs (cur @ [c])") (auto split: if_splits)
    show ?thesis
    proof (cases "cs = [] \<and> \<not> follow")
      case True
      then show ?thesis using 2(6) False d x by (cases x) (auto split: nat.splits)
    next
      case F: False
      then show ?thesis
        using 2 False d x by (cases x) (auto split: nat.splits split del: if_split)
    qed
  qed
qed simp


lemma walk_At_unique:
  "walk n follow fs cur cs = At q \<Longrightarrow> walk m follow fs cur cs = At r \<Longrightarrow> q = r"
proof (induction n follow fs cur cs arbitrary: m rule: walk.induct)
  case (2 n follow fs cur c cs)
  show ?case
  proof (cases "c = [] \<or> c = ''.'' \<or> c = ''..''")
    case True
    then show ?thesis
      using 2 by (cases "c = ''..''") (auto split: option.splits node.splits)
  next
    case False
    have d: "lookup fs cur = Some Directory"
      using 2(6) by (auto split: option.splits node.splits)
    obtain x where x: "lookup fs (cur @ [c]) = Some x"
      using 2(6) False d by (cases "lookup fs (cur @ [c])") (auto split: if_splits)
    show ?thesis
    proof (cases "cs = [] \<and> \<not> follow")
      case True
      then show ?thesis using 2(6,7) False d x by (cases x) auto
    next
      case F: False
      then show ?thesis
        using 2 False d x by (cases x) (auto split: nat.splits split del: if_split)
    qed
  qed
qed simp

lemma walk_one_missing:
  assumes "walk n True fs cur [c] = Missing (cur @ [c])"
  shows "lookup fs cur = Some Directory \<and> lookup fs (cur @ [c]) = None
    \<and> c \<noteq> [] \<and> c \<noteq> ''.'' \<and> c \<noteq> ''..''"
  using assms walk_Missing [OF assms] by (auto split: option.splits node.splits if_splits)

lemma walk_Unresolved: "walk n follow fs cur cs = Unresolved e \<Longrightarrow> e \<noteq> 0"
  by (induction n follow fs cur cs rule: walk.induct)
    (auto split: option.splits node.splits if_splits nat.splits)

lemma make_dirs_wf: "fs_wf fs \<Longrightarrow> fs_wf (fst (make_dirs fs cur cs))"
proof (induction cs arbitrary: fs cur)
  case (Cons c cs)
  have "fs_wf (put_node (cur @ [c]) Directory fs)"
    if "walk MAXSYMLINKS True fs cur [c] = Missing (cur @ [c])"
    using walk_one_missing [OF that] Cons.prems by (intro fs_wf_put) auto
  then show ?case using Cons by (auto split: resolved.split)
qed simp

lemma make_dirs_end:
  assumes "make_dirs fs cur cs = (fs1, 0)" "lookup fs cur = Some Directory"
    and "walk n True fs1 cur cs = At r"
  shows "lookup fs1 r = Some Directory"
  using assms
proof (induction cs arbitrary: fs cur n)
  case (Cons c cs)
  obtain q m where w: "walk n True fs1 cur [c] = At q" "walk m True fs1 q cs = At r"
    using walk_At_append [of n True fs1 cur "[c]" cs r] Cons.prems(3) by auto
  have keep: "keeps fs fs1" using make_dirs_keeps [of fs cur "c # cs"] Cons.prems(1) by simp
  show ?case
  proof (cases "walk MAXSYMLINKS True fs cur [c]")
    case (At q')
    then have d: "lookup fs q' = Some Directory" "make_dirs fs q' cs = (fs1, 0)"
      using Cons.prems(1) by (auto split: if_splits)
    have "walk MAXSYMLINKS True fs1 cur [c] = At q'" using walk_At_keeps [OF At keep] .
    then have "q' = q" using walk_At_unique w(1) by metis
    then show ?thesis using Cons.IH [OF d(2,1)] w(2) by simp
  next
    case (Missing q')
    then have q': "q' = cur @ [c]" and d: "make_dirs (put_node q' Directory fs) q' cs = (fs1, 0)"
      using Cons.prems(1) by (auto split: if_splits)
    have l: "lookup (put_node q' Directory fs) q' = Some Directory" using q' by simp
    have "keeps (put_node q' Directory fs) fs1"
      using make_dirs_keeps [of "put_node q' Directory fs" q' cs] d by simp
    then have "lookup fs1 q' = Some Directory" "lookup fs1 cur = Some Directory"
      using l keep Cons.prems(2) by (auto simp: keeps_def)
    then have "q = q'"
      using w(1) q' walk_one_missing [OF Missing [unfolded q']] by (auto split: if_splits)
    then show ?thesis using Cons.IH [OF d l] w(2) by simp
  next
    case (Unresolved e)
    then show ?thesis
      using Cons.prems(1) walk_Unresolved [OF Unresolved] by (simp del: walk.simps split: if_splits)
  qed
qed simp

subsection \<open>The constructor\<close>

lemma pick_staging_fresh:
  assumes "pick_staging name r ks fs = (Some sp, fs')"
  shows "\<exists>k \<in> set ks. sp = r @ [name k] \<and> lookup fs sp = None \<and> fs' = put_node sp Directory fs"
  using assms by (induction ks) (auto split: if_splits)

text \<open>
  C29. When the constructor finds a staging directory, the builder is fresh: the staging
  directory is an entry of the output directory that did not exist before, it is empty, the
  store is a tree, and every node that existed is still there and unchanged.
\<close>

theorem constructor_gives_fresh_staging:
  assumes "fs_wf fs" and "lookup fs cwd = Some Directory"
    and "file_builder_new pid now cwd root fs = (b, fs')" and "staging_root b = Some sp"
  shows "\<exists>name. sp = builder_root b @ [name] \<and> lookup fs sp = None
    \<and> fresh_builder (builder_root b) name b fs' \<and> keeps fs fs'"
proof -
  let ?base = "if absolute root then [] else cwd" and ?es = "path_elements root"
  have base: "lookup fs ?base = Some Directory" using assms(2) by simp
  obtain fs1 e where ce: "create_directories fs ?base ?es = (fs1, e)" by (metis surj_pair)
  have c: "create_directories fs ?base ?es = (fs1, 0)"
    and r: "resolve True fs1 ?base ?es = At (builder_root b)"
    and p: "pick_staging (staging_name pid now) (builder_root b) [0..<100] fs1 = (Some sp, fs')"
    and b: "b = \<lparr>builder_root = builder_root b, staging_root = Some sp, open_files = []\<rparr>"
    using assms(3,4) ce
    by (auto simp: file_builder_new_def Let_def split: if_splits prod.splits resolved.splits)
  have c1: "make_dirs fs ?base (os_path ?es) = (fs1, 0)" using c by (simp add: create_directories_def)
  have wf: "fs_wf fs1" using make_dirs_wf [OF assms(1), of ?base "os_path ?es"] c1 by simp
  have keep: "keeps fs fs1" using make_dirs_keeps [of fs ?base "os_path ?es"] c1 by simp
  have dir: "lookup fs1 (builder_root b) = Some Directory"
    using make_dirs_end [OF c1 base] r by (simp add: resolve_def)
  obtain name where sp: "sp = builder_root b @ [name]" and n: "lookup fs1 sp = None"
    and fs': "fs' = put_node sp Directory fs1"
    using pick_staging_fresh [OF p] by blast
  have ne: "sp \<noteq> []" using sp by simp
  have wf': "fs_wf fs'"
    unfolding fs' sp using wf dir n sp by (intro fs_wf_put) auto
  have "lookup fs1 (sp @ q) = None" if "q \<noteq> []" for q
    using fs_wf_prefix [OF wf, of sp q] that n by (cases "lookup fs1 (sp @ q)") auto
  then have "set (entries_below sp fs') = {}"
    unfolding set_entries_below fs' using ne by (auto simp: below_iff)
  moreover have "lookup fs' sp = Some Directory" using fs' ne by simp
  ultimately have "fresh_builder (builder_root b) name b fs'"
    using b wf' sp by (simp add: fresh_builder_def)
  moreover have "lookup fs sp = None" using keep n by (cases "lookup fs sp") (auto simp: keeps_def)
  moreover have "keeps fs fs'" using keep n ne by (auto simp: fs' keeps_def)
  ultimately show ?thesis using sp by blast
qed

theorem constructor_gives_fresh_staging_witness:
  "\<exists>b fs'. file_builder_new 1 2 [''home''] ''out'' [([''home''], Directory)] = (b, fs')
    \<and> fresh_builder [''home'', ''out''] ''.filehopz-tmp-1-2-0'' b fs'"
proof -
  let ?fs = "[([''home''], Directory)]"
  let ?x = "file_builder_new 1 2 [''home''] ''out'' ?fs"
  have wf: "fs_wf ?fs" by (auto simp: fs_wf_def lookup_def)
  have d: "lookup ?fs [''home''] = Some Directory" by (simp add: lookup_def)
  have x: "staging_root (fst ?x) = Some [''home'', ''out'', ''.filehopz-tmp-1-2-0'']"
    "builder_root (fst ?x) = [''home'', ''out'']"
    by code_simp+
  from constructor_gives_fresh_staging [OF wf d prod.collapse [symmetric] x(1)]
  show ?thesis using x by (intro exI [of _ "fst ?x"] exI [of _ "snd ?x"]) auto
qed

end
