(* ===== verification/Commit.thy ===== *)
theory Commit
  imports Staging
begin

text \<open>
  \<open>File_builder::commit\<close> on a staging tree of plain names: what it moves into the output
  directory, and what a conflict leaves behind.
\<close>

subsection \<open>The order of the iterator\<close>

fun parents_before :: "path list \<Rightarrow> path list \<Rightarrow> bool" where
  "parents_before seen [] \<longleftrightarrow> True"
| "parents_before seen (r # rs) \<longleftrightarrow>
     r \<noteq> [] \<and> r \<notin> set seen \<and> (butlast r = [] \<or> butlast r \<in> set seen) \<and> parents_before (r # seen) rs"

definition closed_set :: "path set \<Rightarrow> bool" where
  "closed_set D \<longleftrightarrow> (\<forall>r \<in> D. r \<noteq> [] \<and> (butlast r = [] \<or> butlast r \<in> D))"

lemma closed_set_prefix:
  assumes "closed_set D" "r \<in> D" "0 < j" "j \<le> length r"
  shows "take j r \<in> D"
  using assms(2-)
proof (induction r rule: rev_induct)
  case (snoc c r)
  show ?case
  proof (cases "j = length (r @ [c])")
    case True
    then show ?thesis using snoc.prems(1) by simp
  next
    case False
    then have j: "j \<le> length r" "r \<noteq> []" using snoc.prems(2,3) by auto
    have "r \<in> D" using snoc.prems(1) assms(1) j(2) by (auto simp: closed_set_def)
    then show ?thesis using snoc.IH snoc.prems(2) j(1) by simp
  qed
qed simp

subsection \<open>The store in the middle of a commit\<close>

text \<open>\<open>D\<close> are the entries done, \<open>L\<close> is the store before.\<close>

definition committed ::
  "path \<Rightarrow> path \<Rightarrow> (path \<Rightarrow> node option) \<Rightarrow> path set \<Rightarrow> path \<Rightarrow> node option" where
  "committed out sp L D p =
     (if p \<in> (@) out ` D then L (sp @ drop (length out) p)
      else if p \<in> (@) sp ` {r \<in> D. L (sp @ r) \<noteq> Some Directory} then None
      else L p)"

text \<open>What may be in the way of an entry.\<close>

definition dest_ok :: "node option \<Rightarrow> node option \<Rightarrow> bool" where
  "dest_ok n m \<longleftrightarrow> (if n = Some Directory then m \<in> {None, Some Directory} else m \<noteq> Some Directory)"

definition committable :: "path \<Rightarrow> string \<Rightarrow> fs \<Rightarrow> path \<Rightarrow> bool" where
  "committable out name fs r \<longleftrightarrow>
     r \<noteq> [] \<and> list_all plain r \<and> hd r \<noteq> name \<and> lookup fs (out @ name # r) \<noteq> None
     \<and> dest_ok (lookup fs (out @ name # r)) (lookup fs (out @ r))"

lemma committed_at:
  assumes "\<forall>r \<in> D. hd r \<noteq> name \<and> r \<noteq> []"
  shows "r \<in> D \<Longrightarrow> committed out (out @ [name]) L D (out @ r) = L (out @ name # r)"
    and "r \<notin> D \<Longrightarrow> committed out (out @ [name]) L D (out @ name # r) = L (out @ name # r)"
    and "r \<notin> D \<Longrightarrow> hd r \<noteq> name \<Longrightarrow> r \<noteq> [] \<Longrightarrow> committed out (out @ [name]) L D (out @ r) = L (out @ r)"
    and "committed out (out @ [name]) L D out = L out"
  using assms by (auto simp: committed_def image_iff)

lemma committed_insert:
  assumes "\<forall>r \<in> insert r D. hd r \<noteq> name \<and> r \<noteq> []" "r \<notin> D"
  shows "committed out (out @ [name]) L (insert r D) =
    (if L (out @ name # r) = Some Directory
     then (committed out (out @ [name]) L D)(out @ r \<mapsto> Directory)
     else (committed out (out @ [name]) L D)(out @ name # r := None, out @ r := L (out @ name # r)))"
  using assms by (auto simp: committed_def image_iff fun_eq_iff)

lemma commit_entry_plain:
  assumes "fs_wf fs0" "closed_set D" "\<forall>q \<in> insert r D. committable out name fs0 q" "r \<notin> D"
    and "butlast r = [] \<or> butlast r \<in> D" "lookup fs0 out = Some Directory"
    and "lookup fs = committed out (out @ [name]) (lookup fs0) D"
  shows "\<exists>fs'. commit_entry out (out @ [name]) (out @ name # r) fs = (no_error, fs')
    \<and> lookup fs' = committed out (out @ [name]) (lookup fs0) (insert r D)"
proof -
  let ?L = "lookup fs0" and ?sp = "out @ [name]"
  have hd: "\<forall>r \<in> insert r D. hd r \<noteq> name \<and> r \<noteq> []" using assms(3) by (auto simp: committable_def)
  then have hdD: "\<forall>r \<in> D. hd r \<noteq> name \<and> r \<noteq> []" by simp
  note at = committed_at [OF hdD, where out = out and L = ?L, folded assms(7)]
  have r: "r \<noteq> []" "hd r \<noteq> name" "list_all plain r" "?L (out @ name # r) \<noteq> None"
    "dest_ok (?L (out @ name # r)) (?L (out @ r))"
    using assms(3) by (auto simp: committable_def)
  have src: "lookup fs (out @ name # r) = ?L (out @ name # r)" using at(2) [OF assms(4)] .
  have dst: "lookup fs (out @ r) = ?L (out @ r)" using at(3) [OF assms(4) r(2,1)] .
  have par: "lookup fs (out @ take (Suc j) (butlast r)) = Some Directory" if j: "j < length (butlast r)" for j
  proof -
    let ?q = "take (Suc j) (butlast r)"
    have "butlast r \<noteq> []" using j by (metis list.size(3) not_less_zero)
    then have "butlast r \<in> D" using assms(5) by blast
    then have q: "?q \<in> D" using closed_set_prefix [OF assms(2)] j by simp
    have "r = ?q @ drop (Suc j) r" "drop (Suc j) r \<noteq> []"
      using j by (auto simp: take_butlast_eq)
    then have "?L ((out @ name # ?q) @ drop (Suc j) r) \<noteq> None"
      using r(4) by (metis append.assoc append_Cons)
    then have "?L (out @ name # ?q) = Some Directory"
      using fs_wf_prefix [OF assms(1)] \<open>drop (Suc j) r \<noteq> []\<close> by blast
    then show ?thesis using at(1) [OF q] by simp
  qed
  have out: "lookup fs out = Some Directory" using at(4) assms(6) by simp
  have dirs: "dirs_free out (butlast r) fs" using par out by (simp add: dirs_free_def)
  have same: "with_dirs out (butlast r) (lookup fs) = lookup fs" using par by (intro with_dirs_existing)
  have st: "symlink_status fs1 out r = Inr (?L (out @ r))"
    and rs: "resolve False fs1 out r = (case ?L (out @ r) of None \<Rightarrow> Missing (out @ r) | Some x \<Rightarrow> At (out @ r))"
    if "lookup fs1 = lookup fs" for fs1
  proof -
    show rs: "resolve False fs1 out r = (case ?L (out @ r) of None \<Rightarrow> Missing (out @ r) | Some x \<Rightarrow> At (out @ r))"
      using resolve_after_parents [OF r(1,3), of fs1 out fs False] that same out dst by simp
    show "symlink_status fs1 out r = Inr (?L (out @ r))"
      using that dst by (auto simp: symlink_status_def rs split: option.split)
  qed
  show ?thesis
  proof (cases "?L (out @ name # r) = Some Directory")
    case True
    have "dirs_free out r fs"
      unfolding dirs_free_def
    proof (intro conjI allI impI)
      show "lookup fs (out @ take (Suc j) r) \<in> {None, Some Directory}" if j: "j < length r" for j
      proof (cases "Suc j = length r")
        case True
        then show ?thesis using dst r(5) \<open>?L (out @ name # r) = Some Directory\<close> by (simp add: dest_ok_def)
      next
        case False
        then have "j < length (butlast r)" "take (Suc j) r = take (Suc j) (butlast r)"
          using j by (auto simp: take_butlast_eq)
        then show ?thesis using par by simp
      qed
    qed (rule out)
    then obtain fs' where c: "create_directories fs out r = (fs', 0)" "lookup fs' = with_dirs out r (lookup fs)"
      using create_directories_plain [OF r(3)] by (metis prod.collapse)
    have "lookup fs' = committed out ?sp ?L (insert r D)"
      using c(2) with_dirs_new [OF r(1) same] committed_insert [OF hd assms(4)] True assms(7) by simp
    then show ?thesis
      using c(1) True src st [of fs] r(5) by (auto simp: commit_entry_def dest_ok_def to_boost_error_def)
  next
    case False
    then obtain n where n: "?L (out @ name # r) = Some n" "n \<noteq> Directory" using r(4) by auto
    obtain fs1 where c: "create_directories fs out (butlast r) = (fs1, 0)" "lookup fs1 = lookup fs"
      using create_directories_plain [OF plain_butlast [OF r(3)] dirs] same by (metis prod.collapse)
    have ne: "out @ r \<noteq> out @ name # r" "out @ r \<noteq> []" "out @ name # r \<noteq> []" using r(1) by auto
    let ?fs' = "put_node (out @ r) n (AList.delete (out @ name # r) fs1)"
    have rn: "rename_node fs1 (out @ name # r) out r = (?fs', 0)"
      using rs [OF c(2)] src dst c(2) n r(5) ne by (auto simp: rename_node_def dest_ok_def split: option.split)
    have "lookup ?fs' = (lookup fs)(out @ name # r := None, out @ r := ?L (out @ name # r))"
      using ne c(2) n by (auto simp: fun_eq_iff lookup_delete)
    then have "lookup ?fs' = committed out ?sp ?L (insert r D)"
      using committed_insert [OF hd assms(4), of out ?L] n(2) n(1) assms(7) by simp
    moreover have "?L (out @ r) \<noteq> Some Directory" using r(5) n by (simp add: dest_ok_def)
    ultimately show ?thesis
      using c(1) n src st [OF c(2)] rn
      by (auto simp: commit_entry_def to_boost_error_def split: node.split)
  qed
qed


lemma commit_entries_plain:
  assumes "fs_wf fs0" "lookup fs0 out = Some Directory"
    and "\<forall>q \<in> D \<union> set rs. committable out name fs0 q"
    and "closed_set D" "set seen = D" "parents_before seen rs"
    and "lookup fs = committed out (out @ [name]) (lookup fs0) D"
  shows "\<exists>fs'. commit_entries out (out @ [name]) (map (\<lambda>r. out @ name # r) rs) fs = (no_error, fs')
    \<and> lookup fs' = committed out (out @ [name]) (lookup fs0) (D \<union> set rs)"
  using assms(3-)
proof (induction rs arbitrary: D seen fs)
  case (Cons r rs)
  have r: "r \<notin> D" "butlast r = [] \<or> butlast r \<in> D" "parents_before (r # seen) rs" "r \<noteq> []"
    using Cons.prems(3,4) by auto
  have c: "\<forall>q \<in> insert r D. committable out name fs0 q" using Cons.prems(1) by simp
  obtain fs1 where e: "commit_entry out (out @ [name]) (out @ name # r) fs = (no_error, fs1)"
    "lookup fs1 = committed out (out @ [name]) (lookup fs0) (insert r D)"
    using commit_entry_plain [OF assms(1) Cons.prems(2) c r(1,2) assms(2) Cons.prems(5)] by blast
  have cl: "closed_set (insert r D)" using Cons.prems(2) r(2,4) by (auto simp: closed_set_def)
  have all: "\<forall>q \<in> insert r D \<union> set rs. committable out name fs0 q"
    and seen: "set (r # seen) = insert r D"
    using Cons.prems(1,3) by auto
  obtain fs2 where "commit_entries out (out @ [name]) (map (\<lambda>r. out @ name # r) rs) fs1 = (no_error, fs2)"
    "lookup fs2 = committed out (out @ [name]) (lookup fs0) (insert r D \<union> set rs)"
    using Cons.IH [OF all cl seen r(3) e(2)] by blast
  then show ?case using e(1) by simp
qed simp

text \<open>The iterator reports the tree below \<open>sp\<close>, each directory before its content.\<close>

definition walk_order :: "path \<Rightarrow> fs \<Rightarrow> path list \<Rightarrow> bool" where
  "walk_order sp fs rs \<longleftrightarrow>
     parents_before [] rs \<and> (\<forall>r. r \<in> set rs \<longleftrightarrow> r \<noteq> [] \<and> lookup fs (sp @ r) \<noteq> None)"

text \<open>The output directory after the commit.\<close>

definition merged :: "path \<Rightarrow> string \<Rightarrow> (path \<Rightarrow> node option) \<Rightarrow> path \<Rightarrow> node option" where
  "merged out name L p =
     (if p = out @ [name] \<or> below (out @ [name]) p then None
      else if below out p \<and> L (out @ name # drop (length out) p) \<noteq> None
        then L (out @ name # drop (length out) p)
      else L p)"

lemma committed_merged:
  assumes "\<forall>r. r \<in> set rs \<longleftrightarrow> r \<noteq> [] \<and> L (out @ name # r) \<noteq> None" "\<forall>r \<in> set rs. hd r \<noteq> name"
  shows "(if p = out @ [name] \<or> below (out @ [name]) p then None
      else committed out (out @ [name]) L (set rs) p) = merged out name L p"
proof (cases "p = out @ [name] \<or> below (out @ [name]) p")
  case False
  then have "p \<notin> (@) (out @ [name]) ` S" if "[] \<notin> S" for S
    using that by (auto simp: below_iff)
  moreover have "p \<in> (@) out ` set rs \<longleftrightarrow> below out p \<and> L (out @ name # drop (length out) p) \<noteq> None"
    using assms(1) by (auto simp: below_iff)
  moreover have "[] \<notin> set rs" using assms(1) by blast
  ultimately show ?thesis using False by (auto simp: committed_def merged_def)
qed (simp add: merged_def)

lemma commit_plain:
  assumes "staging_root b = Some (out @ [name])" "builder_root b = out"
    and "\<not> ec_failed (fst (close_all ok b))"
    and "fs_wf fs" "lookup fs out = Some Directory"
    and "walk_order (out @ [name]) fs rs" "listing fs = map (\<lambda>r. out @ name # r) rs"
    and "\<forall>r \<in> set rs. committable out name fs r"
  shows "\<exists>fs'. commit ok listing b fs = (no_error, b\<lparr>open_files := []\<rparr>, fs')
    \<and> lookup fs' = merged out name (lookup fs)"
proof -
  have "lookup fs = committed out (out @ [name]) (lookup fs) {}"
    by (simp add: committed_def fun_eq_iff)
  moreover have "closed_set {}" "set [] = ({} :: path set)" by (simp_all add: closed_set_def)
  ultimately obtain fs1 where c:
    "commit_entries out (out @ [name]) (map (\<lambda>r. out @ name # r) rs) fs = (no_error, fs1)"
    "lookup fs1 = committed out (out @ [name]) (lookup fs) (set rs)"
    using commit_entries_plain [OF assms(4,5), of "{}" rs name "[]" fs] assms(6,8)
    by (auto simp: walk_order_def)
  have "commit ok listing b fs
      = (no_error, b\<lparr>open_files := []\<rparr>, remove_tree (out @ [name]) fs1)"
    using assms(1,2,3,7) c(1) by (simp add: commit_def close_all_def split_beta split: if_splits)
  moreover have "lookup (remove_tree (out @ [name]) fs1) p = merged out name (lookup fs) p" for p
    unfolding lookup_remove_tree [OF snoc_eq_iff_butlast [THEN iffD1, THEN conjunct1, OF refl]] c(2)
    using assms(6,8) by (intro committed_merged) (auto simp: walk_order_def committable_def)
  ultimately show ?thesis by (simp add: fun_eq_iff)
qed

subsection \<open>Failed writes\<close>

definition write_failed :: "u32 \<Rightarrow> file_builder \<times> fs \<Rightarrow> bool" where
  "write_failed fid s \<longleftrightarrow> staging_root (fst s) \<noteq> None
     \<and> (case map_of (open_files (fst s)) fid of None \<Rightarrow> False | Some f \<Rightarrow> \<not> of_good f)"

fun opens :: "u32 \<Rightarrow> builder_op \<Rightarrow> bool" where
  "opens fid (Create_file rel fid') \<longleftrightarrow> fid = fid'"
| "opens fid _ \<longleftrightarrow> False"

lemma write_failed_step: "write_failed fid s \<Longrightarrow> \<not> opens fid x \<Longrightarrow> write_failed fid (builder_next s x)"
proof (cases x)
  case (Create_directory rel)
  then show "write_failed fid s \<Longrightarrow> ?thesis"
    by (auto simp: builder_next_def create_directory_def write_failed_def Let_def split: option.splits prod.split)
next
  case (Create_file rel fid')
  then show "write_failed fid s \<Longrightarrow> \<not> opens fid x \<Longrightarrow> ?thesis"
    by (auto simp: builder_next_def create_file_def write_failed_def Let_def update_conv'
        split: option.splits prod.split)
next
  case (Create_symlink rel target)
  then show "write_failed fid s \<Longrightarrow> ?thesis"
    by (auto simp: builder_next_def create_symlink_def write_failed_def Let_def
        split: option.splits prod.split sum.split)
next
  case (Write ok d fid')
  then show "write_failed fid s \<Longrightarrow> ?thesis"
    by (auto simp: builder_next_def write_data_def write_failed_def update_conv' split: option.splits)
next
  case (Close_file ok fid')
  then show "write_failed fid s \<Longrightarrow> ?thesis"
    by (auto simp: builder_next_def close_file_def write_failed_def update_conv' delete_conv'
        split: option.splits)
qed

interpretation failed_writes: step_system builder_next "write_failed fid" "\<lambda>x. \<not> opens fid x" for fid
  by unfold_locales (rule write_failed_step)



text \<open>
  A commit is not all or nothing: when an entry of the output directory is in the way (a
  directory where a file goes), the commit fails with \<open>is_a_directory\<close>, but the entries before
  it have already been moved (here over a file of the user), and the staging directory
  stays behind with the rest.
\<close>

definition conflict_fs :: fs where
  "conflict_fs =
     [([''out''], Directory), ([''out'', ''a''], File [1]), ([''out'', ''b''], Directory),
      ([''out'', ''tmp''], Directory), ([''out'', ''tmp'', ''a''], File [2]),
      ([''out'', ''tmp'', ''b''], File [3])]"

theorem commit_is_not_atomic:
  "let (ec, b, fs) = commit (\<lambda>_. True) (entries_below [''out'', ''tmp'']) sample_builder conflict_fs
   in ec = is_a_directory \<and> lookup fs [''out'', ''a''] = Some (File [2])
     \<and> lookup fs [''out'', ''tmp''] = Some Directory
     \<and> lookup fs [''out'', ''tmp'', ''b''] = Some (File [3])"
  by code_simp

end
