(* ===== verification/File_Transfer.thy ===== *)
theory File_Transfer
  imports Packets
begin

text \<open>
  \<open>File_transfer\<close> (\<open>include/file_transfer.hpp\<close>, \<open>src/file_transfer.cpp\<close>): the progress
  counters that the sender and the receiver share, with the 64-bit and 16-bit arithmetic of
  the code.
\<close>

record progress =
  bytes_to_transfer :: u64
  bytes_transferred :: u64
  last_progress :: u16

definition progress_new :: "u64 \<Rightarrow> progress" where
  "progress_new announced = \<lparr>bytes_to_transfer = announced, bytes_transferred = 0, last_progress = 0\<rparr>"

definition percent :: "u64 \<Rightarrow> u64 \<Rightarrow> u16" where
  "percent sent announced =
     (let raw = ucast ((sent * 100) div announced) in if 100 < raw then 100 else raw)"

text \<open>The new counters, and the percentage printed, if any. The error code is always empty.\<close>

definition print_progress :: "u64 \<Rightarrow> progress \<Rightarrow> progress \<times> u16 option" where
  "print_progress n p =
     (if bytes_to_transfer p = 0 then (p, None)
      else
        let sent = bytes_transferred p + n;
            new = percent sent (bytes_to_transfer p);
            p1 = p\<lparr>bytes_transferred := sent\<rparr>
        in if last_progress p < new then (p1\<lparr>last_progress := new\<rparr>, Some new) else (p1, None))"

lemma percent_le [simp]: "percent s a \<le> 100"
  by (simp add: percent_def Let_def not_less)

fun progress_run :: "u64 list \<Rightarrow> progress \<Rightarrow> progress \<times> u16 list" where
  "progress_run [] p = (p, [])"
| "progress_run (n # ns) p =
     (let (p1, out) = print_progress n p; (p2, outs) = progress_run ns p1
      in (p2, (case out of None \<Rightarrow> [] | Some x \<Rightarrow> [x]) @ outs))"

lemma print_progress_total [simp]:
  "bytes_to_transfer (fst (print_progress n p)) = bytes_to_transfer p"
  by (simp add: print_progress_def Let_def)

lemma progress_run_sorted:
  "last_progress p \<le> 100 \<Longrightarrow>
     sorted_wrt (<) (snd (progress_run ns p)) \<and> last_progress (fst (progress_run ns p)) \<le> 100
     \<and> (\<forall>x \<in> set (snd (progress_run ns p)). last_progress p < x \<and> x \<le> 100)"
proof (induction ns arbitrary: p)
  case (Cons n ns)
  let ?p1 = "fst (print_progress n p)"
  have p1: "last_progress ?p1 \<le> 100" "last_progress p \<le> last_progress ?p1"
    "\<And>x. snd (print_progress n p) = Some x \<Longrightarrow> x = last_progress ?p1 \<and> last_progress p < x"
    using Cons.prems by (auto simp: print_progress_def Let_def split: if_splits)
  from Cons.IH [OF p1(1)] p1(1,2) show ?case
    using p1(3) by (auto simp: split_beta Let_def split: option.split dest: order.strict_trans1)
qed simp

lemma print_progress_exact:
  assumes "0 < unat (bytes_to_transfer p)" "unat (bytes_to_transfer p) * 100 < 2 ^ 64"
    and "unat (bytes_transferred p) + unat n \<le> unat (bytes_to_transfer p)"
    and "unat (last_progress p) = 100 * unat (bytes_transferred p) div unat (bytes_to_transfer p)"
  shows "unat (bytes_transferred (fst (print_progress n p))) = unat (bytes_transferred p) + unat n
    \<and> unat (last_progress (fst (print_progress n p)))
      = 100 * (unat (bytes_transferred p) + unat n) div unat (bytes_to_transfer p)"
proof -
  let ?T = "unat (bytes_to_transfer p)" and ?s = "unat (bytes_transferred p) + unat n"
  have s: "unat (bytes_transferred p + n) = ?s"
    using assms(2,3) by (simp add: unat_word_ariths(1))
  have s100: "unat ((bytes_transferred p + n) * 100) = ?s * 100"
    using assms(2,3) s by (simp only: unat_word_ariths(2)) simp
  have le: "?s * 100 div ?T \<le> 100"
  proof -
    have "?s * 100 div ?T \<le> ?T * 100 div ?T" using assms(3) by (intro div_le_mono) simp
    then show ?thesis using assms(1) by simp
  qed
  have d: "unat ((bytes_transferred p + n) * 100 div bytes_to_transfer p) = ?s * 100 div ?T"
    by (simp only: unat_div s100)
  have "unat (ucast ((bytes_transferred p + n) * 100 div bytes_to_transfer p) :: u16)
      = ?s * 100 div ?T"
    using le by (simp only: unsigned_ucast_eq d) (simp add: take_bit_nat_eq_self)
  then have raw: "unat (percent (bytes_transferred p + n) (bytes_to_transfer p)) = ?s * 100 div ?T"
    using le by (auto simp: percent_def Let_def word_less_nat_alt)
  have mono: "100 * unat (bytes_transferred p) div ?T \<le> ?s * 100 div ?T"
    by (intro div_le_mono) simp
  have nz: "bytes_to_transfer p \<noteq> 0" using assms(1) by auto
  show ?thesis
    using raw le mono assms(4) nz s
    by (auto simp: print_progress_def Let_def word_less_nat_alt not_less mult.commute)
qed

lemma progress_run_exact:
  assumes "0 < unat (bytes_to_transfer p)" "unat (bytes_to_transfer p) * 100 < 2 ^ 64"
    and "unat (bytes_transferred p) + sum_list (map unat ns) \<le> unat (bytes_to_transfer p)"
    and "unat (last_progress p) = 100 * unat (bytes_transferred p) div unat (bytes_to_transfer p)"
  shows "unat (last_progress (fst (progress_run ns p)))
      = 100 * (unat (bytes_transferred p) + sum_list (map unat ns)) div unat (bytes_to_transfer p)"
  using assms
proof (induction ns arbitrary: p)
  case (Cons n ns)
  have "unat (bytes_transferred p) + unat n \<le> unat (bytes_to_transfer p)" using Cons.prems(3) by simp
  note e = print_progress_exact [OF Cons.prems(1,2) this Cons.prems(4)]
  show ?case
    using Cons.IH [of "fst (print_progress n p)"] Cons.prems e by (simp add: split_beta Let_def add.assoc)
qed simp

text \<open>
  C38. The percentages printed never exceed 100 and strictly increase, whatever the sizes
  reported; and as long as not more is reported than announced (and a hundred times that fits
  64 bits), the last percentage is exact, so 100 is reached exactly when everything has been
  transferred.
\<close>

theorem progress_reports:
  "sorted_wrt (<) (snd (progress_run ns (progress_new announced)))
   \<and> (\<forall>x \<in> set (snd (progress_run ns (progress_new announced))). 0 < x \<and> x \<le> 100)
   \<and> (0 < unat announced \<and> unat announced * 100 < 2 ^ 64 \<and> sum_list (map unat ns) \<le> unat announced \<longrightarrow>
       unat (last_progress (fst (progress_run ns (progress_new announced))))
         = 100 * sum_list (map unat ns) div unat announced)"
  using progress_run_sorted [of "progress_new announced" ns] progress_run_exact [of "progress_new announced" ns]
  by (simp add: progress_new_def)

theorem progress_reports_witness:
  "unat (last_progress (fst (progress_run [30, 20] (progress_new 100)))) = 50"
  using progress_reports [of "[30, 20]" 100] by simp

end
