(* ===== verification/File_Walker.thy ===== *)
theory File_Walker
  imports Prelude
begin

text \<open>
  \<open>File_walker\<close> (\<open>include/utils/file_walker.hpp\<close>, \<open>src/utils/file_walker.cpp\<close>): the walk over
  the files to send. Paths are the sequences of their elements (the root directory is the
  element \<open>/\<close>, a trailing separator an empty last element). What the file system answers is a
  parameter: \<open>status\<close> is \<open>symlink_status\<close>, \<open>listing\<close> what a new recursive iterator reports,
  each entry with the status \<open>entry.symlink_status\<close> finds. An exception of the iterator while
  it advances is not modelled.
\<close>

subsection \<open>Paths\<close>

definition append_path :: "string list \<Rightarrow> string list \<Rightarrow> string list" where
  "append_path base rel = (if base \<noteq> [] \<and> last base = [] then butlast base else base) @ rel"

fun mismatch :: "string list \<Rightarrow> string list \<Rightarrow> string list \<times> string list" where
  "mismatch (a # as) (b # bs) = (if a = b then mismatch as bs else (a # as, b # bs))"
| "mismatch as bs = (as, bs)"

fun ups :: "string list \<Rightarrow> int" where
  "ups [] = 0"
| "ups (b # bs) =
     (if b = ''..'' then - 1 else if b \<noteq> [] \<and> b \<noteq> ''.'' then 1 else 0) + ups bs"

text \<open>\<open>std::filesystem::path::lexically_relative\<close> for two absolute or two relative paths.\<close>

definition lexically_relative :: "string list \<Rightarrow> string list \<Rightarrow> string list" where
  "lexically_relative p base =
     (let (as, bs) = mismatch p base; n = ups bs in
      if as = [] \<and> bs = [] then [''.'']
      else if n = 0 \<and> (as = [] \<or> hd as = []) then [''.'']
      else if n \<ge> 0 then replicate (nat n) ''..'' @ as
      else [])"

definition filename :: "string list \<Rightarrow> string list" where
  "filename p = (if p = [] then [] else [last p])"

subsection \<open>State\<close>

datatype file_kind = FT_regular | FT_directory | FT_symlink | FT_other | FT_error

type_synonym dir_entry = "string list \<times> file_kind"

record file_walker =
  walker_root :: "string list"
  single_file :: bool
  single_file_returned :: bool
  it :: "dir_entry list"
  current :: "string list"

subsection \<open>Operations\<close>

text \<open>
  The constructor of the recursive iterator throws when the root is neither a directory nor
  handled as a single file; then there is no object.
\<close>

definition file_walker_new ::
  "(string list \<Rightarrow> file_kind) \<Rightarrow> (string list \<Rightarrow> dir_entry list) \<Rightarrow> string list \<Rightarrow> file_walker option" where
  "file_walker_new status listing root =
     (let w = \<lparr>walker_root = root, single_file = False, single_file_returned = False, it = [],
               current = []\<rparr> in
      if status root = FT_symlink \<or> status root = FT_regular
      then Some (w\<lparr>single_file := True, current := root\<rparr>)
      else if status root = FT_directory then Some (w\<lparr>it := listing root\<rparr>)
      else None)"

definition supported :: "dir_entry \<Rightarrow> bool" where
  "supported e \<longleftrightarrow> snd e = FT_symlink \<or> snd e = FT_regular \<or> snd e = FT_directory"

fun scan :: "dir_entry list \<Rightarrow> file_walker \<Rightarrow> bool \<times> file_walker" where
  "scan [] w = (False, w\<lparr>it := []\<rparr>)"
| "scan (e # es) w =
     (if \<not> supported e then scan es w else (True, w\<lparr>it := es, current := fst e\<rparr>))"

definition walker_next :: "file_walker \<Rightarrow> bool \<times> file_walker" where
  "walker_next w =
     (if single_file w
      then (if \<not> single_file_returned w then (True, w\<lparr>single_file_returned := True\<rparr>) else (False, w))
      else scan (it w) w)"

definition current_path :: "file_walker \<Rightarrow> string list" where
  "current_path w = current w"

definition relative_path :: "file_walker \<Rightarrow> string list" where
  "relative_path w =
     (if single_file w then filename (current w) else lexically_relative (current w) (walker_root w))"

definition reset :: "(string list \<Rightarrow> dir_entry list) \<Rightarrow> file_walker \<Rightarrow> file_walker" where
  "reset listing w =
     (if single_file w then w\<lparr>single_file_returned := False, current := walker_root w\<rparr>
      else w\<lparr>it := listing (walker_root w)\<rparr>)"

text \<open>The loop \<open>while(next())\<close> of the sender: the current and the relative paths it sees.\<close>

lemma scan_it:
  "scan es w = (b, w') \<Longrightarrow> b \<Longrightarrow> length (it w') < length es \<and> single_file w' = single_file w"
  by (induction es arbitrary: w) (fastforce split: if_splits intro: less_SucI)+

lemma scan_it_irrelevant: "scan es (w\<lparr>it := x\<rparr>) = scan es w"
  by (induction es arbitrary: w) auto

function walk_all :: "file_walker \<Rightarrow> (string list \<times> string list) list \<times> file_walker" where
  "walk_all w =
     (case walker_next w of
        (False, w1) \<Rightarrow> ([], w1)
      | (True, w1) \<Rightarrow>
          let (ps, w2) = walk_all w1 in ((current_path w1, relative_path w1) # ps, w2))"
  by pat_completeness auto

termination walk_all
  by (relation "measure (\<lambda>w. if single_file w then (if single_file_returned w then 0 else 1)
      else length (it w))")
    (auto simp: walker_next_def split: if_splits dest!: scan_it [OF sym])

declare walk_all.simps [simp del]

subsection \<open>Lemmas\<close>

lemma mismatch_append: "mismatch (xs @ as) (xs @ bs) = mismatch as bs"
  by (induction xs) auto

lemma lexically_relative_append:
  assumes "rel \<noteq> []" "hd rel \<noteq> []"
  shows "lexically_relative (append_path root rel) root = rel"
proof (cases "root \<noteq> [] \<and> last root = []")
  case True
  then have root: "root = butlast root @ [[]]" by (metis append_butlast_last_id)
  have "append_path root rel = butlast root @ rel" using True by (simp add: append_path_def)
  then have "mismatch (append_path root rel) root = mismatch rel [[]]"
    using mismatch_append [of "butlast root" rel "[[]]"] root by simp
  then show ?thesis
    using assms by (cases rel) (auto simp: lexically_relative_def Let_def)
next
  case False
  then have "mismatch (append_path root rel) root = (rel, [])"
    using mismatch_append [of root rel "[]"] by (cases rel) (auto simp: append_path_def)
  then show ?thesis
    using assms by (simp add: lexically_relative_def)
qed

lemma walk_all_directory:
  assumes "\<not> single_file w" "it w = es"
    and "list_all (\<lambda>e. \<exists>r. fst e = append_path (walker_root w) r \<and> r \<noteq> [] \<and> hd r \<noteq> []) es"
  shows "fst (walk_all w)
      = map (\<lambda>e. (fst e, lexically_relative (fst e) (walker_root w))) (filter supported es)
    \<and> walker_root (snd (walk_all w)) = walker_root w \<and> \<not> single_file (snd (walk_all w))"
  using assms
proof (induction es arbitrary: w)
  case Nil
  then show ?case by (subst (1 2 3) walk_all.simps) (simp add: walker_next_def)
next
  case (Cons e es)
  show ?case
  proof (cases "supported e")
    case True
    let ?w = "w\<lparr>it := es, current := fst e\<rparr>"
    have n: "walker_next w = (True, ?w)" using True Cons.prems by (simp add: walker_next_def)
    have "walk_all w = (let (ps, w2) = walk_all ?w in ((current_path ?w, relative_path ?w) # ps, w2))"
      using n by (subst walk_all.simps) simp
    then show ?thesis
      using Cons.IH [of ?w] Cons.prems True
      by (simp add: current_path_def relative_path_def split_beta Let_def)
  next
    case False
    let ?w = "w\<lparr>it := es\<rparr>"
    have "walker_next w = walker_next ?w"
      using False Cons.prems by (simp add: walker_next_def scan_it_irrelevant)
    then have "walk_all w = walk_all ?w" by (subst (1 2) walk_all.simps) simp
    then show ?thesis using Cons.IH [of ?w] Cons.prems False by simp
  qed
qed


lemma walk_all_single:
  assumes "single_file w" "\<not> single_file_returned w"
  shows "fst (walk_all w) = [(current w, filename (current w))]"
    and "single_file (snd (walk_all w))" "walker_root (snd (walk_all w)) = walker_root w"
  using assms by (subst walk_all.simps, subst walk_all.simps,
      simp add: walker_next_def current_path_def relative_path_def)+

definition entries_under :: "string list \<Rightarrow> dir_entry list \<Rightarrow> dir_entry list" where
  "entries_under root es = map (\<lambda>(r, k). (append_path root r, k)) es"

lemma lexical_entries:
  assumes "list_all (\<lambda>(r, k). r \<noteq> [] \<and> hd r \<noteq> []) es"
  shows "map (\<lambda>e. (fst e, lexically_relative (fst e) root)) (filter supported (entries_under root es))
    = map (\<lambda>(r, k). (append_path root r, r)) (filter supported es)"
  using assms
  by (induction es) (auto simp: entries_under_def supported_def lexically_relative_append)

lemma walk_twice:
  assumes "file_walker_new status listing root = Some w"
    and "listing root = entries_under root es" and "list_all (\<lambda>(r, k). r \<noteq> [] \<and> hd r \<noteq> []) es"
  shows "fst (walk_all w) =
      (if status root = FT_directory
       then map (\<lambda>(r, k). (append_path root r, r)) (filter supported es)
       else [(root, filename root)])
    \<and> fst (walk_all (reset listing (snd (walk_all w)))) = fst (walk_all w)
    \<and> (status root = FT_directory \<or> status root = FT_regular \<or> status root = FT_symlink)"
proof (cases "status root = FT_directory")
  case True
  then have w: "\<not> single_file w" "it w = entries_under root es" "walker_root w = root"
    using assms(1,2) by (auto simp: file_walker_new_def Let_def)
  have e: "list_all (\<lambda>e. \<exists>r. fst e = append_path root r \<and> r \<noteq> [] \<and> hd r \<noteq> []) (entries_under root es)"
    using assms(3) by (auto simp: entries_under_def list_all_iff)
  let ?w = "reset listing (snd (walk_all w))"
  note d = walk_all_directory [OF w(1,2), unfolded w(3), OF e]
  have "\<not> single_file ?w" "it ?w = entries_under root es" "walker_root ?w = root"
    using d assms(2) by (simp_all add: reset_def)
  from walk_all_directory [OF this(1,2), unfolded this(3), OF e] d True show ?thesis
    using lexical_entries [OF assms(3), of root] by simp
next
  case False
  then have k: "status root = FT_regular \<or> status root = FT_symlink"
    and w: "single_file w" "\<not> single_file_returned w" "current w = root" "walker_root w = root"
    using assms(1) by (auto simp: file_walker_new_def Let_def split: if_splits)
  note s = walk_all_single [OF w(1,2)]
  let ?w = "reset listing (snd (walk_all w))"
  have "single_file ?w" "\<not> single_file_returned ?w" "current ?w = root"
    using s(2,3) w(4) by (simp_all add: reset_def)
  from walk_all_single(1) [OF this(1,2)] this(3) s(1) w(3) k show ?thesis by auto
qed

text \<open>
  C22. The walk over a directory visits exactly the directories, regular files and links the
  iterator reports, in its order, and gives for each its path relative to the root, however
  the root is spelled; the walk over a single file (or a link, which is not followed) visits
  that file once under its own name. After \<open>reset\<close> a second walk sees the same again (so the
  sizes announced and the files sent are those of the same entries, as long as the file
  system does not change). Nothing else can be walked: then there is no walker.
\<close>

theorem walker_visits_every_entry:
  assumes "file_walker_new status listing root = Some w"
    and "listing root = entries_under root es" and "list_all (\<lambda>(r, k). r \<noteq> [] \<and> hd r \<noteq> []) es"
  shows "fst (walk_all w) =
      (if status root = FT_directory
       then map (\<lambda>(r, k). (append_path root r, r)) (filter supported es)
       else [(root, filename root)])
    \<and> fst (walk_all (reset listing (snd (walk_all w)))) = fst (walk_all w)
    \<and> (status root = FT_directory \<or> status root = FT_regular \<or> status root = FT_symlink)"
  using walk_twice [OF assms] .

theorem walker_visits_every_entry_witness:
  "\<exists>w. file_walker_new (\<lambda>_. FT_directory)
      (\<lambda>r. entries_under r [([''a''], FT_directory), ([''a'', ''p''], FT_other), ([''a'', ''f''], FT_regular)])
      [''src'', []] = Some w
    \<and> map snd (fst (walk_all w)) = [[''a''], [''a'', ''f'']]"
proof -
  let ?es = "[([''a''], FT_directory), ([''a'', ''p''], FT_other), ([''a'', ''f''], FT_regular)]"
  obtain w where w: "file_walker_new (\<lambda>_. FT_directory) (\<lambda>r. entries_under r ?es) [''src'', []] = Some w"
    by (simp add: file_walker_new_def Let_def)
  from walker_visits_every_entry [OF w refl] w show ?thesis by (simp add: supported_def)
qed

end
