(* ===== verification/Sender.thy ===== *)
theory Sender
  imports File_Transfer
begin

text \<open>
  \<open>Sender\<close> (\<open>include/sender/sender.hpp\<close>, \<open>src/sender/sender.cpp\<close>): the tree to send, as the
  file walker reports it, is turned into file-transfer packets. The awaited
  \<open>protostream_.send\<close>, \<open>receive\<close> and \<open>close\<close> are functions on a state of the channel, passed
  as arguments; \<open>stale\<close> is the old content of the uninitialised packet objects.
\<close>

subsection \<open>What the walker reports\<close>

text \<open>
  The relative path of an entry and what \<open>path_handler\<close> finds there: a regular file with its
  content (or one that cannot be opened), a directory, a link with its target, or anything
  else.
\<close>

datatype walk_kind = Regular bytes | Unreadable | Folder | Symlink string | Unsupported

type_synonym walk_entry = "string \<times> walk_kind"

subsection \<open>Packets\<close>

definition ftp_head :: "FtpType \<Rightarrow> nat \<Rightarrow> u32 \<Rightarrow> ftp_header" where
  "ftp_head t n fid =
     \<lparr>fh_type = ftp_code t, fh_flags = 0, fh_size = word_of_nat n, fh_file_id = fid\<rparr>"

definition control_packet :: "ftp_packet \<Rightarrow> FtpType \<Rightarrow> u32 \<Rightarrow> ftp_packet" where
  "control_packet stale t fid = stale\<lparr>fheader := ftp_head t 0 fid\<rparr>"

definition symlink_packet :: "ftp_packet \<Rightarrow> string \<Rightarrow> string \<Rightarrow> error_code + ftp_packet" where
  "symlink_packet stale rel target =
     (let n = 2 + length rel + length target in
      if FTP_PACKET_SIZE < n then Inl (make_error_code symlink_payload_too_large)
      else
        let d = le_bytes 2 (word_of_nat (length rel) :: u16) @ bytes_of_str rel @ bytes_of_str target
        in Inr \<lparr>fheader = ftp_head CREATE_SYMLINK n 0, fdata = d @ drop (length d) (fdata stale)\<rparr>)"

text \<open>The result of \<open>set_payload\<close> is ignored, here and for files.\<close>

definition directory_packet :: "ftp_packet \<Rightarrow> string \<Rightarrow> u32 \<Rightarrow> ftp_packet" where
  "directory_packet stale rel fid =
     snd (set_payload (bytes_of_str rel) (control_packet stale CREATE_DIRECTORY fid))"

definition file_packet :: "ftp_packet \<Rightarrow> string \<Rightarrow> u32 \<Rightarrow> ftp_packet" where
  "file_packet stale rel fid =
     (let p = snd (set_payload (bytes_of_str rel) stale)
      in p\<lparr>fheader := (fheader p)\<lparr>fh_type := ftp_code CREATE_FILE, fh_flags := 0,
                                  fh_file_id := fid\<rparr>\<rparr>)"

definition data_chunk_packet :: "ftp_packet \<Rightarrow> bytes \<Rightarrow> u32 \<Rightarrow> ftp_packet" where
  "data_chunk_packet stale d fid =
     \<lparr>fheader = ftp_head FILE_DATA (length d) fid, fdata = d @ drop (length d) (fdata stale)\<rparr>"

subsection \<open>Sending one path\<close>

record 's sender =
  file_id_counter :: u32
  sender_progress :: progress
  channel :: 's

type_synonym 's send_op = "bytes \<Rightarrow> 's \<Rightarrow> error_code \<times> 's"

definition send_ftp :: "'s send_op \<Rightarrow> ftp_packet \<Rightarrow> 's sender \<Rightarrow> error_code \<times> 's sender" where
  "send_ftp send p s = (let (ec, c) = send (as_bytes p) (channel s) in (ec, s\<lparr>channel := c\<rparr>))"

text \<open>
  The read loop: \<open>content\<close> is what the stream has left. A block of full size is always
  followed by another one, possibly empty.
\<close>

function send_content ::
  "'s send_op \<Rightarrow> ftp_packet \<Rightarrow> u32 \<Rightarrow> bytes \<Rightarrow> 's sender \<Rightarrow> error_code \<times> 's sender" where
  "send_content send stale fid content s =
     (let d = take FTP_PACKET_SIZE content;
          (ec, s1) = send_ftp send (data_chunk_packet stale d fid) s in
      if ec_failed ec then (ec, s1)
      else
        let s2 = s1\<lparr>sender_progress := fst (print_progress (word_of_nat (length d)) (sender_progress s1))\<rparr>
        in if length d = FTP_PACKET_SIZE
           then send_content send stale fid (drop FTP_PACKET_SIZE content) s2 else (no_error, s2))"
  by pat_completeness auto

termination send_content
  by (relation "measure (\<lambda>(send, stale, fid, content, s). length content)") auto

declare send_content.simps [simp del]

definition path_handler ::
  "'s send_op \<Rightarrow> ftp_packet \<Rightarrow> walk_entry \<Rightarrow> 's sender \<Rightarrow> error_code \<times> 's sender" where
  "path_handler send stale e s =
     (case e of (rel, k) \<Rightarrow>
       case k of
         Symlink target \<Rightarrow>
           (case symlink_packet stale rel target of
              Inl ec \<Rightarrow> (ec, s)
            | Inr p \<Rightarrow> send_ftp send p s)
       | Folder \<Rightarrow>
           send_ftp send (directory_packet stale rel (file_id_counter s))
             (s\<lparr>file_id_counter := file_id_counter s + 1\<rparr>)
       | Unreadable \<Rightarrow> (make_error_code file_open_failed, s)
       | Regular content \<Rightarrow>
           (let fid = file_id_counter s;
                s1 = s\<lparr>file_id_counter := fid + 1\<rparr>;
                (ec, s2) = send_ftp send (file_packet stale rel fid) s1 in
            if ec_failed ec then (ec, s2)
            else
              let (ec', s3) = send_content send stale fid content s2 in
              if ec_failed ec' then (ec', s3)
              else send_ftp send (control_packet stale END_FILE fid) s3)
       | Unsupported \<Rightarrow> (make_error_code unsupported_file_type, s))"

fun send_entries ::
  "'s send_op \<Rightarrow> ftp_packet \<Rightarrow> walk_entry list \<Rightarrow> 's sender \<Rightarrow> error_code \<times> 's sender" where
  "send_entries send stale [] s = (no_error, s)"
| "send_entries send stale (e # es) s =
     (let (ec, s1) = path_handler send stale e s in
      if ec_failed ec then (ec, s1) else send_entries send stale es s1)"

definition sender_start_transfer ::
  "'s send_op \<Rightarrow> ('s \<Rightarrow> error_code \<times> 's) \<Rightarrow> ftp_packet \<Rightarrow> walk_entry list \<Rightarrow> 's sender
     \<Rightarrow> error_code \<times> 's sender" where
  "sender_start_transfer send close stale es s =
     (let (ec, s1) = send_entries send stale es s in
      if ec_failed ec then (ec, s1)
      else
        let (ec', s2) = send_ftp send (control_packet stale END_TRANSFER_FTP 0) s1 in
        if ec_failed ec' then (ec', s2)
        else let (ec'', c) = close (channel s2) in (ec'', s2\<lparr>channel := c\<rparr>))"

subsection \<open>Confirmation\<close>

text \<open>
  The announcement is the number of bytes in the regular files of a first walk; \<open>sizes\<close> are
  their sizes. The answer is read into the header of the same packet.
\<close>

definition announced_bytes :: "u64 list \<Rightarrow> u64" where
  "announced_bytes sizes = foldl (+) 0 sizes"

definition announcement :: "ftp_packet \<Rightarrow> u64 \<Rightarrow> ftp_packet" where
  "announcement stale n =
     snd (set_payload (le_bytes 8 n)
       (stale\<lparr>fheader := \<lparr>fh_type = 0, fh_flags = 0, fh_size = 0, fh_file_id = 0\<rparr>\<rparr>))"

definition sender_transfer_confirmation ::
  "'s send_op \<Rightarrow> ('s \<Rightarrow> (error_code + bytes) \<times> 's) \<Rightarrow> ('s \<Rightarrow> error_code \<times> 's)
     \<Rightarrow> ftp_packet \<Rightarrow> u64 list \<Rightarrow> walk_entry list \<Rightarrow> 's sender \<Rightarrow> error_code \<times> 's sender" where
  "sender_transfer_confirmation send receive close stale sizes es s =
     (let n = announced_bytes sizes;
          s0 = s\<lparr>sender_progress := (sender_progress s)\<lparr>bytes_to_transfer := n\<rparr>\<rparr>;
          (ec, s1) = send_ftp send (announcement stale n) s0 in
      if ec_failed ec then (ec, s1)
      else
        let (r, c) = receive (channel s1); s2 = s1\<lparr>channel := c\<rparr> in
        case r of
          Inl ec' \<Rightarrow> (ec', s2)
        | Inr chunk \<Rightarrow>
            if length chunk < 8 then (make_error_code malformed_packet, s2)
            else if fh_type (ftp_header_of_bytes (take 8 chunk)) = ftp_code CONFIRM
            then sender_start_transfer send close stale es s2
            else (make_error_code receiver_refused_transfer, s2))"

definition sender_new :: "'s \<Rightarrow> 's sender" where
  "sender_new c = \<lparr>file_id_counter = 0, sender_progress = progress_new 0, channel = c\<rparr>"

subsection \<open>The packets of a transfer\<close>

text \<open>The blocks that the read loop sends for a content.\<close>

function blocks :: "bytes \<Rightarrow> bytes list" where
  "blocks content =
     (if FTP_PACKET_SIZE \<le> length content
      then take FTP_PACKET_SIZE content # blocks (drop FTP_PACKET_SIZE content) else [content])"
  by pat_completeness auto

termination blocks
  by (relation "measure length") auto

declare blocks.simps [simp del]

fun entry_packets :: "ftp_packet \<Rightarrow> u32 \<Rightarrow> walk_entry \<Rightarrow> ftp_packet list" where
  "entry_packets stale fid (rel, Symlink target) =
     (case symlink_packet stale rel target of Inl ec \<Rightarrow> [] | Inr p \<Rightarrow> [p])"
| "entry_packets stale fid (rel, Folder) = [directory_packet stale rel fid]"
| "entry_packets stale fid (rel, Regular content) =
     file_packet stale rel fid # map (\<lambda>d. data_chunk_packet stale d fid) (blocks content)
     @ [control_packet stale END_FILE fid]"
| "entry_packets stale fid (rel, _) = []"

fun next_id :: "u32 \<Rightarrow> walk_entry \<Rightarrow> u32" where
  "next_id fid (rel, Folder) = fid + 1"
| "next_id fid (rel, Regular content) = fid + 1"
| "next_id fid (rel, _) = fid"

fun entries_packets :: "ftp_packet \<Rightarrow> u32 \<Rightarrow> walk_entry list \<Rightarrow> ftp_packet list" where
  "entries_packets stale fid [] = []"
| "entries_packets stale fid (e # es) =
     entry_packets stale fid e @ entries_packets stale (next_id fid e) es"

definition transfer_packets :: "ftp_packet \<Rightarrow> u32 \<Rightarrow> walk_entry list \<Rightarrow> ftp_packet list" where
  "transfer_packets stale fid es =
     entries_packets stale fid es @ [control_packet stale END_TRANSFER_FTP 0]"

text \<open>Entries that the protocol can carry.\<close>

fun sendable :: "walk_entry \<Rightarrow> bool" where
  "sendable (rel, Symlink target) \<longleftrightarrow> 2 + length rel + length target \<le> FTP_PACKET_SIZE"
| "sendable (rel, Folder) \<longleftrightarrow> length rel \<le> FTP_PACKET_SIZE"
| "sendable (rel, Regular content) \<longleftrightarrow> length rel \<le> FTP_PACKET_SIZE"
| "sendable (rel, _) \<longleftrightarrow> False"

lemma concat_blocks [simp]: "concat (blocks content) = content"
proof (induction content rule: blocks.induct)
  case (1 content)
  show ?case
  proof (cases "FTP_PACKET_SIZE \<le> length content")
    case True
    then show ?thesis using 1 by (subst blocks.simps) simp
  next
    case False
    then show ?thesis by (subst blocks.simps) simp
  qed
qed

lemma blocks_shape:
  "\<exists>ds d. blocks content = ds @ [d] \<and> list_all (\<lambda>d. length d = FTP_PACKET_SIZE) ds
     \<and> length d < FTP_PACKET_SIZE"
proof (induction content rule: blocks.induct)
  case (1 content)
  show ?case
  proof (cases "FTP_PACKET_SIZE \<le> length content")
    case True
    then obtain ds d where "blocks (drop FTP_PACKET_SIZE content) = ds @ [d]"
      "list_all (\<lambda>d. length d = FTP_PACKET_SIZE) ds" "length d < FTP_PACKET_SIZE"
      using 1 by blast
    then show ?thesis
      using True
      by (intro exI [of _ "take FTP_PACKET_SIZE content # ds"] exI [of _ d]) (simp add: blocks.simps [of content])
  next
    case False
    then show ?thesis by (intro exI [of _ "[]"] exI [of _ content]) (simp add: blocks.simps)
  qed
qed

lemma blocks_length: "d \<in> set (blocks content) \<Longrightarrow> length d \<le> FTP_PACKET_SIZE"
  using blocks_shape [of content] by (auto simp: list_all_iff)

text \<open>Well-formedness of everything that is sent.\<close>

lemma length_payload_size: "length d \<le> FTP_PACKET_SIZE \<Longrightarrow> unat (word_of_nat (length d) :: u16) = length d"
  by (simp add: unsigned_of_nat take_bit_nat_eq_self)

lemma symlink_packet_facts:
  assumes "symlink_packet stale rel tgt = Inr p"
  shows "ftp_payload_size p = 2 + length rel + length tgt"
    and "2 + length rel + length tgt \<le> FTP_PACKET_SIZE"
    and "fdata p = le_bytes 2 (word_of_nat (length rel) :: u16) @ bytes_of_str rel @ bytes_of_str tgt
      @ drop (2 + length rel + length tgt) (fdata stale)"
proof -
  show le: "2 + length rel + length tgt \<le> FTP_PACKET_SIZE"
    using assms by (auto simp: symlink_packet_def Let_def split: if_splits)
  then have "unat (word_of_nat (2 + length rel + length tgt) :: u16) = 2 + length rel + length tgt"
    by (simp only: unsigned_of_nat) (simp add: take_bit_nat_eq_self)
  then show "ftp_payload_size p = 2 + length rel + length tgt"
    using assms le by (auto simp: symlink_packet_def Let_def ftp_payload_size_def ftp_head_def
        simp del: of_nat_add of_nat_Suc)
  show "fdata p = le_bytes 2 (word_of_nat (length rel) :: u16) @ bytes_of_str rel @ bytes_of_str tgt
      @ drop (2 + length rel + length tgt) (fdata stale)"
    using assms le by (auto simp: symlink_packet_def Let_def)
qed

lemma ftp_packets_wf:
  assumes "length (fdata stale) = FTP_PACKET_SIZE"
  shows "ftp_wf (control_packet stale t fid)"
    and "length d \<le> FTP_PACKET_SIZE \<Longrightarrow> ftp_wf (data_chunk_packet stale d fid)"
    and "length rel \<le> FTP_PACKET_SIZE \<Longrightarrow> ftp_wf (directory_packet stale rel fid)"
    and "length rel \<le> FTP_PACKET_SIZE \<Longrightarrow> ftp_wf (file_packet stale rel fid)"
    and "symlink_packet stale rel tgt = Inr p \<Longrightarrow> ftp_wf p"
    and "ftp_wf (announcement stale n)"
proof -
  show "ftp_wf p" if "symlink_packet stale rel tgt = Inr p"
    using symlink_packet_facts [OF that] assms by (simp add: ftp_wf_def)
qed (use assms in \<open>auto simp: ftp_wf_def control_packet_def ftp_head_def ftp_payload_size_def
      data_chunk_packet_def directory_packet_def file_packet_def set_payload_def
      announcement_def Let_def unsigned_of_nat take_bit_nat_eq_self\<close>)

lemma transfer_packets_wf:
  assumes "length (fdata stale) = FTP_PACKET_SIZE" "list_all sendable es"
  shows "list_all ftp_wf (transfer_packets stale fid es)"
proof -
  have one: "list_all ftp_wf (entry_packets stale fid e)" if "sendable e" for fid e
    using that ftp_packets_wf [OF assms(1)] blocks_length
    by (cases "(stale, fid, e)" rule: entry_packets.cases)
      (auto simp: list_all_iff split: sum.split)
  have "list_all ftp_wf (entries_packets stale fid es)"
    using assms(2) by (induction es arbitrary: fid) (auto intro: one)
  then show ?thesis using ftp_packets_wf(1) [OF assms(1)] by (simp add: transfer_packets_def)
qed

subsection \<open>The sender sends these packets\<close>

definition all_sent :: "'s send_op \<Rightarrow> ftp_packet list \<Rightarrow> 's \<Rightarrow> 's" where
  "all_sent send ps c = foldl (\<lambda>c p. snd (send (as_bytes p) c)) c ps"

lemma all_sent_append: "all_sent send (ps @ qs) c = all_sent send qs (all_sent send ps c)"
  by (simp add: all_sent_def)

lemma all_sent_Cons: "all_sent send (p # ps) c = all_sent send ps (snd (send (as_bytes p) c))"
  by (simp add: all_sent_def)

lemma all_sent_Nil [simp]: "all_sent send [] c = c"
  by (simp add: all_sent_def)

text \<open>A channel on which every send succeeds.\<close>

definition reliable :: "'s send_op \<Rightarrow> bool" where
  "reliable send \<longleftrightarrow> (\<forall>b c. fst (send b c) = no_error)"

lemma send_ftp_ok:
  assumes "reliable send"
  shows "send_ftp send p s = (no_error, s\<lparr>channel := all_sent send [p] (channel s)\<rparr>)"
  using assms by (simp add: reliable_def send_ftp_def split_beta Let_def all_sent_Cons)

lemma send_content_ok:
  assumes "reliable send"
  shows "fst (send_content send stale fid content s) = no_error
    \<and> channel (snd (send_content send stale fid content s))
      = all_sent send (map (\<lambda>d. data_chunk_packet stale d fid) (blocks content)) (channel s)
    \<and> file_id_counter (snd (send_content send stale fid content s)) = file_id_counter s"
proof (induction content arbitrary: s rule: blocks.induct)
  case (1 content)
  let ?d = "take FTP_PACKET_SIZE content"
  let ?s2 = "s\<lparr>channel := all_sent send [data_chunk_packet stale ?d fid] (channel s),
      sender_progress := fst (print_progress (word_of_nat (length ?d)) (sender_progress s))\<rparr>"
  have st: "send_content send stale fid content s =
      (if length ?d = FTP_PACKET_SIZE then send_content send stale fid (drop FTP_PACKET_SIZE content) ?s2
       else (no_error, ?s2))"
    by (subst send_content.simps) (simp add: send_ftp_ok [OF assms] Let_def)
  show ?case
  proof (cases "FTP_PACKET_SIZE \<le> length content")
    case True
    then show ?thesis
      using 1 [OF True, of ?s2] by (simp add: st blocks.simps [of content] all_sent_Cons)
  next
    case False
    then show ?thesis by (simp add: st blocks.simps [of content])
  qed
qed

lemma path_handler_ok:
  assumes "reliable send" "sendable e"
  shows "fst (path_handler send stale e s) = no_error
    \<and> channel (snd (path_handler send stale e s))
      = all_sent send (entry_packets stale (file_id_counter s) e) (channel s)
    \<and> file_id_counter (snd (path_handler send stale e s)) = next_id (file_id_counter s) e"
  using assms(2)
proof (induction e rule: sendable.induct)
  case (1 rel target)
  then obtain p where "symlink_packet stale rel target = Inr p"
    by (auto simp: symlink_packet_def Let_def)
  then show ?case by (simp add: path_handler_def send_ftp_ok [OF assms(1)])
next
  case (3 rel content)
  show ?case
    using send_content_ok [OF assms(1), of stale "file_id_counter s" content
        "s\<lparr>file_id_counter := file_id_counter s + 1,
            channel := all_sent send [file_packet stale rel (file_id_counter s)] (channel s)\<rparr>"]
    by (simp add: path_handler_def send_ftp_ok [OF assms(1)] split_beta Let_def all_sent_append
        all_sent_Cons)
qed (simp_all add: path_handler_def send_ftp_ok [OF assms(1)])

lemma send_entries_ok:
  assumes "reliable send" "list_all sendable es"
  shows "fst (send_entries send stale es s) = no_error
    \<and> channel (snd (send_entries send stale es s))
      = all_sent send (entries_packets stale (file_id_counter s) es) (channel s)"
  using assms(2)
proof (induction es arbitrary: s)
  case (Cons e es)
  note p = path_handler_ok [OF assms(1), of e stale s]
  show ?case
    using Cons.IH [of "snd (path_handler send stale e s)"] Cons.prems p
    by (simp add: split_beta Let_def all_sent_append)
qed simp

text \<open>
  C21. The read loop sends a file as FILE_DATA packets whose payloads, joined, are exactly its
  content; all but the last are full and the last one is shorter (empty when the size is a
  multiple of the block size, so an empty file is one empty packet), which is how the loop ends.
\<close>

theorem file_content_in_blocks:
  assumes "reliable send"
  shows "\<exists>ds d. concat ds @ d = content
    \<and> list_all (\<lambda>d. length d = FTP_PACKET_SIZE) ds \<and> length d < FTP_PACKET_SIZE
    \<and> fst (send_content send stale fid content s) = no_error
    \<and> channel (snd (send_content send stale fid content s))
        = all_sent send (map (\<lambda>d. data_chunk_packet stale d fid) (ds @ [d])) (channel s)"
proof -
  obtain ds d where b: "blocks content = ds @ [d]" "list_all (\<lambda>d. length d = FTP_PACKET_SIZE) ds"
    "length d < FTP_PACKET_SIZE"
    using blocks_shape by blast
  have "concat ds @ d = content" using concat_blocks [of content] b(1) by simp
  then show ?thesis
    using b send_content_ok [OF assms, of stale fid content s] by metis
qed

definition log_send :: "bytes list send_op" where
  "log_send b bs = (no_error, bs @ [b])"

lemma log_send_reliable [simp]: "reliable log_send"
  by (simp add: reliable_def log_send_def)

lemma all_sent_log: "all_sent log_send ps bs = bs @ map as_bytes ps"
  by (induction ps arbitrary: bs) (simp_all add: all_sent_Cons log_send_def)

theorem file_content_in_blocks_witness:
  "\<exists>ds d. concat ds @ d = [1, 2, 3]
    \<and> channel (snd (send_content log_send (sample_ftp []) 7 [1, 2, 3] (sender_new [])))
        = map (\<lambda>d. as_bytes (data_chunk_packet (sample_ftp []) d 7)) (ds @ [d])"
proof -
  from file_content_in_blocks [OF log_send_reliable, of "[1, 2, 3]" "sample_ftp []" 7 "sender_new []"]
  obtain ds d where "concat ds @ d = [1, 2, 3]"
    "channel (snd (send_content log_send (sample_ftp []) 7 [1, 2, 3] (sender_new [])))
      = all_sent log_send (map (\<lambda>d. data_chunk_packet (sample_ftp []) d 7) (ds @ [d]))
          (channel (sender_new []))"
    by blast
  then show ?thesis by (intro exI [of _ ds] exI [of _ d]) (simp add: all_sent_log sender_new_def)
qed




subsection \<open>Any channel\<close>

text \<open>The reference: send the packets one by one until the first error.\<close>

fun send_seq :: "'s send_op \<Rightarrow> ftp_packet list \<Rightarrow> 's \<Rightarrow> error_code \<times> 's" where
  "send_seq send [] c = (no_error, c)"
| "send_seq send (p # ps) c =
     (let (ec, c1) = send (as_bytes p) c in if ec_failed ec then (ec, c1) else send_seq send ps c1)"

lemma send_seq_append:
  "send_seq send (ps @ qs) c =
    (let (ec, c1) = send_seq send ps c in if ec_failed ec then (ec, c1) else send_seq send qs c1)"
  by (induction ps arbitrary: c) (auto simp: Let_def split: prod.split)

text \<open>Same channel, same error; without an error the file counter has moved on to \<open>fid\<close>.\<close>

definition follows :: "u32 \<Rightarrow> error_code \<times> 's \<Rightarrow> error_code \<times> 's sender \<Rightarrow> bool" where
  "follows fid q r \<longleftrightarrow> channel (snd r) = snd q
     \<and> (if ec_failed (fst q) then fst r = fst q
        else \<not> ec_failed (fst r) \<and> file_id_counter (snd r) = fid)"

lemma follows_send_ftp: "follows (file_id_counter s) (send_seq send [p] (channel s)) (send_ftp send p s)"
  by (auto simp: follows_def send_ftp_def Let_def split: prod.split)

lemma send_content_follows:
  "follows (file_id_counter s)
     (send_seq send (map (\<lambda>d. data_chunk_packet stale d fid) (blocks content)) (channel s))
     (send_content send stale fid content s)"
proof (induction content arbitrary: s rule: blocks.induct)
  case (1 content)
  define d where "d = take FTP_PACKET_SIZE content"
  have ld: "length d = FTP_PACKET_SIZE \<longleftrightarrow> FTP_PACKET_SIZE \<le> length content"
    by (auto simp: d_def)
  obtain ec c where e: "send (as_bytes (data_chunk_packet stale d fid)) (channel s) = (ec, c)"
    by (metis surj_pair)
  let ?s = "s\<lparr>channel := c,
      sender_progress := fst (print_progress (word_of_nat (length d)) (sender_progress s))\<rparr>"
  have st: "send_content send stale fid content s =
      (if ec_failed ec then (ec, s\<lparr>channel := c\<rparr>)
       else if FTP_PACKET_SIZE \<le> length content
       then send_content send stale fid (drop FTP_PACKET_SIZE content) ?s else (no_error, ?s))"
    by (subst send_content.simps)
      (simp add: send_ftp_def e Let_def ld flip: d_def del: FTP_PACKET_SIZE_eq)
  show ?case
  proof (cases "FTP_PACKET_SIZE \<le> length content")
    case True
    then have "blocks content = d # blocks (drop FTP_PACKET_SIZE content)"
      by (subst blocks.simps) (simp add: d_def)
    then show ?thesis
      using 1 [OF True, of ?s] True by (simp add: st e follows_def del: FTP_PACKET_SIZE_eq)
  next
    case False
    then have "blocks content = [d]" by (subst blocks.simps) (simp add: d_def)
    then show ?thesis using False by (simp add: st e follows_def del: FTP_PACKET_SIZE_eq)
  qed
qed

lemma path_handler_follows:
  assumes "sendable e"
  shows "follows (next_id (file_id_counter s) e)
    (send_seq send (entry_packets stale (file_id_counter s) e) (channel s)) (path_handler send stale e s)"
  using assms
proof (induction e rule: sendable.induct)
  case (1 rel target)
  then obtain p where "symlink_packet stale rel target = Inr p"
    by (auto simp: symlink_packet_def Let_def)
  then show ?case
    using follows_send_ftp [of s send p] by (simp add: path_handler_def del: send_seq.simps)
next
  case (2 rel)
  show ?case
    using follows_send_ftp [of "s\<lparr>file_id_counter := file_id_counter s + 1\<rparr>" send
        "directory_packet stale rel (file_id_counter s)"]
    by (simp add: path_handler_def del: send_seq.simps)
next
  case (3 rel content)
  let ?fid = "file_id_counter s" and ?stop = "control_packet stale END_FILE (file_id_counter s)"
  let ?ds = "map (\<lambda>d. data_chunk_packet stale d ?fid) (blocks content)"
  obtain ec c where e: "send (as_bytes (file_packet stale rel ?fid)) (channel s) = (ec, c)"
    by (metis surj_pair)
  let ?s = "s\<lparr>file_id_counter := ?fid + 1, channel := c\<rparr>"
  obtain ec1 s1 where r: "send_content send stale ?fid content ?s = (ec1, s1)" by (metis surj_pair)
  obtain ec2 c2 where q: "send_seq send ?ds c = (ec2, c2)" by (metis surj_pair)
  have f: "channel s1 = c2" "if ec_failed ec2 then ec1 = ec2 else \<not> ec_failed ec1 \<and> file_id_counter s1 = ?fid + 1"
    using send_content_follows [of ?s send stale ?fid content] r q by (auto simp: follows_def)
  have p: "path_handler send stale (rel, Regular content) s =
      (if ec_failed ec then (ec, ?s) else if ec_failed ec1 then (ec1, s1) else send_ftp send ?stop s1)"
    by (simp add: path_handler_def send_ftp_def e r Let_def)
  have "send_seq send (entry_packets stale ?fid (rel, Regular content)) (channel s) =
      (if ec_failed ec then (ec, c) else if ec_failed ec2 then (ec2, c2) else send_seq send [?stop] c2)"
    by (simp add: e q send_seq_append del: send_seq.simps(2)) (simp add: e q send_seq_append)
  then show ?case
    using f follows_send_ftp [of s1 send ?stop] unfolding p
    by (auto simp: follows_def split: if_splits)
qed simp_all

lemma send_entries_follows:
  assumes "list_all sendable es"
  shows "follows (file_id_counter (snd (send_entries send stale es s)))
    (send_seq send (entries_packets stale (file_id_counter s) es) (channel s))
    (send_entries send stale es s)"
  using assms
proof (induction es arbitrary: s)
  case Nil
  then show ?case by (simp add: follows_def)
next
  case (Cons e es)
  obtain ec s1 where r: "path_handler send stale e s = (ec, s1)" by (metis surj_pair)
  obtain ec1 c1 where q: "send_seq send (entry_packets stale (file_id_counter s) e) (channel s) = (ec1, c1)"
    by (metis surj_pair)
  have "sendable e" using Cons.prems by simp
  from path_handler_follows [OF this, of s send stale] r q Cons.IH [of s1] Cons.prems
  show ?case by (auto simp: follows_def send_seq_append split: if_splits)
qed

text \<open>
  C18. On any channel, whatever it answers, the transfer of a tree that the protocol can carry
  is the sending of its packets one after the other: it stops at the first send that fails
  and returns that error, without END_TRANSFER and without closing; when none fails, the
  stream is closed and the result is that of \<open>close\<close>.
\<close>

theorem sender_is_packet_sequence:
  assumes "list_all sendable es"
  shows "let (ec, c) = send_seq send (transfer_packets stale (file_id_counter s) es) (channel s);
      (ec', s') = sender_start_transfer send close stale es s in
    if ec_failed ec then ec' = ec \<and> channel s' = c
    else ec' = fst (close c) \<and> channel s' = snd (close c)"
proof -
  let ?stop = "control_packet stale END_TRANSFER_FTP 0"
  obtain ec s1 where r: "send_entries send stale es s = (ec, s1)" by (metis surj_pair)
  obtain ec1 c1 where q: "send_seq send (entries_packets stale (file_id_counter s) es) (channel s) = (ec1, c1)"
    by (metis surj_pair)
  obtain ec2 c2 where e: "send (as_bytes ?stop) c1 = (ec2, c2)" by (metis surj_pair)
  have "channel s1 = c1" "if ec_failed ec1 then ec = ec1 else \<not> ec_failed ec"
    using send_entries_follows [OF assms, of send stale s] r q by (auto simp: follows_def split: if_splits)
  then show ?thesis
    by (auto simp: sender_start_transfer_def transfer_packets_def send_seq_append r q e send_ftp_def
        Let_def split_beta split: if_splits)
qed

definition short_send :: "nat \<Rightarrow> bytes list send_op" where
  "short_send n b bs = (if length bs < n then (no_error, bs @ [b]) else (operation_aborted, bs))"

theorem sender_is_packet_sequence_witness:
  "fst (sender_start_transfer (short_send 1) (\<lambda>c. (no_error, c)) (sample_ftp [])
      [(''d'', Folder), (''e'', Folder)] (sender_new [])) = operation_aborted"
proof -
  have s: "list_all sendable [(''d'', Folder), (''e'', Folder)]" by simp
  from sender_is_packet_sequence [OF s, of "short_send 1" "sample_ftp []" "sender_new []" "\<lambda>c. (no_error, c)"]
  show ?thesis
    by (simp add: transfer_packets_def sender_new_def short_send_def split_beta Let_def)
qed

end
