(* ===== verification/Receiver.thy ===== *)
theory Receiver
  imports Sender Staging
begin

text \<open>
  \<open>Receiver\<close> (\<open>include/receiver/receiver.hpp\<close>, \<open>src/receiver/receiver.cpp\<close>): the received
  chunks are parsed into file-transfer packets and carried out on the staging tree. The
  results of the awaited \<open>protostream_.receive()\<close> calls, the lines typed by the user and
  whether each disk write succeeds (\<open>io\<close>) are inputs; \<open>stale\<close> is the old content of an
  uninitialised packet's data array.
\<close>

subsection \<open>State\<close>

record receiver =
  end_transfer_flag :: bool
  bytes_remaining :: u64
  receiver_progress :: progress
  builder :: file_builder
  store :: fs

definition receiver_new :: "file_builder \<Rightarrow> fs \<Rightarrow> receiver" where
  "receiver_new b fs =
     \<lparr>end_transfer_flag = False, bytes_remaining = 0, receiver_progress = progress_new 0,
      builder = b, store = fs\<rparr>"

subsection \<open>Payloads\<close>

definition extract_path :: "ftp_packet \<Rightarrow> string" where
  "extract_path p = str_of_bytes (ftp_payload p)"

definition extract_symlink :: "ftp_packet \<Rightarrow> error_code + string \<times> string" where
  "extract_symlink p =
     (let payload_size = ftp_payload_size p in
      if payload_size < 2 then Inl (make_error_code malformed_symlink_payload)
      else
        let link_path_size = unat (le_word (take 2 (fdata p)) :: u16) in
        if payload_size - 2 < link_path_size then Inl (make_error_code malformed_symlink_payload)
        else
          let target_size = payload_size - 2 - link_path_size in
          Inr (str_of_bytes (take link_path_size (drop 2 (fdata p))),
               str_of_bytes (take target_size (drop (2 + link_path_size) (fdata p)))))"

subsection \<open>Handling a packet\<close>

definition with_builder ::
  "error_code \<times> file_builder \<times> fs \<Rightarrow> receiver \<Rightarrow> error_code \<times> receiver" where
  "with_builder r st = (case r of (ec, b, fs) \<Rightarrow> (ec, st\<lparr>builder := b, store := fs\<rparr>))"

definition handle_file_data :: "bool \<Rightarrow> ftp_packet \<Rightarrow> receiver \<Rightarrow> error_code \<times> receiver" where
  "handle_file_data ok p st =
     (let n = word_of_nat (ftp_payload_size p) in
      if n \<le> bytes_remaining st then
        let (ec, st1) = with_builder
              (write_data ok (ftp_payload p) (fh_file_id (fheader p)) (builder st) (store st)) st in
        if ec_failed ec then (ec, st1)
        else (no_error, st1\<lparr>bytes_remaining := bytes_remaining st - n,
                receiver_progress := fst (print_progress n (receiver_progress st))\<rparr>)
      else (make_error_code transfer_size_exceeded, st))"

definition handle_packet :: "bool \<Rightarrow> ftp_packet \<Rightarrow> receiver \<Rightarrow> error_code \<times> receiver" where
  "handle_packet ok p st =
     (let t = fh_type (fheader p) in
      if t = ftp_code CREATE_DIRECTORY then
        with_builder (create_directory (extract_path p) (builder st) (store st)) st
      else if t = ftp_code CREATE_FILE then
        with_builder (create_file (extract_path p) (fh_file_id (fheader p)) (builder st) (store st)) st
      else if t = ftp_code CREATE_SYMLINK then
        (case extract_symlink p of
           Inl ec \<Rightarrow> (ec, st)
         | Inr (rel, target) \<Rightarrow> with_builder (create_symlink rel target (builder st) (store st)) st)
      else if t = ftp_code FILE_DATA then handle_file_data ok p st
      else if t = ftp_code END_FILE then
        with_builder (close_file ok (fh_file_id (fheader p)) (builder st) (store st)) st
      else if t = ftp_code END_TRANSFER_FTP then
        (if bytes_remaining st \<noteq> 0 then (make_error_code premature_end_transfer, st)
         else (no_error, st\<lparr>end_transfer_flag := True\<rparr>))
      else (make_error_code unknown_packet_type, st))"

subsection \<open>The transfer loop\<close>

text \<open>
  The state of the loop: it waits for the next chunk, it returned an error after the cleanup,
  it returned without one, \<open>commit\<close> failed, \<open>commit\<close> succeeded and the stream is being closed,
  or the copy of the payload left the packet object.
\<close>

datatype transfer_state =
  Receiving | Failed error_code | Returned error_code | Commit_failed error_code | Closing | Undefined

definition cleaned :: "bool \<Rightarrow> receiver \<Rightarrow> receiver" where
  "cleaned ok st =
     (let (b, fs) = cleanup (\<lambda>_. ok) (builder st) (store st)
      in st\<lparr>builder := b, store := fs\<rparr>)"

definition after_packet ::
  "(fs \<Rightarrow> path list) \<Rightarrow> bool \<Rightarrow> error_code \<times> receiver \<Rightarrow> transfer_state \<times> receiver" where
  "after_packet listing ok r =
     (case r of (ec, st) \<Rightarrow>
        if ec_failed ec then (Failed ec, cleaned ok st)
        else if end_transfer_flag st then
          (case commit (\<lambda>_. ok) listing (builder st) (store st) of
             (ec', b, fs) \<Rightarrow>
               (if ec_failed ec' then Commit_failed ec' else Closing, st\<lparr>builder := b, store := fs\<rparr>))
        else (Receiving, st))"

definition transfer_iteration ::
  "(fs \<Rightarrow> path list) \<Rightarrow> bool \<Rightarrow> bytes \<Rightarrow> error_code + bytes \<Rightarrow> receiver
     \<Rightarrow> transfer_state \<times> receiver" where
  "transfer_iteration listing ok stale r st =
     (case r of
        Inl ec \<Rightarrow> (Failed ec, cleaned ok st)
      | Inr chunk \<Rightarrow>
          (case parse_chunk stale chunk of
             Malformed \<Rightarrow> (Failed (make_error_code malformed_packet), cleaned ok st)
           | Overflow \<Rightarrow> (Undefined, st)
           | Parsed p \<Rightarrow> after_packet listing ok (handle_packet ok p st)))"

text \<open>The loop over the results of the \<open>receive()\<close> calls; each comes with the disk's answer.\<close>

fun receiver_start_transfer ::
  "(fs \<Rightarrow> path list) \<Rightarrow> bytes \<Rightarrow> (bool \<times> (error_code + bytes)) list \<Rightarrow> receiver
     \<Rightarrow> transfer_state \<times> receiver" where
  "receiver_start_transfer listing stale [] st = (Receiving, st)"
| "receiver_start_transfer listing stale ((ok, r) # rs) st =
     (case transfer_iteration listing ok stale r st of
        (Receiving, st1) \<Rightarrow> receiver_start_transfer listing stale rs st1
      | (s, st1) \<Rightarrow> (s, st1))"

subsection \<open>Confirmation\<close>

text \<open>
  The prompt loop: \<open>getline\<close> on the lines the user will type. At the end of the input it
  reads nothing, leaves \<open>confirm\<close> empty, and the loop goes on.
\<close>

partial_function (option) confirm_loop :: "string list \<Rightarrow> bool option" where
  "confirm_loop ls =
     (case ls of
        [] \<Rightarrow> confirm_loop []
      | l # ls' \<Rightarrow>
          if l = ''Y'' \<or> l = ''y'' then Some True
          else if l = ''n'' \<or> l = ''N'' then Some False
          else confirm_loop ls')"

text \<open>
  Up to the prompt: the announced size is read from the first chunk. No cleanup happens on
  any path of the confirmation.
\<close>

datatype announcement_result = Refused error_code | Announced receiver | Announcement_overflow

definition receive_announcement ::
  "bytes \<Rightarrow> error_code + bytes \<Rightarrow> receiver \<Rightarrow> announcement_result" where
  "receive_announcement stale r st =
     (case r of
        Inl ec \<Rightarrow> Refused ec
      | Inr chunk \<Rightarrow>
          if length chunk < 8 then Refused (make_error_code malformed_packet)
          else
            let n = unat (fh_size (ftp_header_of_bytes (take 8 chunk))) in
            if length chunk < 8 + n then Refused (make_error_code malformed_packet)
            else if n < 8 then Refused (make_error_code malformed_packet)
            else case parse_chunk stale chunk of
              Parsed p \<Rightarrow>
                (let total_bytes = le_word (take 8 (ftp_payload p)) in
                 Announced (st\<lparr>bytes_remaining := total_bytes,
                   receiver_progress := (receiver_progress st)\<lparr>bytes_to_transfer := total_bytes\<rparr>\<rparr>))
            | _ \<Rightarrow> Announcement_overflow)"

definition answer_packet :: "ftp_packet \<Rightarrow> bool \<Rightarrow> ftp_packet" where
  "answer_packet stale yes = control_packet stale (if yes then CONFIRM else CONFIRM_FAILED) 0"

text \<open>After the answer was sent with result \<open>ec\<close>: only a sent CONFIRM starts the transfer.\<close>

definition answer_sent :: "bool \<Rightarrow> error_code \<Rightarrow> receiver \<Rightarrow> transfer_state \<times> receiver" where
  "answer_sent yes ec st =
     (if ec_failed ec then (Returned ec, st)
      else if yes then (Receiving, st) else (Returned ec, st))"

subsection \<open>Links on the wire\<close>

lemma take_three:
  assumes "a + b \<le> n"
  shows "take n l = take a l @ take b (drop a l) @ take (n - a - b) (drop (a + b) l)"
proof -
  obtain c where n: "n = a + b + c" using assms by (metis le_add_diff_inverse)
  have "take (a + b + c) l = take a l @ take b (drop a l) @ take c (drop (a + b) l)"
    by (simp only: take_add append_assoc)
  then show ?thesis by (simp add: n)
qed

lemma extract_symlink_payload:
  assumes "ftp_wf p" "extract_symlink p = Inr (rel, target)"
  shows "ftp_payload p
    = le_bytes 2 (word_of_nat (length rel) :: u16) @ bytes_of_str rel @ bytes_of_str target"
proof -
  let ?n = "ftp_payload_size p" and ?k = "unat (le_word (take 2 (fdata p)) :: u16)"
  have len: "?n \<le> length (fdata p)" using assms(1) by (simp add: ftp_wf_def)
  have b: "2 \<le> ?n" "?k \<le> ?n - 2"
    and rel: "rel = str_of_bytes (take ?k (drop 2 (fdata p)))"
    and target: "target = str_of_bytes (take (?n - 2 - ?k) (drop (2 + ?k) (fdata p)))"
    using assms(2) by (auto simp: extract_symlink_def Let_def split: if_splits)
  obtain x y where xy: "take 2 (fdata p) = [x, y]"
    using b(1) len by (cases "fdata p"; cases "tl (fdata p)") (auto simp: numeral_2_eq_2)
  have w: "le_bytes 2 (le_word [x, y] :: u16) = [x, y]"
  proof -
    have "le_word [x, y] = (ucast x OR push_bit 8 (ucast y) :: u16)" by simp
    moreover have "ucast (ucast x OR push_bit 8 (ucast y) :: u16) = x"
      by (rule bit_word_eqI) (auto simp: bit_simps)
    moreover have "ucast (drop_bit 8 (ucast x OR push_bit 8 (ucast y) :: u16)) = y"
      by (rule bit_word_eqI) (auto simp: bit_simps dest: bit_imp_le_length)
    ultimately show ?thesis by (simp add: numeral_2_eq_2)
  qed
  have "length rel = ?k" using rel b len by simp
  then have k: "le_bytes 2 (word_of_nat (length rel) :: u16) = take 2 (fdata p)"
    using w xy by simp
  have "ftp_payload p = take ?n (fdata p)" by (simp add: ftp_payload_def)
  also have "\<dots> = take 2 (fdata p) @ take ?k (drop 2 (fdata p))
      @ take (?n - 2 - ?k) (drop (2 + ?k) (fdata p))"
    using b by (intro take_three) simp
  finally show ?thesis unfolding k using rel target by simp
qed

lemma extract_symlink_of_payload:
  assumes "ftp_payload p
      = le_bytes 2 (word_of_nat (length rel) :: u16) @ bytes_of_str rel @ bytes_of_str target"
    and "ftp_payload_size p = 2 + length rel + length target" "length rel < 65536"
    and "ftp_wf p"
  shows "extract_symlink p = Inr (rel, target)"
proof -
  let ?d = "fdata p"
  have len: "2 + length rel + length target \<le> length ?d" using assms(2,4) by (simp add: ftp_wf_def)
  have t: "take (2 + length rel + length target) ?d
      = le_bytes 2 (word_of_nat (length rel) :: u16) @ bytes_of_str rel @ bytes_of_str target"
    using assms(1,2) by (simp add: ftp_payload_def)
  have t2: "take 2 ?d = le_bytes 2 (word_of_nat (length rel) :: u16)"
    using arg_cong [OF t, of "take 2"] by (simp add: min_def)
  have d2: "take (length rel) (drop 2 ?d) = bytes_of_str rel"
    using arg_cong [OF t, of "\<lambda>l. take (length rel) (drop 2 l)"] by (simp add: drop_take min_def)
  have d3: "take (length target) (drop (2 + length rel) ?d) = bytes_of_str target"
    using arg_cong [OF t, of "drop (2 + length rel)"] by (simp add: drop_take)
  have k: "unat (le_word (take 2 ?d) :: u16) = length rel"
    using assms(3) by (simp add: t2 le16.dec_enc unsigned_of_nat take_bit_nat_eq_self)
  show ?thesis
    using d2 d3 by (simp add: extract_symlink_def Let_def assms(2) k)
qed

lemma symlink_payload:
  assumes "symlink_packet stale rel target = Inr p"
  shows "ftp_payload p
    = le_bytes 2 (word_of_nat (length rel) :: u16) @ bytes_of_str rel @ bytes_of_str target"
  unfolding ftp_payload_def symlink_packet_facts(1,3) [OF assms] by simp

text \<open>
  C28. Links survive the wire: what the sender packs for a link is parsed by the receiver
  back to its path and target, whatever the buffers held; and of every packet the receiver
  accepts as a link, the payload is exactly the length, the path and the target it reads, so
  nothing outside the payload is read.
\<close>

theorem symlink_roundtrip:
  assumes "symlink_packet stale rel target = Inr p" and "length (fdata stale) = FTP_PACKET_SIZE"
    and "length stale' = FTP_PACKET_SIZE"
  shows "(\<exists>q. parse_chunk stale' (as_bytes p) = Parsed q \<and> extract_symlink q = Inr (rel, target))
    \<and> (ftp_wf r \<and> extract_symlink r = Inr (l, t) \<longrightarrow> ftp_payload r
        = le_bytes 2 (word_of_nat (length l) :: u16) @ bytes_of_str l @ bytes_of_str t)"
proof -
  note f = symlink_packet_facts [OF assms(1)]
  have wf: "ftp_wf p" using ftp_packets_wf(5) [OF assms(2,1)] .
  note pay = symlink_payload [OF assms(1)]
  obtain q where q: "parse_chunk stale' (as_bytes p) = Parsed q" "ftp_wf q"
    "fheader q = fheader p" "ftp_payload q = ftp_payload p"
    using parse_chunk_as_bytes [OF wf assms(3)] by blast
  have "extract_symlink q = Inr (rel, target)"
    using q pay f(1,2) by (intro extract_symlink_of_payload) (simp_all add: ftp_payload_size_def)
  then show ?thesis using q(1) extract_symlink_payload by blast
qed

theorem symlink_roundtrip_witness:
  "\<exists>p q. symlink_packet (sample_ftp []) ''a/l'' ''../t'' = Inr p
    \<and> parse_chunk (replicate 1392 9) (as_bytes p) = Parsed q
    \<and> extract_symlink q = Inr (''a/l'', ''../t'')"
proof -
  obtain p where p: "symlink_packet (sample_ftp []) ''a/l'' ''../t'' = Inr p"
    by (simp add: symlink_packet_def Let_def)
  have l: "length (fdata (sample_ftp [])) = FTP_PACKET_SIZE" "length (replicate 1392 (9 :: u8)) = FTP_PACKET_SIZE"
    by (simp_all add: sample_ftp_def set_payload_def)
  from symlink_roundtrip [OF p l] p show ?thesis by blast
qed

subsection \<open>The prompt\<close>

abbreviation answers :: "string set" where
  "answers \<equiv> {''Y'', ''y'', ''n'', ''N''}"

lemma confirm_loop_Some:
  assumes ret: "confirm_loop ls = Some b"
  shows "\<exists>pre l post. ls = pre @ l # post \<and> l \<in> answers"
proof (rule confirm_loop.raw_induct
    [where P = "\<lambda>ls b. \<exists>pre l post. ls = pre @ l # post \<and> l \<in> answers", OF _ ret])
  fix f ls b
  assume IH: "\<And>ls b. f ls = Some b \<Longrightarrow> \<exists>pre l post. ls = pre @ l # post \<and> l \<in> answers"
    and eq: "(case ls of [] \<Rightarrow> f []
       | l # ls' \<Rightarrow>
           if l = ''Y'' \<or> l = ''y'' then Some True
           else if l = ''n'' \<or> l = ''N'' then Some False else f ls') = Some b"
  show "\<exists>pre l post. ls = pre @ l # post \<and> l \<in> answers"
  proof (cases ls)
    case Nil
    then show ?thesis using IH [of "[]" b] eq by simp
  next
    case (Cons l ls')
    show ?thesis
    proof (cases "l \<in> answers")
      case True
      then show ?thesis using Cons by blast
    next
      case False
      then have "f ls' = Some b" using eq Cons by simp
      then show ?thesis using IH [of ls' b] Cons by (metis append_Cons)
    qed
  qed
qed

text \<open>
  C34. The prompt returns exactly when some line typed is one of \<open>Y\<close>, \<open>y\<close>, \<open>n\<close>, \<open>N\<close>, with the
  answer of the first such line; on any other input (in particular when standard input is
  closed) the loop never ends.
\<close>

theorem confirm_loop_terminates:
  "confirm_loop ls =
     (case dropWhile (\<lambda>l. l \<notin> answers) ls of
        [] \<Rightarrow> None | l # _ \<Rightarrow> Some (l \<in> {''Y'', ''y''}))"
proof (induction ls)
  case Nil
  have "confirm_loop [] = None" using confirm_loop_Some [of "[]"] by (cases "confirm_loop []") auto
  then show ?case by simp
next
  case (Cons l ls)
  show ?case
    using Cons by (subst confirm_loop.simps) auto
qed

subsection \<open>Accounting\<close>

definition packet_data :: "ftp_packet \<Rightarrow> nat" where
  "packet_data p = (if fh_type (fheader p) = ftp_code FILE_DATA then ftp_payload_size p else 0)"

lemma unat_payload_size: "unat (word_of_nat (ftp_payload_size p) :: u64) = ftp_payload_size p"
proof -
  have "ftp_payload_size p < 2 ^ 16"
    using unsigned_less [of "fh_size (fheader p)"] by (simp add: ftp_payload_size_def)
  then show ?thesis by (simp add: unsigned_of_nat take_bit_nat_eq_self)
qed

lemma with_builder_fields [simp]:
  "bytes_remaining (snd (with_builder r st)) = bytes_remaining st"
  "end_transfer_flag (snd (with_builder r st)) = end_transfer_flag st"
  "builder (snd (with_builder r st)) = fst (snd r)"
  "store (snd (with_builder r st)) = snd (snd r)"
  "fst (with_builder r st) = fst r"
  by (simp_all add: with_builder_def split_beta)

lemma with_builder_dest:
  "with_builder r st = (ec, st') \<Longrightarrow>
    bytes_remaining st' = bytes_remaining st \<and> end_transfer_flag st' = end_transfer_flag st
    \<and> r = (ec, builder st', store st')"
  by (auto simp: with_builder_def split: prod.splits)

lemma handle_file_data_accounts:
  assumes "handle_file_data ok p st = (ec, st')" "\<not> ec_failed ec"
  shows "unat (bytes_remaining st') + ftp_payload_size p = unat (bytes_remaining st)"
    and "end_transfer_flag st' = end_transfer_flag st"
proof -
  let ?n = "word_of_nat (ftp_payload_size p) :: u64"
  have le: "?n \<le> bytes_remaining st"
    using assms by (auto simp: handle_file_data_def Let_def split: if_splits)
  then have r: "bytes_remaining st' = bytes_remaining st - ?n"
    and "end_transfer_flag st' = end_transfer_flag st"
    using assms by (auto simp: handle_file_data_def Let_def split_beta split: if_splits)
  then show "end_transfer_flag st' = end_transfer_flag st" by simp
  have "unat (bytes_remaining st - ?n) = unat (bytes_remaining st) - unat ?n"
    using le by (rule unat_sub)
  then show "unat (bytes_remaining st') + ftp_payload_size p = unat (bytes_remaining st)"
    using le r by (simp add: unat_payload_size word_le_nat_alt)
qed

lemma handle_packet_accounts:
  assumes "handle_packet ok p st = (ec, st')" "\<not> ec_failed ec" "\<not> end_transfer_flag st"
  shows "unat (bytes_remaining st') + packet_data p = unat (bytes_remaining st)"
    and "end_transfer_flag st' \<Longrightarrow>
      fh_type (fheader p) = ftp_code END_TRANSFER_FTP \<and> bytes_remaining st = 0"
proof -
  have "unat (bytes_remaining st') + packet_data p = unat (bytes_remaining st)
      \<and> (end_transfer_flag st' \<longrightarrow>
          fh_type (fheader p) = ftp_code END_TRANSFER_FTP \<and> bytes_remaining st = 0)"
  proof (cases "fh_type (fheader p) = ftp_code FILE_DATA")
    case True
    then have "handle_file_data ok p st = (ec, st')"
      using assms(1) by (simp add: handle_packet_def)
    from handle_file_data_accounts [OF this assms(2)] True show ?thesis
      using assms(3) by (simp add: packet_data_def)
  next
    case False
    note d = with_builder_dest
    from False have "bytes_remaining st' = bytes_remaining st"
      and "end_transfer_flag st' \<longrightarrow>
          fh_type (fheader p) = ftp_code END_TRANSFER_FTP \<and> bytes_remaining st = 0"
      using assms
      by (auto simp: handle_packet_def Let_def split: if_splits sum.splits prod.splits dest!: d)
    then show ?thesis using False by (simp add: packet_data_def)
  qed
  then show "unat (bytes_remaining st') + packet_data p = unat (bytes_remaining st)"
    "end_transfer_flag st' \<Longrightarrow>
      fh_type (fheader p) = ftp_code END_TRANSFER_FTP \<and> bytes_remaining st = 0"
    by blast+
qed


text \<open>The bytes of file data in the chunks of a run.\<close>

definition chunk_data :: "bytes \<Rightarrow> bool \<times> (error_code + bytes) \<Rightarrow> nat" where
  "chunk_data stale r =
     (case snd r of
        Inr chunk \<Rightarrow> (case parse_chunk stale chunk of Parsed p \<Rightarrow> packet_data p | _ \<Rightarrow> 0)
      | Inl ec \<Rightarrow> 0)"

definition chunk_is :: "FtpType \<Rightarrow> bytes \<Rightarrow> bool \<times> (error_code + bytes) \<Rightarrow> bool" where
  "chunk_is t stale r =
     (case snd r of
        Inr chunk \<Rightarrow> (case parse_chunk stale chunk of Parsed p \<Rightarrow> fh_type (fheader p) = ftp_code t | _ \<Rightarrow> False)
      | Inl ec \<Rightarrow> False)"

abbreviation "ends_transfer \<equiv> chunk_is END_TRANSFER_FTP"

lemma transfer_iteration_accounts:
  assumes "transfer_iteration listing ok stale r st = (s, st')" "\<not> end_transfer_flag st"
  shows "s = Receiving \<Longrightarrow> \<not> end_transfer_flag st'
      \<and> chunk_data stale (ok, r) + unat (bytes_remaining st') = unat (bytes_remaining st)"
    and "s = Closing \<or> s = Commit_failed ec \<Longrightarrow>
      ends_transfer stale (ok, r) \<and> bytes_remaining st = 0"
proof -
  have "(s = Receiving \<longrightarrow> \<not> end_transfer_flag st'
      \<and> chunk_data stale (ok, r) + unat (bytes_remaining st') = unat (bytes_remaining st))
    \<and> (s = Closing \<or> s = Commit_failed ec \<longrightarrow>
      ends_transfer stale (ok, r) \<and> bytes_remaining st = 0)"
  proof (cases "\<exists>chunk p. r = Inr chunk \<and> parse_chunk stale chunk = Parsed p")
    case True
    then obtain chunk p where c: "r = Inr chunk" "parse_chunk stale chunk = Parsed p" by blast
    obtain ec1 st1 where h: "handle_packet ok p st = (ec1, st1)" by (metis surj_pair)
    have it: "after_packet listing ok (ec1, st1) = (s, st')"
      using assms(1) c h by (simp add: transfer_iteration_def)
    show ?thesis
    proof (cases "ec_failed ec1")
      case True
      then show ?thesis using it by (auto simp: after_packet_def)
    next
      case False
      note a = handle_packet_accounts [OF h False assms(2)]
      show ?thesis
        using a c False it
        by (auto simp: after_packet_def chunk_data_def chunk_is_def split: if_splits prod.splits)
    qed
  next
    case False
    then show ?thesis
      using assms(1) by (auto simp: transfer_iteration_def split: sum.splits parse_result.splits)
  qed
  then show "s = Receiving \<Longrightarrow> \<not> end_transfer_flag st'
      \<and> chunk_data stale (ok, r) + unat (bytes_remaining st') = unat (bytes_remaining st)"
    "s = Closing \<or> s = Commit_failed ec \<Longrightarrow>
      ends_transfer stale (ok, r) \<and> bytes_remaining st = 0"
    by blast+
qed


subsection \<open>Cleanup\<close>

abbreviation "link_chunk \<equiv> chunk_is CREATE_SYMLINK"

lemma with_builder_confined:
  assumes "confined sp (store st) r" "with_builder r st = (ec, st')"
  shows "builder_inv sp (builder st') (store st') \<and> same_outside sp (store st) (store st')"
  using assms with_builder_dest [OF assms(2)] by (auto simp: confined_def)

lemma handle_packet_confined:
  assumes "builder_inv sp (builder st) (store st)" "handle_packet ok p st = (ec, st')"
    and "fh_type (fheader p) \<noteq> ftp_code CREATE_SYMLINK"
  shows "builder_inv sp (builder st') (store st') \<and> same_outside sp (store st) (store st')"
proof -
  have data: "builder_inv sp (builder st') (store st') \<and> same_outside sp (store st) (store st')"
    if "handle_file_data ok p st = (ec, st')"
  proof -
    obtain ec1 st1 where w: "with_builder (write_data ok (ftp_payload p) (fh_file_id (fheader p))
        (builder st) (store st)) st = (ec1, st1)" by (metis surj_pair)
    note c = with_builder_confined [OF write_data_confined [OF assms(1)] w]
    show ?thesis using that w c assms(1)
      by (auto simp: handle_file_data_def Let_def split: if_splits)
  qed
  show ?thesis
    using assms(2,3) assms(1) data
      with_builder_confined [OF create_directory_confined [OF assms(1)]]
      with_builder_confined [OF create_file_confined [OF assms(1)]]
      with_builder_confined [OF close_file_confined [OF assms(1)]]
    by (auto simp: handle_packet_def Let_def split: if_splits)
qed

lemma cleaned_trace:
  assumes "builder_inv sp (builder st) (store st)" "sp \<noteq> []"
  shows "lookup (store (cleaned ok st)) p
    = (if p = sp \<or> below sp p then None else lookup (store st) p)"
  using assms by (simp add: cleaned_def cleanup_def builder_inv_def lookup_remove_tree)

lemma transfer_iteration_trace:
  assumes "builder_inv sp (builder st) (store st)" "sp \<noteq> []" "\<not> link_chunk stale (ok, r)"
    and "transfer_iteration listing ok stale r st = (s, st')"
  shows "(s = Receiving \<longrightarrow> builder_inv sp (builder st') (store st') \<and> same_outside sp (store st) (store st'))
    \<and> (s = Failed ec \<longrightarrow> lookup (store st') p = (if p = sp \<or> below sp p then None else lookup (store st) p))"
proof (cases "\<exists>chunk p. r = Inr chunk \<and> parse_chunk stale chunk = Parsed p")
  case True
  then obtain chunk q where c: "r = Inr chunk" "parse_chunk stale chunk = Parsed q" by blast
  obtain ec1 st1 where h: "handle_packet ok q st = (ec1, st1)" by (metis surj_pair)
  have it: "after_packet listing ok (ec1, st1) = (s, st')"
    using assms(4) c h by (simp add: transfer_iteration_def)
  have i: "builder_inv sp (builder st1) (store st1)" "same_outside sp (store st) (store st1)"
    using handle_packet_confined [OF assms(1) h] assms(3) c by (auto simp: chunk_is_def)
  then show ?thesis
    using it cleaned_trace [OF i(1) assms(2)]
    by (auto simp: after_packet_def same_outside_def split: if_splits prod.splits)
next
  case False
  then show ?thesis
    using assms(4) cleaned_trace [OF assms(1,2)]
    by (auto simp: transfer_iteration_def split: sum.splits parse_result.splits)
qed



definition sample_receiver :: "u64 \<Rightarrow> receiver" where
  "sample_receiver n = (receiver_new sample_builder sample_fs)\<lparr>bytes_remaining := n\<rparr>"

definition sample_stale :: bytes where
  "sample_stale = replicate 1392 0"

definition sample_upload :: "(bool \<times> (error_code + bytes)) list" where
  "sample_upload =
     [(True, Inr ([3, 0, 1, 0, 7, 0, 0, 0] @ bytes_of_str ''a'')),
      (True, Inr ([4, 0, 3, 0, 7, 0, 0, 0] @ [5, 6, 7]))]"



end
