(* ===== verification/Tree_Transfer.thy ===== *)
theory Tree_Transfer
  imports Receiver Commit New_Builder
begin

text \<open>
  Sender and receiver together: the packets of a transfer of a tree, parsed and handled by
  the receiver, build the same tree in the staging directory.
\<close>

subsection \<open>Trees\<close>

type_synonym tree = "(path \<times> walk_kind) list"

fun node_of :: "walk_kind \<Rightarrow> node option" where
  "node_of (Regular d) = Some (File d)"
| "node_of Folder = Some Directory"
| "node_of (Symlink t) = Some (Link t)"
| "node_of _ = None"

definition tree_at :: "tree \<Rightarrow> path \<Rightarrow> node option" where
  "tree_at t r = Option.bind (map_of t r) node_of"

definition entries_of :: "tree \<Rightarrow> walk_entry list" where
  "entries_of t = map (\<lambda>(p, k). (join_path p, k)) t"

text \<open>
  A tree in walking order, with plain names, paths that fit a packet, and every entry after
  its directory; \<open>seen\<close> are the entries before.
\<close>

definition target_ok :: "walk_kind \<Rightarrow> bool" where
  "target_ok k = (case k of Symlink t \<Rightarrow> t \<noteq> [] \<and> \<not> has_nul t | _ \<Rightarrow> True)"

definition entry_ok :: "tree \<Rightarrow> path \<times> walk_kind \<Rightarrow> bool" where
  "entry_ok seen e \<longleftrightarrow>
     (case e of (p, k) \<Rightarrow>
        p \<noteq> [] \<and> list_all plain p \<and> sendable (join_path p, k) \<and> target_ok k
        \<and> map_of seen p = None \<and> (butlast p = [] \<or> map_of seen (butlast p) = Some Folder))"

fun good_from :: "tree \<Rightarrow> tree \<Rightarrow> bool" where
  "good_from seen [] \<longleftrightarrow> True"
| "good_from seen (e # t) \<longleftrightarrow> entry_ok seen e \<and> good_from (seen @ [e]) t"

definition good_tree :: "tree \<Rightarrow> bool" where
  "good_tree t \<longleftrightarrow> good_from [] t"

fun data_size :: "walk_kind \<Rightarrow> nat" where
  "data_size (Regular d) = length d"
| "data_size _ = 0"

definition tree_size :: "tree \<Rightarrow> nat" where
  "tree_size t = sum_list (map (\<lambda>(p, k). data_size k) t)"

definition closed :: "tree \<Rightarrow> bool" where
  "closed t \<longleftrightarrow> (\<forall>p k. map_of t p = Some k \<longrightarrow>
     p \<noteq> [] \<and> list_all plain p \<and> (butlast p = [] \<or> map_of t (butlast p) = Some Folder))"

lemma map_of_snoc: "map_of t p = None \<Longrightarrow> [p \<mapsto> k] ++ map_of t = (map_of t)(p \<mapsto> k)"
  by (auto simp: map_add_def fun_eq_iff split: option.splits)

lemma closed_snoc: "closed t \<Longrightarrow> entry_ok t e \<Longrightarrow> closed (t @ [e])"
  by (cases e) (auto simp: closed_def entry_ok_def map_of_snoc split: if_splits)

lemma closed_good: "good_from seen t \<Longrightarrow> closed seen \<Longrightarrow> closed (seen @ t)"
  by (induction t arbitrary: seen) (use closed_snoc in fastforce)+

lemma closed_prefix:
  assumes "closed t" "map_of t p = Some k" "0 < j" "j < length p"
  shows "map_of t (take j p) = Some Folder"
  using assms(2-)
proof (induction p arbitrary: k rule: rev_induct)
  case (snoc c p)
  then have "p \<noteq> []" "map_of t p = Some Folder"
    using assms(1) by (auto simp: closed_def)
  then show ?case using snoc by (cases "j = length p") auto
qed simp

lemma tree_at_snoc:
  "map_of t p = None \<Longrightarrow> tree_at (t @ [(p, k)]) = (tree_at t)(p := node_of k)"
  by (auto simp: tree_at_def map_of_snoc fun_eq_iff)

subsection \<open>The staged tree\<close>

text \<open>The store with the tree \<open>T\<close> below \<open>sp\<close>.\<close>

definition overlay :: "path \<Rightarrow> (path \<Rightarrow> node option) \<Rightarrow> (path \<Rightarrow> node option) \<Rightarrow> path \<Rightarrow> node option" where
  "overlay sp L T p = (if below sp p then T (drop (length sp) p) else L p)"

lemma overlay_at [simp]: "r \<noteq> [] \<Longrightarrow> overlay sp L T (sp @ r) = T r"
  by (simp add: overlay_def)

lemma overlay_root [simp]: "overlay sp L T sp = L sp"
  by (simp add: overlay_def below_def)

lemma overlay_update:
  "r \<noteq> [] \<Longrightarrow> (overlay sp L T)(sp @ r \<mapsto> n) = overlay sp L (T(r \<mapsto> n))"
  by (auto simp: overlay_def fun_eq_iff below_iff)

lemma tree_parents:
  assumes "closed t" "entry_ok t (p, k)" "j < length (butlast p)"
  shows "tree_at t (take (Suc j) (butlast p)) = Some Directory"
proof -
  let ?b = "butlast p"
  have "?b \<noteq> []" using assms(3) by (metis list.size(3) not_less_zero)
  then have b: "map_of t ?b = Some Folder" using assms(2) by (simp add: entry_ok_def)
  have "map_of t (take (Suc j) ?b) = Some Folder"
  proof (cases "Suc j = length ?b")
    case True
    then show ?thesis using b by simp
  next
    case False
    then show ?thesis using closed_prefix [OF assms(1) b, of "Suc j"] assms(3) by simp
  qed
  then show ?thesis by (simp add: tree_at_def)
qed

lemma overlay_parents:
  assumes "closed t" "entry_ok t (p, k)" "L sp = Some Directory" "lookup fs = overlay sp L (tree_at t)"
  shows "dirs_free sp (butlast p) fs"
    and "with_dirs sp (butlast p) (lookup fs) = lookup fs"
    and "lookup fs (sp @ p) = None"
    and "dirs_free sp p fs"
proof -
  have d: "lookup fs (sp @ take (Suc j) (butlast p)) = Some Directory" if "j < length (butlast p)" for j
  proof -
    have "take (Suc j) (butlast p) \<noteq> []" using that by (cases "butlast p") auto
    then show ?thesis using tree_parents [OF assms(1,2) that] assms(4) by simp
  qed
  show b: "dirs_free sp (butlast p) fs"
    using d assms(3,4) by (simp add: dirs_free_def)
  show "with_dirs sp (butlast p) (lookup fs) = lookup fs"
    using d by (intro with_dirs_existing)
  show n: "lookup fs (sp @ p) = None"
    using assms(2,4) by (auto simp: entry_ok_def tree_at_def)
  show "dirs_free sp p fs"
    unfolding dirs_free_def
  proof (intro conjI allI impI)
    show "lookup fs sp = Some Directory" using b by (simp add: dirs_free_def)
    fix j assume j: "j < length p"
    show "lookup fs (sp @ take (Suc j) p) \<in> {None, Some Directory}"
    proof (cases "Suc j = length p")
      case True
      then show ?thesis using n by simp
    next
      case False
      then have "j < length (butlast p)" "take (Suc j) p = take (Suc j) (butlast p)"
        using j by (auto simp: take_butlast_eq)
      then show ?thesis using d by simp
    qed
  qed
qed

subsection \<open>Accepted packets\<close>

definition deliver :: "ftp_packet list \<Rightarrow> (bool \<times> (error_code + bytes)) list" where
  "deliver ps = map (\<lambda>p. (True, Inr (as_bytes p))) ps"

text \<open>The receiver takes the packets and goes on in a new state.\<close>

definition accepts ::
  "(fs \<Rightarrow> path list) \<Rightarrow> bytes \<Rightarrow> receiver \<Rightarrow> ftp_packet list \<Rightarrow> receiver \<Rightarrow> bool" where
  "accepts listing stale st ps st' \<longleftrightarrow>
     (\<forall>rs. receiver_start_transfer listing stale (deliver ps @ rs) st
       = receiver_start_transfer listing stale rs st')"

lemma accepts_Nil: "accepts listing stale st [] st"
  by (simp add: accepts_def deliver_def)

lemma accepts_append:
  "accepts listing stale st ps st1 \<Longrightarrow> accepts listing stale st1 qs st2
    \<Longrightarrow> accepts listing stale st (ps @ qs) st2"
  by (simp add: accepts_def deliver_def)

text \<open>The packet as it is parsed.\<close>

definition carries :: "ftp_packet \<Rightarrow> ftp_packet \<Rightarrow> bool" where
  "carries p q \<longleftrightarrow> ftp_wf q \<and> fheader q = fheader p \<and> ftp_payload q = ftp_payload p"

lemma accepts_one:
  assumes "ftp_wf p" "length stale = FTP_PACKET_SIZE"
  obtains q where "carries p q"
    and "\<And>st st1. handle_packet True q st = (no_error, st1) \<Longrightarrow> \<not> end_transfer_flag st1
      \<Longrightarrow> accepts listing stale st [p] st1"
proof -
  obtain q where q: "parse_chunk stale (as_bytes p) = Parsed q" "carries p q"
    using parse_chunk_as_bytes [OF assms] by (auto simp: carries_def)
  have "accepts listing stale st [p] st1"
    if "handle_packet True q st = (no_error, st1)" "\<not> end_transfer_flag st1" for st st1
    using that q(1) by (simp add: accepts_def deliver_def transfer_iteration_def after_packet_def)
  then show thesis using that q(2) by blast
qed

lemma carries_size: "carries p q \<Longrightarrow> ftp_payload_size q = ftp_payload_size p"
  by (simp add: carries_def ftp_payload_size_def)

lemma carries_path: "carries p q \<Longrightarrow> extract_path q = extract_path p"
  by (simp add: carries_def extract_path_def)

lemma path_packets:
  assumes "length rel \<le> FTP_PACKET_SIZE"
  shows "extract_path (directory_packet stale rel fid) = rel"
    and "extract_path (file_packet stale rel fid) = rel"
    and "fheader (directory_packet stale rel fid) = ftp_head CREATE_DIRECTORY (length rel) fid"
    and "fheader (file_packet stale rel fid) = ftp_head CREATE_FILE (length rel) fid"
  using assms
  by (simp_all add: extract_path_def directory_packet_def file_packet_def set_payload_def
      control_packet_def ftp_head_def ftp_payload_def ftp_payload_size_def Let_def
      length_payload_size)

lemma data_chunk_facts:
  assumes "length d \<le> FTP_PACKET_SIZE"
  shows "ftp_payload (data_chunk_packet stale d fid) = d"
    and "ftp_payload_size (data_chunk_packet stale d fid) = length d"
  using assms
  by (simp_all add: data_chunk_packet_def ftp_head_def ftp_payload_def ftp_payload_size_def
      length_payload_size)

subsection \<open>The receiver's state during a transfer\<close>

definition staged :: "path \<Rightarrow> path \<Rightarrow> (path \<Rightarrow> node option) \<Rightarrow> (path \<Rightarrow> node option) \<Rightarrow> receiver \<Rightarrow> bool" where
  "staged out sp L T st \<longleftrightarrow>
     builder_root (builder st) = out \<and> staging_root (builder st) = Some sp
     \<and> \<not> end_transfer_flag st
     \<and> lookup (store st) = overlay sp L T"

definition idle :: "path \<Rightarrow> path \<Rightarrow> (path \<Rightarrow> node option) \<Rightarrow> tree \<Rightarrow> receiver \<Rightarrow> bool" where
  "idle out sp L t st \<longleftrightarrow> staged out sp L (tree_at t) st \<and> open_files (builder st) = []"

lemma folder_accepted:
  assumes "idle out sp L t st" "closed t" "entry_ok t (p, Folder)" "L sp = Some Directory"
    and "length (fdata stale) = FTP_PACKET_SIZE" "length stale' = FTP_PACKET_SIZE"
  shows "\<exists>st1. accepts listing stale' st [directory_packet stale (join_path p) fid] st1
    \<and> idle out sp L (t @ [(p, Folder)]) st1 \<and> bytes_remaining st1 = bytes_remaining st"
proof -
  let ?p = "directory_packet stale (join_path p) fid"
  have e: "p \<noteq> []" "list_all plain p" "length (join_path p) \<le> FTP_PACKET_SIZE" "map_of t p = None"
    using assms(3) by (auto simp: entry_ok_def)
  have s: "staging_root (builder st) = Some sp" "lookup (store st) = overlay sp L (tree_at t)"
    using assms(1) by (simp_all add: idle_def staged_def)
  note d = overlay_parents [OF assms(2,3,4) s(2)]
  obtain fs' where c: "create_directory (join_path p) (builder st) (store st) = (no_error, builder st, fs')"
    and l: "lookup fs' = with_dirs sp p (lookup (store st))"
    using create_directory_plain [OF s(1) e(1,2) d(4)] by blast
  obtain q where q: "carries ?p q"
    and acc: "\<And>st st1. handle_packet True q st = (no_error, st1) \<Longrightarrow> \<not> end_transfer_flag st1
      \<Longrightarrow> accepts listing stale' st [?p] st1"
    using accepts_one [OF ftp_packets_wf(3) [OF assms(5) e(3)] assms(6)] by blast
  have "handle_packet True q st = (no_error, st\<lparr>store := fs'\<rparr>)"
    using q c carries_path [OF q] path_packets [OF e(3)]
    by (simp add: handle_packet_def carries_def ftp_head_def with_builder_def)
  moreover have "lookup fs' = overlay sp L (tree_at (t @ [(p, Folder)]))"
    using e by (simp only: l with_dirs_new [OF e(1) d(2)]) (simp add: s(2) tree_at_snoc overlay_update)
  ultimately show ?thesis
    using acc [of st "st\<lparr>store := fs'\<rparr>"] assms(1)
    by (intro exI [of _ "st\<lparr>store := fs'\<rparr>"]) (simp add: idle_def staged_def)
qed

lemma symlink_accepted:
  assumes "idle out sp L t st" "closed t" "entry_ok t (p, Symlink tgt)" "L sp = Some Directory"
    and "length (fdata stale) = FTP_PACKET_SIZE" "length stale' = FTP_PACKET_SIZE"
    and "symlink_packet stale (join_path p) tgt = Inr pk"
  shows "\<exists>st1. accepts listing stale' st [pk] st1
    \<and> idle out sp L (t @ [(p, Symlink tgt)]) st1 \<and> bytes_remaining st1 = bytes_remaining st"
proof -
  have e: "p \<noteq> []" "list_all plain p" "map_of t p = None" "tgt \<noteq> []" "c_str tgt = tgt"
    using assms(3) by (auto simp: entry_ok_def target_ok_def has_nul_def c_str_def takeWhile_eq_all_conv)
  have s: "staging_root (builder st) = Some sp" "lookup (store st) = overlay sp L (tree_at t)"
    using assms(1) by (simp_all add: idle_def staged_def)
  note d = overlay_parents [OF assms(2,3,4) s(2)]
  obtain fs' where c: "create_symlink (join_path p) tgt (builder st) (store st) = (no_error, builder st, fs')"
    and l: "lookup fs' = (with_dirs sp (butlast p) (lookup (store st)))(sp @ p \<mapsto> Link (c_str tgt))"
    using create_symlink_plain [OF s(1) e(1,2) d(1,3)] e(4,5) by metis
  obtain q where q: "carries pk q"
    and acc: "\<And>st st1. handle_packet True q st = (no_error, st1) \<Longrightarrow> \<not> end_transfer_flag st1
      \<Longrightarrow> accepts listing stale' st [pk] st1"
    using accepts_one [OF ftp_packets_wf(5) [OF assms(5,7)] assms(6)] by blast
  note f = symlink_packet_facts [OF assms(7)]
  have "extract_symlink q = Inr (join_path p, tgt)"
    using q f carries_size [OF q] symlink_payload [OF assms(7)]
    by (intro extract_symlink_of_payload) (simp_all add: carries_def)
  moreover have "fh_type (fheader q) = ftp_code CREATE_SYMLINK"
    using assms(7) q by (auto simp: symlink_packet_def Let_def carries_def ftp_head_def split: if_splits)
  ultimately have "handle_packet True q st = (no_error, st\<lparr>store := fs'\<rparr>)"
    using c by (simp add: handle_packet_def with_builder_def)
  moreover have "lookup fs' = overlay sp L (tree_at (t @ [(p, Symlink tgt)]))"
    using e by (simp only: l d(2)) (simp add: s(2) tree_at_snoc overlay_update)
  ultimately show ?thesis
    using acc [of st "st\<lparr>store := fs'\<rparr>"] assms(1)
    by (intro exI [of _ "st\<lparr>store := fs'\<rparr>"]) (simp add: idle_def staged_def)
qed


definition writing ::
  "path \<Rightarrow> path \<Rightarrow> (path \<Rightarrow> node option) \<Rightarrow> tree \<Rightarrow> path \<Rightarrow> u32 \<Rightarrow> bytes \<Rightarrow> receiver \<Rightarrow> bool" where
  "writing out sp L t p fid old st \<longleftrightarrow>
     staged out sp L ((tree_at t)(p \<mapsto> File old)) st
     \<and> open_files (builder st) = [(fid, \<lparr>of_path = sp @ p, of_offset = length old, of_good = True\<rparr>)]"

lemma file_opened:
  assumes "idle out sp L t st" "closed t" "entry_ok t (p, Regular d)" "L sp = Some Directory"
    and "length (fdata stale) = FTP_PACKET_SIZE" "length stale' = FTP_PACKET_SIZE"
  shows "\<exists>st1. accepts listing stale' st [file_packet stale (join_path p) fid] st1
    \<and> writing out sp L t p fid [] st1 \<and> bytes_remaining st1 = bytes_remaining st"
proof -
  let ?p = "file_packet stale (join_path p) fid"
  let ?b = "(builder st)\<lparr>open_files := [(fid, \<lparr>of_path = sp @ p, of_offset = 0, of_good = True\<rparr>)]\<rparr>"
  have e: "p \<noteq> []" "list_all plain p" "length (join_path p) \<le> FTP_PACKET_SIZE"
    using assms(3) by (auto simp: entry_ok_def)
  have s: "staging_root (builder st) = Some sp" "lookup (store st) = overlay sp L (tree_at t)"
    "open_files (builder st) = []"
    using assms(1) by (simp_all add: idle_def staged_def)
  note d = overlay_parents [OF assms(2,3,4) s(2)]
  obtain fs' where c: "create_file (join_path p) fid (builder st) (store st) = (no_error, ?b, fs')"
    and l: "lookup fs' = (with_dirs sp (butlast p) (lookup (store st)))(sp @ p \<mapsto> File [])"
    using create_file_plain [OF s(1) e(1,2) d(1)] d(3) by (fastforce simp: s(3))
  obtain q where q: "carries ?p q"
    and acc: "\<And>st st1. handle_packet True q st = (no_error, st1) \<Longrightarrow> \<not> end_transfer_flag st1
      \<Longrightarrow> accepts listing stale' st [?p] st1"
    using accepts_one [OF ftp_packets_wf(4) [OF assms(5) e(3)] assms(6)] by blast
  let ?st = "st\<lparr>builder := ?b, store := fs'\<rparr>"
  have "handle_packet True q st = (no_error, ?st)"
    using q c carries_path [OF q] path_packets [OF e(3)]
    by (simp add: handle_packet_def carries_def ftp_head_def with_builder_def)
  moreover have "lookup fs' = overlay sp L ((tree_at t)(p \<mapsto> File []))"
    using e by (simp only: l d(2)) (simp add: s(2) overlay_update)
  ultimately show ?thesis
    using acc [of st ?st] assms(1)
    by (intro exI [of _ ?st]) (simp add: idle_def staged_def writing_def)
qed

lemma data_accepted:
  assumes "writing out sp L t p fid old st" "p \<noteq> []" "length d \<le> FTP_PACKET_SIZE"
    and "length d \<le> unat (bytes_remaining st)"
    and "length (fdata stale) = FTP_PACKET_SIZE" "length stale' = FTP_PACKET_SIZE"
  shows "\<exists>st1. accepts listing stale' st [data_chunk_packet stale d fid] st1
    \<and> writing out sp L t p fid (old @ d) st1
    \<and> unat (bytes_remaining st1) = unat (bytes_remaining st) - length d"
proof -
  let ?p = "data_chunk_packet stale d fid"
  have s: "staging_root (builder st) = Some sp" "builder_root (builder st) = out"
    "lookup (store st) = overlay sp L ((tree_at t)(p \<mapsto> File old))" "\<not> end_transfer_flag st"
    "open_files (builder st) = [(fid, \<lparr>of_path = sp @ p, of_offset = length old, of_good = True\<rparr>)]"
    using assms(1) by (simp_all add: writing_def staged_def)
  obtain b' fs' where w: "write_data True d fid (builder st) (store st) = (no_error, b', fs')"
    and b: "staging_root b' = Some sp" "builder_root b' = out"
      "open_files b' = [(fid, \<lparr>of_path = sp @ p, of_offset = length (old @ d), of_good = True\<rparr>)]"
    and l: "lookup fs' = (lookup (store st))(sp @ p \<mapsto> File (old @ d))"
    using write_data_appends [of "builder st" fid "sp @ p" old "store st" d] s assms(2) by auto
  obtain q where q: "carries ?p q"
    and acc: "\<And>st st1. handle_packet True q st = (no_error, st1) \<Longrightarrow> \<not> end_transfer_flag st1
      \<Longrightarrow> accepts listing stale' st [?p] st1"
    using accepts_one [OF ftp_packets_wf(2) [OF assms(5,3)] assms(6)] by blast
  have n: "ftp_payload_size q = length d" "ftp_payload q = d"
    using q carries_size [OF q] data_chunk_facts [OF assms(3)] by (simp_all add: carries_def)
  have h: "fh_type (fheader q) = ftp_code FILE_DATA" "fh_file_id (fheader q) = fid"
    using q by (simp_all add: carries_def data_chunk_packet_def ftp_head_def)
  have "length d < 2 ^ 64" using assms(3) by simp
  then have u: "unat (word_of_nat (length d) :: u64) = length d"
    by (simp add: unsigned_of_nat take_bit_nat_eq_self)
  then have le: "(word_of_nat (length d) :: u64) \<le> bytes_remaining st"
    using assms(4) by (simp add: word_le_nat_alt)
  let ?st = "st\<lparr>builder := b', store := fs', bytes_remaining := bytes_remaining st - word_of_nat (length d),
      receiver_progress := fst (print_progress (word_of_nat (length d)) (receiver_progress st))\<rparr>"
  have hp: "handle_packet True q st = (no_error, ?st)"
    using le w by (simp add: handle_packet_def h handle_file_data_def n with_builder_def Let_def)
  have "writing out sp L t p fid (old @ d) ?st"
    using b l s assms(2) by (simp add: writing_def staged_def overlay_update)
  moreover have "unat (bytes_remaining ?st) = unat (bytes_remaining st) - length d"
    using unat_sub [OF le] u by simp
  moreover have "accepts listing stale' st [?p] ?st"
    using s(4) by (intro acc [OF hp]) simp
  ultimately show ?thesis by blast
qed

lemma blocks_accepted:
  assumes "writing out sp L t p fid old st" "p \<noteq> []" "list_all (\<lambda>d. length d \<le> FTP_PACKET_SIZE) ds"
    and "length (concat ds) \<le> unat (bytes_remaining st)"
    and "length (fdata stale) = FTP_PACKET_SIZE" "length stale' = FTP_PACKET_SIZE"
  shows "\<exists>st1. accepts listing stale' st (map (\<lambda>d. data_chunk_packet stale d fid) ds) st1
    \<and> writing out sp L t p fid (old @ concat ds) st1
    \<and> unat (bytes_remaining st1) = unat (bytes_remaining st) - length (concat ds)"
  using assms(1,3,4)
proof (induction ds arbitrary: old st)
  case Nil
  then show ?case using accepts_Nil by auto
next
  case (Cons d ds)
  obtain st1 where a: "accepts listing stale' st [data_chunk_packet stale d fid] st1"
    "writing out sp L t p fid (old @ d) st1"
    "unat (bytes_remaining st1) = unat (bytes_remaining st) - length d"
    using data_accepted [OF Cons.prems(1) assms(2) _ _ assms(5,6), of d] Cons.prems(2,3) by auto
  have n: "length (concat ds) \<le> unat (bytes_remaining st1)" using Cons.prems(3) a(3) by simp
  obtain st2 where b: "accepts listing stale' st1 (map (\<lambda>d. data_chunk_packet stale d fid) ds) st2"
    "writing out sp L t p fid ((old @ d) @ concat ds) st2"
    "unat (bytes_remaining st2) = unat (bytes_remaining st1) - length (concat ds)"
    using Cons.IH [OF a(2) _ n] Cons.prems(2) by auto
  show ?case
    using accepts_append [OF a(1) b(1)] b(2,3) a(3) by (intro exI [of _ st2]) simp
qed

lemma file_closed:
  assumes "writing out sp L t p fid d st" "map_of t p = None"
    and "length (fdata stale) = FTP_PACKET_SIZE" "length stale' = FTP_PACKET_SIZE"
  shows "\<exists>st1. accepts listing stale' st [control_packet stale END_FILE fid] st1
    \<and> idle out sp L (t @ [(p, Regular d)]) st1 \<and> bytes_remaining st1 = bytes_remaining st"
proof -
  let ?p = "control_packet stale END_FILE fid"
  obtain q where q: "carries ?p q"
    and acc: "\<And>st st1. handle_packet True q st = (no_error, st1) \<Longrightarrow> \<not> end_transfer_flag st1
      \<Longrightarrow> accepts listing stale' st [?p] st1"
    using accepts_one [OF ftp_packets_wf(1) [OF assms(3)] assms(4)] by blast
  let ?st = "st\<lparr>builder := (builder st)\<lparr>open_files := []\<rparr>\<rparr>"
  have "handle_packet True q st = (no_error, ?st)"
    using q assms(1)
    by (simp add: carries_def control_packet_def ftp_head_def handle_packet_def close_file_def
        with_builder_def writing_def)
  then show ?thesis
    using acc [of st ?st] assms(1,2)
    by (intro exI [of _ ?st]) (simp add: idle_def staged_def writing_def tree_at_snoc)
qed

lemma entry_accepted:
  assumes "idle out sp L t st" "closed t" "entry_ok t (p, k)" "L sp = Some Directory"
    and "data_size k \<le> unat (bytes_remaining st)"
    and "length (fdata stale) = FTP_PACKET_SIZE" "length stale' = FTP_PACKET_SIZE"
  shows "\<exists>st1. accepts listing stale' st (entry_packets stale fid (join_path p, k)) st1
    \<and> idle out sp L (t @ [(p, k)]) st1
    \<and> unat (bytes_remaining st1) = unat (bytes_remaining st) - data_size k"
proof (cases k)
  case (Regular d)
  have ne: "p \<noteq> []" "map_of t p = None" using assms(3) by (simp_all add: entry_ok_def)
  obtain st1 where o: "accepts listing stale' st [file_packet stale (join_path p) fid] st1"
    "writing out sp L t p fid [] st1" "bytes_remaining st1 = bytes_remaining st"
    using file_opened [OF assms(1,2) assms(3) [unfolded Regular] assms(4,6,7)] by blast
  have bl: "list_all (\<lambda>d. length d \<le> FTP_PACKET_SIZE) (blocks d)"
    using blocks_length by (auto simp: list_all_iff)
  obtain st2 where w: "accepts listing stale' st1 (map (\<lambda>d. data_chunk_packet stale d fid) (blocks d)) st2"
    "writing out sp L t p fid d st2" "unat (bytes_remaining st2) = unat (bytes_remaining st) - length d"
    using blocks_accepted [OF o(2) ne(1) bl _ assms(6,7)] assms(5) o(3) Regular by auto
  obtain st3 where c: "accepts listing stale' st2 [control_packet stale END_FILE fid] st3"
    "idle out sp L (t @ [(p, Regular d)]) st3" "bytes_remaining st3 = bytes_remaining st2"
    using file_closed [OF w(2) ne(2) assms(6,7)] by blast
  show ?thesis
    using accepts_append [OF o(1) accepts_append [OF w(1) c(1)]] c w(3) Regular
    by (intro exI [of _ st3]) simp
next
  case (Symlink tgt)
  then obtain pk where pk: "symlink_packet stale (join_path p) tgt = Inr pk"
    using assms(3) by (auto simp: entry_ok_def symlink_packet_def Let_def)
  obtain st1 where "accepts listing stale' st [pk] st1" "idle out sp L (t @ [(p, Symlink tgt)]) st1"
    "bytes_remaining st1 = bytes_remaining st"
    using symlink_accepted [OF assms(1,2) assms(3) [unfolded Symlink] assms(4,6,7) pk] by blast
  then show ?thesis using pk Symlink by (intro exI [of _ st1]) simp
next
  case Folder
  obtain st1 where "accepts listing stale' st [directory_packet stale (join_path p) fid] st1"
    "idle out sp L (t @ [(p, Folder)]) st1" "bytes_remaining st1 = bytes_remaining st"
    using folder_accepted [OF assms(1,2) assms(3) [unfolded Folder] assms(4,6,7)] by blast
  then show ?thesis using Folder by (intro exI [of _ st1]) simp
qed (use assms(3) in \<open>simp_all add: entry_ok_def\<close>)

lemma entries_accepted:
  assumes "idle out sp L seen st" "closed seen" "good_from seen t" "L sp = Some Directory"
    and "tree_size t \<le> unat (bytes_remaining st)"
    and "length (fdata stale) = FTP_PACKET_SIZE" "length stale' = FTP_PACKET_SIZE"
  shows "\<exists>st1. accepts listing stale' st (entries_packets stale fid (entries_of t)) st1
    \<and> idle out sp L (seen @ t) st1
    \<and> unat (bytes_remaining st1) = unat (bytes_remaining st) - tree_size t"
  using assms(1,2,3,5)
proof (induction t arbitrary: seen st fid)
  case Nil
  then show ?case using accepts_Nil by (auto simp: entries_of_def tree_size_def)
next
  case (Cons e t)
  obtain p k where e: "e = (p, k)" by (cases e)
  have ok: "entry_ok seen (p, k)" "good_from (seen @ [(p, k)]) t"
    and n: "data_size k + tree_size t \<le> unat (bytes_remaining st)"
    using Cons.prems(3,4) e by (auto simp: tree_size_def)
  obtain st1 where a: "accepts listing stale' st (entry_packets stale fid (join_path p, k)) st1"
    "idle out sp L (seen @ [(p, k)]) st1"
    "unat (bytes_remaining st1) = unat (bytes_remaining st) - data_size k"
    using entry_accepted [OF Cons.prems(1,2) ok(1) assms(4) _ assms(6,7)] n by (meson add_leD1)
  have n1: "tree_size t \<le> unat (bytes_remaining st1)" using n a(3) by simp
  obtain st2 where b: "accepts listing stale' st1
      (entries_packets stale (next_id fid (join_path p, k)) (entries_of t)) st2"
    "idle out sp L ((seen @ [(p, k)]) @ t) st2"
    "unat (bytes_remaining st2) = unat (bytes_remaining st1) - tree_size t"
    using Cons.IH [OF a(2) closed_snoc [OF Cons.prems(2) ok(1)] ok(2) n1] by blast
  show ?case
    using accepts_append [OF a(1) b(1)] b(2,3) a(3) e
    by (intro exI [of _ st2]) (simp add: entries_of_def tree_size_def)
qed


subsection \<open>Announcement and answer\<close>

definition tree_sizes :: "tree \<Rightarrow> u64 list" where
  "tree_sizes t =
     map (\<lambda>(p, k). word_of_nat (data_size k)) (filter (\<lambda>(p, k). \<exists>d. k = Regular d) t)"

lemma announced_tree_size:
  assumes "tree_size t < 2 ^ 64"
  shows "unat (announced_bytes (tree_sizes t)) = tree_size t"
proof -
  have "foldl (+) a (tree_sizes t) = a + word_of_nat (tree_size t)" for a :: u64
  proof (induction t arbitrary: a)
    case (Cons e t)
    obtain p k where e: "e = (p, k)" by (cases e)
    show ?case using Cons.IH e by (cases k) (simp_all add: tree_sizes_def tree_size_def add.assoc)
  qed (simp add: tree_sizes_def tree_size_def)
  then show ?thesis
    using assms by (simp add: announced_bytes_def unsigned_of_nat take_bit_nat_eq_self)
qed

lemma announcement_facts:
  "fh_size (fheader (announcement stale n)) = 8"
  "ftp_payload (announcement stale n) = le_bytes 8 n"
  by (simp_all add: announcement_def set_payload_def ftp_payload_def ftp_payload_size_def
      le64.length_enc)

lemma announcement_received:
  assumes "length (fdata stale) = FTP_PACKET_SIZE" "length stale' = FTP_PACKET_SIZE"
  shows "receive_announcement stale' (Inr (as_bytes (announcement stale n))) st
    = Announced (st\<lparr>bytes_remaining := n,
        receiver_progress := (receiver_progress st)\<lparr>bytes_to_transfer := n\<rparr>\<rparr>)"
proof -
  let ?p = "announcement stale n"
  have wf: "ftp_wf ?p" using ftp_packets_wf(6) [OF assms(1)] .
  obtain q where q: "parse_chunk stale' (as_bytes ?p) = Parsed q" "ftp_payload q = le_bytes 8 n"
    using parse_chunk_as_bytes [OF wf assms(2)] announcement_facts(2) by metis
  have h: "take 8 (as_bytes ?p) = ftp_header_bytes (fheader ?p)" "length (as_bytes ?p) = 16"
    by (simp_all add: as_bytes_eq ftp_hdr.length_enc announcement_facts le64.length_enc)
  show ?thesis
    by (simp add: receive_announcement_def h ftp_hdr.dec_enc announcement_facts q Let_def
        le64.length_enc le64.dec_enc)
qed

lemma answer_accepted:
  "take 8 (as_bytes (answer_packet stale yes)) = ftp_header_bytes (fheader (answer_packet stale yes))"
  "8 \<le> length (as_bytes (answer_packet stale yes))"
  "fh_type (fheader (answer_packet stale yes)) = ftp_code (if yes then CONFIRM else CONFIRM_FAILED)"
  by (simp_all add: as_bytes_eq ftp_hdr.length_enc answer_packet_def control_packet_def ftp_head_def)

lemma entries_of_sendable: "good_from seen t \<Longrightarrow> list_all sendable (entries_of t)"
  by (induction t arbitrary: seen) (auto simp: entries_of_def entry_ok_def)

lemma sender_exchange:
  assumes "good_tree t"
  shows "sender_transfer_confirmation log_send (\<lambda>c. (Inr (as_bytes (answer_packet rstale True)), c))
      (\<lambda>c. (no_error, c)) stale sizes (entries_of t) (sender_new [])
    = (ec, s) \<Longrightarrow> ec = no_error \<and> channel s = map as_bytes
        (announcement stale (announced_bytes sizes) # transfer_packets stale 0 (entries_of t))"
proof -
  let ?n = "announced_bytes sizes"
  let ?s = "(sender_new [as_bytes (announcement stale ?n)])\<lparr>sender_progress := progress_new ?n\<rparr>"
  assume a: "sender_transfer_confirmation log_send (\<lambda>c. (Inr (as_bytes (answer_packet rstale True)), c))
      (\<lambda>c. (no_error, c)) stale sizes (entries_of t) (sender_new []) = (ec, s)"
  have "progress_new 0\<lparr>bytes_to_transfer := ?n\<rparr> = progress_new ?n" by (simp add: progress_new_def)
  then have st: "sender_start_transfer log_send (\<lambda>c. (no_error, c)) stale (entries_of t) ?s = (ec, s)"
    using a answer_accepted [of rstale True]
    by (simp add: sender_transfer_confirmation_def Let_def send_ftp_def log_send_def sender_new_def
        ftp_hdr.dec_enc split: if_splits)
  have "list_all sendable (entries_of t)"
    using assms entries_of_sendable by (auto simp: good_tree_def)
  note e = send_entries_ok [OF log_send_reliable this, of stale ?s]
  show ?thesis
    using st e
    by (auto simp: sender_start_transfer_def split_beta Let_def send_ftp_ok all_sent_log sender_new_def
        transfer_packets_def split: if_splits)
qed


subsection \<open>The whole transfer\<close>

text \<open>The recursive iterator reports every well-formed store's tree below \<open>sp\<close> in walking order.\<close>

definition iterates :: "path \<Rightarrow> (fs \<Rightarrow> path list) \<Rightarrow> bool" where
  "iterates sp listing \<longleftrightarrow>
     (\<forall>fs. fs_wf fs \<longrightarrow> (\<exists>rs. listing fs = map (\<lambda>r. sp @ r) rs \<and> walk_order sp fs rs))"

definition listing_by_depth :: "path \<Rightarrow> fs \<Rightarrow> path list" where
  "listing_by_depth sp fs = sort_key length (remdups (entries_below sp fs))"

lemma parents_before_sorted:
  assumes "sorted_wrt (\<lambda>a b. length a \<le> length b) rs" "distinct rs" "set rs \<inter> set seen = {}"
    and "\<forall>r \<in> set rs. r \<noteq> [] \<and> (butlast r = [] \<or> butlast r \<in> set seen \<union> set rs)"
  shows "parents_before seen rs"
  using assms
proof (induction rs arbitrary: seen)
  case (Cons r rs)
  have "butlast r \<notin> set (r # rs)"
  proof
    assume "butlast r \<in> set (r # rs)"
    moreover have "length (butlast r) < length r" using Cons.prems(4) by (cases r) auto
    ultimately show False
      using Cons.prems(1) by (metis less_irrefl not_le set_ConsD sorted_wrt.simps(2))
  qed
  then have "butlast r = [] \<or> butlast r \<in> set seen" using Cons.prems(4) by auto
  moreover have "parents_before (r # seen) rs"
    using Cons.prems by (intro Cons.IH) auto
  ultimately show ?case using Cons.prems by auto
qed simp

lemma iterates_by_depth: "iterates sp (listing_by_depth sp)"
  unfolding iterates_def
proof (intro allI impI)
  fix fs assume wf: "fs_wf fs"
  let ?l = "listing_by_depth sp fs"
  have set: "set ?l = {p. below sp p \<and> lookup fs p \<noteq> None}"
    by (simp add: listing_by_depth_def set_entries_below)
  define rs where "rs = map (drop (length sp)) ?l"
  have l: "?l = map (\<lambda>r. sp @ r) rs"
    unfolding rs_def map_map using set by (intro map_idI [symmetric]) (auto simp: below_iff)
  have mem: "r \<in> set rs \<longleftrightarrow> r \<noteq> [] \<and> lookup fs (sp @ r) \<noteq> None" for r
  proof -
    have "r \<in> set rs \<longleftrightarrow> sp @ r \<in> set ?l" unfolding l by auto
    then show ?thesis unfolding set by simp
  qed
  have "distinct ?l" by (simp add: listing_by_depth_def)
  then have d: "distinct rs" unfolding l by (simp add: distinct_map)
  have "sorted (map length ?l)" by (simp add: listing_by_depth_def)
  then have "sorted_wrt (\<lambda>a b. length a \<le> length b) rs"
    unfolding l by (simp add: sorted_map sorted_wrt_map)
  moreover have "\<forall>r \<in> set rs. r \<noteq> [] \<and> (butlast r = [] \<or> butlast r \<in> set [] \<union> set rs)"
  proof
    fix r assume "r \<in> set rs"
    then have r: "r \<noteq> []" "lookup fs ((sp @ butlast r) @ [last r]) \<noteq> None" using mem by auto
    then have "lookup fs (sp @ butlast r) = Some Directory"
      using wf unfolding fs_wf_def by blast
    then show "r \<noteq> [] \<and> (butlast r = [] \<or> butlast r \<in> set [] \<union> set rs)" using r mem by auto
  qed
  ultimately have "parents_before [] rs" using d by (intro parents_before_sorted) auto
  then show "\<exists>rs. ?l = map (\<lambda>r. sp @ r) rs \<and> walk_order sp fs rs"
    using l mem by (auto simp: walk_order_def)
qed

lemma tree_at_closed:
  assumes "closed t" "tree_at t r \<noteq> None"
  shows "r \<noteq> [] \<and> list_all plain r \<and> (butlast r = [] \<or> tree_at t (butlast r) = Some Directory)"
proof -
  obtain k where "map_of t r = Some k" using assms(2) by (cases "map_of t r") (auto simp: tree_at_def)
  then show ?thesis using assms(1) by (auto simp: closed_def tree_at_def)
qed

lemma fs_wf_overlay:
  assumes "fs_wf fs0" "lookup fs0 sp = Some Directory" "closed t"
    and "lookup fs = overlay sp (lookup fs0) (tree_at t)"
  shows "fs_wf fs"
  unfolding fs_wf_def
proof (intro allI impI)
  fix p c assume a: "lookup fs (p @ [c]) \<noteq> None"
  show "lookup fs p = Some Directory"
  proof (cases "below sp (p @ [c])")
    case True
    then obtain r where r: "p @ [c] = sp @ r" "r \<noteq> []" by (auto simp: below_iff)
    have p: "p = sp @ butlast r"
      using arg_cong [OF r(1), of butlast] r(2) by (simp add: butlast_append)
    have "tree_at t r \<noteq> None" using a r assms(4) by simp
    from tree_at_closed [OF assms(3) this] show ?thesis
      by (cases "butlast r = []") (simp_all add: p assms(2,4))
  next
    case False
    then have "\<not> below sp p" by (auto simp: below_def)
    moreover have "lookup fs0 (p @ [c]) \<noteq> None" using a False by (simp add: assms(4) overlay_def)
    then have "lookup fs0 p = Some Directory" using assms(1) unfolding fs_wf_def by blast
    ultimately show ?thesis by (simp add: assms(4) overlay_def)
  qed
qed

text \<open>Nothing in the output directory is in the way of the tree.\<close>

definition no_conflict :: "path \<Rightarrow> string \<Rightarrow> fs \<Rightarrow> tree \<Rightarrow> bool" where
  "no_conflict out name fs t \<longleftrightarrow>
     list_all (\<lambda>(p, k). hd p \<noteq> name \<and> dest_ok (node_of k) (lookup fs (out @ p))) t"

definition delivered_tree :: "path \<Rightarrow> string \<Rightarrow> tree \<Rightarrow> (path \<Rightarrow> node option) \<Rightarrow> path \<Rightarrow> node option" where
  "delivered_tree out name t L p =
     (if p = out @ [name] then None
      else if below out p \<and> tree_at t (drop (length out) p) \<noteq> None
        then tree_at t (drop (length out) p) else L p)"

lemma fresh_overlay:
  assumes "fresh_builder out name b fs"
  shows "lookup fs = overlay (out @ [name]) (lookup fs) (tree_at [])"
proof (rule ext)
  fix p
  have "p \<notin> set (entries_below (out @ [name]) fs)" using assms by (simp add: fresh_builder_def)
  then show "lookup fs p = overlay (out @ [name]) (lookup fs) (tree_at []) p"
    by (auto simp: overlay_def tree_at_def set_entries_below)
qed

lemma end_accepted:
  assumes "idle out sp L t st" "bytes_remaining st = 0"
    and "length (fdata stale) = FTP_PACKET_SIZE" "length stale' = FTP_PACKET_SIZE"
  shows "receiver_start_transfer listing stale' (deliver [control_packet stale END_TRANSFER_FTP 0]) st
    = (case commit (\<lambda>_. True) listing (builder st) (store st) of (ec, b, fs) \<Rightarrow>
         (if ec_failed ec then Commit_failed ec else Closing,
          st\<lparr>end_transfer_flag := True, builder := b, store := fs\<rparr>))"
proof -
  let ?p = "control_packet stale END_TRANSFER_FTP 0"
  obtain q where q: "parse_chunk stale' (as_bytes ?p) = Parsed q" "fheader q = fheader ?p"
    using parse_chunk_as_bytes [OF ftp_packets_wf(1) [OF assms(3)] assms(4)] by blast
  have "handle_packet True q st = (no_error, st\<lparr>end_transfer_flag := True\<rparr>)"
    using q(2) assms(2) by (simp add: handle_packet_def control_packet_def ftp_head_def)
  then show ?thesis
    using q(1) by (auto simp: deliver_def transfer_iteration_def after_packet_def split: prod.split)
qed

lemma tree_at_mem:
  "tree_at t r = Some n \<Longrightarrow> \<exists>k. (r, k) \<in> set t \<and> node_of k = Some n"
  by (auto simp: tree_at_def bind_eq_Some_conv dest: map_of_SomeD)

lemma tree_commits:
  assumes "good_tree t" "fresh_builder out name b fs" "no_conflict out name fs t"
    and "iterates (out @ [name]) listing"
    and "idle out (out @ [name]) (lookup fs) t st"
  shows "\<exists>fs'. commit (\<lambda>_. True) listing (builder st) (store st) = (no_error, builder st, fs')
    \<and> lookup fs' = delivered_tree out name t (lookup fs)"
proof -
  let ?sp = "out @ [name]"
  have cl: "closed t" using closed_good [of "[]" t] assms(1) by (simp add: good_tree_def closed_def)
  have b: "builder_root (builder st) = out" "staging_root (builder st) = Some ?sp"
    "open_files (builder st) = []"
    and l: "lookup (store st) = overlay ?sp (lookup fs) (tree_at t)"
    using assms(5) by (simp_all add: idle_def staged_def)
  have wf0: "fs_wf fs" "lookup fs ?sp = Some Directory" "lookup fs out = Some Directory"
    using assms(2) fs_wfD by (auto simp: fresh_builder_def)
  have wf: "fs_wf (store st)" by (rule fs_wf_overlay [OF wf0(1,2) cl l])
  obtain rs where rs: "listing (store st) = map (\<lambda>r. ?sp @ r) rs" "walk_order ?sp (store st) rs"
    using assms(4) wf by (auto simp: iterates_def)
  have look: "lookup (store st) (out @ name # r) = tree_at t r" if "r \<noteq> []" for r
    using overlay_at [OF that, of ?sp "lookup fs" "tree_at t"] l by simp
  have out: "lookup (store st) (out @ r) = lookup fs (out @ r)" if "r = [] \<or> hd r \<noteq> name" for r
    using that by (cases r) (auto simp: l overlay_def below_def)
  have "\<forall>r \<in> set rs. committable out name (store st) r"
  proof
    fix r assume "r \<in> set rs"
    then have r: "r \<noteq> []" "lookup (store st) (out @ name # r) \<noteq> None"
      using rs(2) by (auto simp: walk_order_def)
    then obtain n where n: "tree_at t r = Some n" using look by auto
    then obtain k where "(r, k) \<in> set t" "node_of k = Some n"
      using tree_at_mem by blast
    then have "hd r \<noteq> name" "dest_ok (Some n) (lookup fs (out @ r))"
      using assms(3) by (auto simp: no_conflict_def list_all_iff)
    then show "committable out name (store st) r"
      using r n look [OF r(1)] out [of r] tree_at_closed [OF cl, of r]
      by (simp add: committable_def)
  qed
  moreover have "fst (close_all (\<lambda>_. True) (builder st)) = no_error"
    using b(3) by (simp add: close_all_def)
  ultimately obtain fs' where c:
    "commit (\<lambda>_. True) listing (builder st) (store st)
      = (no_error, (builder st)\<lparr>open_files := []\<rparr>, fs')"
    "lookup fs' = merged out name (lookup (store st))"
    using commit_plain [OF b(2,1) _ wf _ rs(2), of "\<lambda>_. True" listing] rs(1) out [of "[]"] wf0(3)
    by auto
  have "merged out name (lookup (store st)) p = delivered_tree out name t (lookup fs) p" for p
  proof (cases "below out p")
    case True
    then obtain r where r: "r \<noteq> []" "p = out @ r" by (auto simp: below_iff)
    show ?thesis
    proof (cases "hd r = name")
      case True
      then obtain r' where r': "r = name # r'" using r by (cases r) auto
      have "tree_at t r = None"
      proof (rule ccontr)
        assume "tree_at t r \<noteq> None"
        then obtain k where "(r, k) \<in> set t" using tree_at_mem by fastforce
        then show False using assms(3) True by (auto simp: no_conflict_def list_all_iff)
      qed
      moreover have "r' \<noteq> [] \<Longrightarrow> lookup fs (out @ name # r') = None"
        using fun_cong [OF fresh_overlay [OF assms(2)], of "out @ name # r'"]
          overlay_at [of r' ?sp "lookup fs" "tree_at []"] by (simp add: tree_at_def)
      ultimately show ?thesis
        using r r' by (auto simp: merged_def delivered_tree_def below_iff)
    next
      case False
      then have "\<not> below ?sp p" "p \<noteq> ?sp" using r by (auto simp: below_iff)
      then show ?thesis using r look out [of r] False by (simp add: merged_def delivered_tree_def)
    qed
  next
    case False
    then have "\<not> below ?sp p" "p \<noteq> ?sp" by (auto simp: below_iff)
    then show ?thesis using False by (simp add: merged_def delivered_tree_def l overlay_def)
  qed
  then have "lookup fs' = delivered_tree out name t (lookup fs)" using c(2) by (simp add: fun_eq_iff)
  moreover have "(builder st)\<lparr>open_files := []\<rparr> = builder st" using b(3) by simp
  ultimately show ?thesis using c(1) by simp
qed


text \<open>
  C1. End to end: a sender with a tree of files, directories and links, and a receiver whose
  user agrees, over a stream that delivers every chunk in order. The sender finishes without
  error; the receiver, fed with exactly the chunks the sender sent, reads the right total,
  carries out every packet, commits and closes; afterwards the output directory holds the
  tree, each file with its content byte by byte, each link with its target; the staging
  directory is gone, and everything else is as before.
\<close>

theorem transfer_delivers_tree:
  assumes "good_tree t" and "tree_size t < 2 ^ 64"
    and "fresh_builder out name b fs" and "no_conflict out name fs t"
    and "iterates (out @ [name]) listing"
    and "length (fdata stale) = FTP_PACKET_SIZE" and "length stale' = FTP_PACKET_SIZE"
    and "sender_transfer_confirmation log_send (\<lambda>c. (Inr (as_bytes (answer_packet rstale True)), c))
      (\<lambda>c. (no_error, c)) stale (tree_sizes t) (entries_of t) (sender_new []) = (ec, s)"
  shows "ec = no_error \<and> (\<exists>a ms st1 st2. channel s = a # ms
    \<and> receive_announcement stale' (Inr a) (receiver_new b fs) = Announced st1
    \<and> receiver_start_transfer listing stale' (map (\<lambda>m. (True, Inr m)) ms) st1 = (Closing, st2)
    \<and> lookup (store st2) = delivered_tree out name t (lookup fs))"
proof -
  let ?n = "announced_bytes (tree_sizes t)" and ?sp = "out @ [name]" and ?L = "lookup fs"
  let ?ps = "entries_packets stale 0 (entries_of t)" and ?e = "control_packet stale END_TRANSFER_FTP 0"
  have s: "ec = no_error" "channel s = map as_bytes (announcement stale ?n # ?ps @ [?e])"
    using sender_exchange [OF assms(1,8)] by (simp_all add: transfer_packets_def)
  obtain st1 where st1:
    "receive_announcement stale' (Inr (as_bytes (announcement stale ?n))) (receiver_new b fs) = Announced st1"
    "bytes_remaining st1 = ?n" "builder st1 = b" "store st1 = fs" "\<not> end_transfer_flag st1"
    by (simp add: announcement_received [OF assms(6,7)] receiver_new_def)
  have n: "unat (bytes_remaining st1) = tree_size t"
    using announced_tree_size [OF assms(2)] st1(2) by simp
  have i: "idle out ?sp ?L [] st1"
    using assms(3) st1 fresh_overlay [OF assms(3)] by (simp add: idle_def staged_def fresh_builder_def)
  have L: "?L ?sp = Some Directory" using assms(3) by (simp add: fresh_builder_def)
  have "closed []" by (simp add: closed_def)
  then obtain st where acc: "accepts listing stale' st1 ?ps st" and st: "idle out ?sp ?L t st"
    "unat (bytes_remaining st) = 0"
    using entries_accepted [OF i _ assms(1) [unfolded good_tree_def] L _ assms(6,7)] n by fastforce
  have z: "bytes_remaining st = 0" using st(2) by (simp add: unat_eq_0)
  obtain fs' where c: "commit (\<lambda>_. True) listing (builder st) (store st) = (no_error, builder st, fs')"
    and l: "lookup fs' = delivered_tree out name t ?L"
    using tree_commits [OF assms(1,3,4,5) st(1)] by blast
  have "receiver_start_transfer listing stale' (deliver ?ps @ deliver [?e]) st1
      = receiver_start_transfer listing stale' (deliver [?e]) st"
    using acc by (simp add: accepts_def)
  also have "\<dots> = (Closing, st\<lparr>end_transfer_flag := True, builder := builder st, store := fs'\<rparr>)"
    using end_accepted [OF st(1) z assms(6,7), of listing] c by simp
  finally have r: "receiver_start_transfer listing stale'
      (map (\<lambda>m. (True, Inr m)) (map as_bytes (?ps @ [?e]))) st1
      = (Closing, st\<lparr>end_transfer_flag := True, builder := builder st, store := fs'\<rparr>)"
    by (simp add: deliver_def comp_def)
  show ?thesis
    using s st1(1) r l
    by (intro conjI exI [of _ "as_bytes (announcement stale ?n)"]
        exI [of _ "map as_bytes (?ps @ [?e])"] exI [of _ st1]
        exI [of _ "st\<lparr>end_transfer_flag := True, builder := builder st, store := fs'\<rparr>"]) simp_all
qed

definition sample_tree :: tree where
  "sample_tree =
     [([''d''], Folder), ([''d'', ''f''], Regular [1, 2, 3]), ([''l''], Symlink ''d/f''),
      ([''e''], Regular [])]"

lemma sample_fresh: "fresh_builder [''out''] ''tmp'' sample_builder sample_fs"
  using sample_builder_inv
  by (auto simp: fresh_builder_def sample_builder_def builder_inv_def tree_ok_def sample_fs_def
      entries_below_def below_def)

theorem transfer_delivers_tree_witness:
  "\<exists>a ms st1 st2. receive_announcement sample_stale (Inr a) (receiver_new sample_builder sample_fs)
      = Announced st1
    \<and> receiver_start_transfer (listing_by_depth [''out'', ''tmp'']) sample_stale
        (map (\<lambda>m. (True, Inr m)) ms) st1 = (Closing, st2)
    \<and> lookup (store st2) [''out'', ''d'', ''f''] = Some (File [1, 2, 3])
    \<and> lookup (store st2) [''out'', ''tmp''] = None"
proof -
  let ?x = "sender_transfer_confirmation log_send (\<lambda>c. (Inr (as_bytes (answer_packet (sample_ftp []) True)), c))
      (\<lambda>c. (no_error, c)) (sample_ftp []) (tree_sizes sample_tree) (entries_of sample_tree) (sender_new [])"
  have g: "good_tree sample_tree" "tree_size sample_tree < 2 ^ 64"
    by (simp_all add: good_tree_def sample_tree_def entry_ok_def plain_def target_ok_def has_nul_def tree_size_def)
  have nc: "no_conflict [''out''] ''tmp'' sample_fs sample_tree"
    by (simp add: no_conflict_def sample_tree_def dest_ok_def sample_fs_def lookup_def)
  have it: "iterates ([''out''] @ [''tmp'']) (listing_by_depth [''out'', ''tmp''])"
    using iterates_by_depth [of "[''out'', ''tmp'']"] by simp
  have l: "length (fdata (sample_ftp [])) = FTP_PACKET_SIZE" "length sample_stale = FTP_PACKET_SIZE"
    by (simp_all add: sample_ftp_def set_payload_def sample_stale_def)
  obtain ec s where x: "?x = (ec, s)" by (cases ?x)
  let ?d = "delivered_tree [''out''] ''tmp'' sample_tree (lookup sample_fs)"
  have d: "?d [''out'', ''d'', ''f''] = Some (File [1, 2, 3])" "?d [''out'', ''tmp''] = None"
    by (simp_all add: delivered_tree_def below_def tree_at_def sample_tree_def)
  obtain a ms st1 st2 where
    "receive_announcement sample_stale (Inr a) (receiver_new sample_builder sample_fs) = Announced st1"
    "receiver_start_transfer (listing_by_depth [''out'', ''tmp'']) sample_stale
        (map (\<lambda>m. (True, Inr m)) ms) st1 = (Closing, st2)" "lookup (store st2) = ?d"
    using transfer_delivers_tree [OF g sample_fresh nc it l x] by blast
  then show ?thesis using d by (intro exI [of _ a] exI [of _ ms] exI [of _ st1] exI [of _ st2]) simp
qed

end
