(* ===== verification/Program.thy ===== *)
theory Program
  imports Tree_Transfer File_Walker
begin

text \<open>
  \<open>main\<close> (\<open>src/main.cpp\<close>), and the loops of \<open>Sender\<close> over the file walker. The runs of a
  sender and of a receiver on the event loop are parameters of \<open>main\<close>.
\<close>

subsection \<open>The sender over the walker\<close>

text \<open>
  \<open>what\<close> is what \<open>path_handler\<close> finds at a path, \<open>file_size\<close> is \<open>std::filesystem::file_size\<close>.
  The first walk adds up the sizes, the second one sends.
\<close>

definition regular_kind :: "walk_kind \<Rightarrow> bool" where
  "regular_kind k \<longleftrightarrow> (case k of Regular d \<Rightarrow> True | Unreadable \<Rightarrow> True | _ \<Rightarrow> False)"

definition sender_start ::
  "(string list \<Rightarrow> walk_kind) \<Rightarrow> (string list \<Rightarrow> u64) \<Rightarrow> (string list \<Rightarrow> dir_entry list)
     \<Rightarrow> 's send_op \<Rightarrow> ('s \<Rightarrow> (error_code + bytes) \<times> 's) \<Rightarrow> ('s \<Rightarrow> error_code \<times> 's)
     \<Rightarrow> ftp_packet \<Rightarrow> file_walker \<Rightarrow> 's sender \<Rightarrow> error_code \<times> 's sender" where
  "sender_start what file_size listing send receive close stale w s =
     (let (vs, w1) = walk_all w;
          sizes = map (\<lambda>(cur, rel). file_size cur) (filter (\<lambda>(cur, rel). regular_kind (what cur)) vs);
          (vs', w2) = walk_all (reset listing w1)
      in sender_transfer_confirmation send receive close stale sizes
           (map (\<lambda>(cur, rel). (join_path rel, what cur)) vs') s)"

fun kind_of :: "walk_kind \<Rightarrow> file_kind" where
  "kind_of (Regular d) = FT_regular"
| "kind_of Unreadable = FT_regular"
| "kind_of Folder = FT_directory"
| "kind_of (Symlink t) = FT_symlink"
| "kind_of Unsupported = FT_other"

text \<open>The file system shows the tree \<open>t\<close> at \<open>src\<close>.\<close>

definition shows_tree ::
  "(string list \<Rightarrow> file_kind) \<Rightarrow> (string list \<Rightarrow> dir_entry list) \<Rightarrow> (string list \<Rightarrow> walk_kind)
     \<Rightarrow> (string list \<Rightarrow> u64) \<Rightarrow> string list \<Rightarrow> tree \<Rightarrow> bool" where
  "shows_tree status listing what file_size src t \<longleftrightarrow>
     status src = FT_directory
     \<and> listing src = entries_under src (map (\<lambda>(p, k). (p, kind_of k)) t)
     \<and> list_all (\<lambda>(p, k). what (append_path src p) = k
          \<and> file_size (append_path src p) = word_of_nat (data_size k)) t"

lemma supported_kind: "kind_of k \<noteq> FT_other \<Longrightarrow> supported (p, kind_of k)"
  by (cases k) (simp_all add: supported_def)

lemma good_from_plain:
  "good_from seen t \<Longrightarrow> list_all (\<lambda>(p, k). p \<noteq> [] \<and> hd p \<noteq> [] \<and> kind_of k \<noteq> FT_other
     \<and> (regular_kind k \<longleftrightarrow> (\<exists>d. k = Regular d))) t"
proof (induction t arbitrary: seen)
  case (Cons e t)
  obtain p k where e: "e = (p, k)" by (cases e)
  have "p \<noteq> []" "plain (hd p)" "sendable (join_path p, k)"
    using Cons.prems e by (auto simp: entry_ok_def list_all_iff)
  then show ?case
    using Cons.IH [of "seen @ [e]"] Cons.prems e by (cases k) (auto simp: plain_def regular_kind_def)
qed simp

text \<open>
  C20. From the disk to the packets: when the file system shows a tree of plain names at the
  root and does not change, the sender announces the sizes of its files and sends its entries
  in the order of the iterator, whatever the channel does; so the end-to-end result C1 is
  about the tree on the sender's disk.
\<close>

theorem sender_walks_tree:
  assumes "good_tree t" and "shows_tree status listing what file_size src t"
    and "file_walker_new status listing src = Some w"
  shows "sender_start what file_size listing send receive close stale w s
    = sender_transfer_confirmation send receive close stale (tree_sizes t) (entries_of t) s"
proof -
  let ?es = "map (\<lambda>(p, k). (p, kind_of k)) t"
  let ?vs = "map (\<lambda>(p, k). (append_path src p, p)) t"
  have pl: "list_all (\<lambda>(p, k). p \<noteq> [] \<and> hd p \<noteq> [] \<and> kind_of k \<noteq> FT_other
      \<and> (regular_kind k \<longleftrightarrow> (\<exists>d. k = Regular d))) t"
    using good_from_plain assms(1) by (auto simp: good_tree_def)
  have sh: "status src = FT_directory" "listing src = entries_under src ?es"
    "list_all (\<lambda>(p, k). what (append_path src p) = k
          \<and> file_size (append_path src p) = word_of_nat (data_size k)) t"
    using assms(2) by (simp_all add: shows_tree_def)
  have "list_all (\<lambda>(r, k). r \<noteq> [] \<and> hd r \<noteq> []) ?es" using pl by (auto simp: list_all_iff)
  note w = walk_twice [OF assms(3) sh(2) this]
  have "filter supported ?es = ?es"
    using pl by (auto simp: filter_id_conv list_all_iff intro: supported_kind)
  then have "map (\<lambda>(r, k). (append_path src r, r)) (filter supported ?es) = ?vs"
    by (simp add: comp_def split_beta)
  then have v: "fst (walk_all w) = ?vs" "fst (walk_all (reset listing (snd (walk_all w)))) = ?vs"
    using w sh(1) by simp_all
  have "map (\<lambda>(cur, rel). file_size cur) (filter (\<lambda>(cur, rel). regular_kind (what cur)) ?vs) = tree_sizes t"
    using sh(3) pl by (induction t) (auto simp: tree_sizes_def)
  moreover have "map (\<lambda>(cur, rel). (join_path rel, what cur)) ?vs = entries_of t"
    using sh(3) by (induction t) (auto simp: entries_of_def)
  ultimately show ?thesis by (simp add: sender_start_def split_beta Let_def v)
qed

theorem sender_walks_tree_witness:
  "\<exists>w. file_walker_new (\<lambda>_. FT_directory)
      (\<lambda>r. entries_under r (map (\<lambda>(p, k). (p, kind_of k)) [([''f''], Regular [1, 2])])) [''src''] = Some w
    \<and> sender_start (\<lambda>_. Regular [1, 2]) (\<lambda>_. 2)
        (\<lambda>r. entries_under r (map (\<lambda>(p, k). (p, kind_of k)) [([''f''], Regular [1, 2])]))
        log_send (\<lambda>c. (Inl operation_aborted, c)) (\<lambda>c. (no_error, c)) (sample_ftp []) w (sender_new [])
      = sender_transfer_confirmation log_send (\<lambda>c. (Inl operation_aborted, c)) (\<lambda>c. (no_error, c))
        (sample_ftp []) [2] [(''f'', Regular [1, 2])] (sender_new [])"
proof -
  let ?t = "[([''f''], Regular [1, 2])]"
  let ?l = "\<lambda>r. entries_under r (map (\<lambda>(p, k). (p, kind_of k)) ?t)"
  have g: "good_tree ?t" by (simp add: good_tree_def entry_ok_def plain_def target_ok_def)
  have sh: "shows_tree (\<lambda>_. FT_directory) ?l (\<lambda>_. Regular [1, 2]) (\<lambda>_. 2) [''src''] ?t"
    by (simp add: shows_tree_def)
  obtain w where w: "file_walker_new (\<lambda>_. FT_directory) ?l [''src''] = Some w"
    by (simp add: file_walker_new_def Let_def)
  have "tree_sizes ?t = [2]" "entries_of ?t = [(''f'', Regular [1, 2])]"
    by (simp_all add: tree_sizes_def entries_of_def)
  then show ?thesis using sender_walks_tree [OF g sh w] w by auto
qed

subsection \<open>Refusal\<close>

text \<open>
  C35. When the user refuses, no file data is sent: the sender, on any channel that accepts its
  announcement and then gives it the answer, ends with \<open>receiver_refused_transfer\<close> and sends
  nothing after the announcement; it does not close the stream. The receiver returns without an
  error and leaves its store as it is: the empty staging directory stays in the output directory.
\<close>

theorem refusal_transfers_nothing:
  assumes "send (as_bytes (announcement stale (announced_bytes sizes))) (channel s) = (no_error, c)"
    and "receive c = (Inr (as_bytes (answer_packet rstale False)), c')"
    and "fresh_builder out name b fs"
  shows "(let (ec, s') = sender_transfer_confirmation send receive close stale sizes es s in
      ec = make_error_code receiver_refused_transfer \<and> channel s' = c')
    \<and> (let (state, st') = answer_sent False no_error (receiver_new b fs) in
      state = Returned no_error \<and> lookup (store st') (out @ [name]) = Some Directory)"
proof -
  have "fst (sender_transfer_confirmation send receive close stale sizes es s)
        = make_error_code receiver_refused_transfer
      \<and> channel (snd (sender_transfer_confirmation send receive close stale sizes es s)) = c'"
    using assms(1,2) answer_accepted [of rstale False]
    by (simp add: sender_transfer_confirmation_def send_ftp_def Let_def split_beta ftp_hdr.dec_enc not_less)
  moreover have "lookup fs (out @ [name]) = Some Directory" using assms(3) by (simp add: fresh_builder_def)
  ultimately show ?thesis by (simp add: split_beta Let_def answer_sent_def receiver_new_def)
qed

theorem refusal_transfers_nothing_witness:
  "channel (snd (sender_transfer_confirmation log_send
      (\<lambda>c. (Inr (as_bytes (answer_packet (sample_ftp []) False)), c)) (\<lambda>c. (no_error, c))
      (sample_ftp []) [2] [(''f'', Regular [1, 2])] (sender_new [])))
    = [as_bytes (announcement (sample_ftp []) 2)]"
proof -
  let ?c = "[as_bytes (announcement (sample_ftp []) 2)]"
  have s: "log_send (as_bytes (announcement (sample_ftp []) (announced_bytes [2]))) (channel (sender_new []))
      = (no_error, ?c)"
    by (simp add: log_send_def sender_new_def announced_bytes_def)
  let ?receive = "\<lambda>c. (Inr (as_bytes (answer_packet (sample_ftp []) False)), c)"
  have r: "?receive ?c = (Inr (as_bytes (answer_packet (sample_ftp []) False)), ?c)" by simp
  from refusal_transfers_nothing [where send = log_send and receive = ?receive, OF s r sample_fresh,
      where close = "\<lambda>c. (no_error, c)" and es = "[(''f'', Regular [1, 2])]"]
  show ?thesis by (simp add: split_beta Let_def)
qed

subsection \<open>Numbers on the command line\<close>

text \<open>\<open>std::from_chars\<close> for an \<open>unsigned short\<close>: the longest prefix of digits.\<close>

definition is_digit :: "char \<Rightarrow> bool" where
  "is_digit c \<longleftrightarrow> 48 \<le> (of_char c :: nat) \<and> (of_char c :: nat) \<le> 57"

definition digits_value :: "string \<Rightarrow> nat" where
  "digits_value ds = foldl (\<lambda>n c. 10 * n + (of_char c - 48)) 0 ds"

datatype from_chars_error = Invalid_argument | Result_out_of_range

definition from_chars_u16 :: "string \<Rightarrow> from_chars_error + u16" where
  "from_chars_u16 s =
     (let ds = takeWhile is_digit s in
      if ds = [] then Inl Invalid_argument
      else if 65535 < digits_value ds then Inl Result_out_of_range
      else Inr (word_of_nat (digits_value ds)))"

subsection \<open>The program\<close>

datatype run = Sender_run string u16 string | Receiver_run u16 string

datatype outcome = Usage | Sender_usage | Receiver_usage | Invalid_port | No_such_file
  | Unknown_mode | Run run

text \<open>\<open>args\<close> are the arguments from \<open>argv[1]\<close> on; \<open>exists_path\<close> is the check of the file to send.\<close>

definition decide :: "(string \<Rightarrow> bool) \<Rightarrow> string list \<Rightarrow> outcome" where
  "decide exists_path args =
     (if length args < 1 then Usage
      else if args ! 0 = ''send'' \<and> length args < 4 then Sender_usage
      else if args ! 0 = ''recv'' \<and> length args < 3 then Receiver_usage
      else if args ! 0 = ''send'' then
        (case from_chars_u16 (args ! 2) of
           Inl e \<Rightarrow> Invalid_port
         | Inr port \<Rightarrow>
             if \<not> exists_path (args ! 3) then No_such_file
             else Run (Sender_run (args ! 1) port (args ! 3)))
      else if args ! 0 = ''recv'' then
        (case from_chars_u16 (args ! 1) of
           Inl e \<Rightarrow> Invalid_port
         | Inr port \<Rightarrow> Run (Receiver_run port (args ! 2)))
      else Unknown_mode)"

definition main_exit :: "(run \<Rightarrow> error_code) \<Rightarrow> (string \<Rightarrow> bool) \<Rightarrow> string list \<Rightarrow> int" where
  "main_exit result exists_path args =
     (case decide exists_path args of
        Run r \<Rightarrow> if ec_failed (result r) then 1 else 0
      | _ \<Rightarrow> 1)"

subsection \<open>Ports\<close>

lemma of_char_digit: "d < 10 \<Longrightarrow> (of_char (char_of (48 + d :: nat)) :: nat) = 48 + d"
  by simp

lemma digits_value_snoc: "digits_value (ds @ [c]) = 10 * digits_value ds + (of_char c - 48)"
  by (simp add: digits_value_def)

lemma decimal_digits: "decimal n \<noteq> [] \<and> list_all is_digit (decimal n) \<and> digits_value (decimal n) = n"
proof (induction n rule: decimal.induct)
  case (1 n)
  have one: "list_all is_digit [char_of (48 + d)]" "of_char (char_of (48 + d)) - 48 = d"
    if "d < 10" for d :: nat
    using that by (simp_all add: is_digit_def)
  show ?case
  proof (cases "n < 10")
    case True
    then have d: "decimal n = [char_of (48 + n)]" by (subst decimal.simps) simp
    show ?thesis using one [OF True] by (simp add: d digits_value_def)
  next
    case False
    have d: "decimal n = decimal (n div 10) @ [char_of (48 + n mod 10)]"
      using False by (subst decimal.simps) simp
    show ?thesis
      using 1 [OF False] one [of "n mod 10"] by (simp add: d digits_value_snoc)
  qed
qed



text \<open>
  C36. The exit status is 0 exactly when the mode is known and has its arguments, the port can be
  read, the file to send exists, and the run ended without an error - where an error whose
  value is 0 (\<open>crypto_context_not_ready\<close>) counts as none.
\<close>

theorem exit_status:
  "main_exit result exists_path args = 0 \<longleftrightarrow>
     (\<exists>addr p port path xs. args = [''send'', addr, p, path] @ xs \<and> from_chars_u16 p = Inr port
        \<and> exists_path path \<and> \<not> ec_failed (result (Sender_run addr port path)))
     \<or> (\<exists>p port path xs. args = [''recv'', p, path] @ xs \<and> from_chars_u16 p = Inr port
        \<and> \<not> ec_failed (result (Receiver_run port path)))"
proof (cases args)
  case (Cons m as)
  show ?thesis
  proof (cases "m = ''send'' \<and> 3 \<le> length as")
    case True
    then obtain addr p path xs where "as = addr # p # path # xs"
      by (metis Suc_le_length_iff numeral_3_eq_3)
    then show ?thesis
      using Cons True by (auto simp: main_exit_def decide_def split: sum.split)
  next
    case F: False
    show ?thesis
    proof (cases "m = ''recv'' \<and> 2 \<le> length as")
      case True
      then obtain p path xs where "as = p # path # xs"
        by (metis Suc_le_length_iff numeral_2_eq_2)
      then show ?thesis
        using Cons True by (auto simp: main_exit_def decide_def split: sum.split)
    next
      case False
      then show ?thesis using Cons F by (auto simp: main_exit_def decide_def)
    qed
  qed
qed (simp add: main_exit_def decide_def)

end
