(* ===== verification/Spec2Isabelle.thy ===== *)
theory Spec2Isabelle
  imports Errors Double_Arith Async_Queue Async_Value Crypto_Context Packets Transport
    Transport_Inv Transport_Props Transport_Wire Transport_Peer Reorder Stream
    Session_Log Handshake Network
    Filesystem File_Builder Staging New_Builder Commit File_Transfer File_Walker Sender Receiver
    Tree_Transfer Program
begin

text \<open>
  FileHopZ sends a file, a link or a directory tree to another machine over UDP. This library
  models its C++ sources (under \<open>src/src\<close> and \<open>src/include\<close>) and proves what makes them correct.
  The properties are labelled C1 to C40, the most important first.

  \<^bold>\<open>The program\<close>, from the wire up. \<open>ProtoHopZ\<close> turns UDP datagrams into reliable packets:
  sequence numbers, acknowledgements, retransmission, a congestion window, an X25519 handshake
  and ChaCha20-Poly1305 (\<open>Crypto_context\<close>). \<open>ProtoStream\<close> puts the packets in order.
  \<open>Async_queue\<close> and \<open>Async_value\<close> connect their coroutines. On the stream, \<open>Sender\<close> announces
  the number of bytes it found with \<open>File_walker\<close>, waits for the answer and sends the tree as
  packets of a second format (\<open>FTProto\<close>); \<open>Receiver\<close> asks the user and carries the packets out
  with \<open>File_builder\<close>, which builds the tree in a staging directory and moves it into the output
  directory at the end. \<open>main\<close> reads the command line and runs one of the two.

  \<^bold>\<open>Theories and sources\<close>
  \<^item> \<open>Prelude\<close>: words and bytes, the locales \<open>wire_codec\<close> (an encoder and its decoder) and
    \<open>step_system\<close> (a step function that keeps an invariant), association lists.
  \<^item> \<open>Errors\<close>: \<open>errors/filehopz_error.hpp, .cpp\<close>. \<open>boost::system::error_code\<close> is a value with a
    category; it converts to true when the value is not 0.
  \<^item> \<open>Double_Arith\<close>: the rounding of the \<open>double\<close> computations of the congestion window.
  \<^item> \<open>Async_Queue\<close>, \<open>Async_Value\<close>: \<open>utils/async_queue.hpp\<close>, \<open>utils/async_value.hpp\<close>; the locale
    \<open>fifo_channel\<close> is the contract of the queue.
  \<^item> \<open>Crypto_Context\<close>: \<open>utils/crypto_context.hpp, .cpp\<close>.
  \<^item> \<open>Packets\<close>: \<open>protohopz/protohopz_packet.hpp\<close>, \<open>ftp_packet.hpp\<close>, the layout of both formats and
    the parsing of a chunk in \<open>Receiver::start_transfer\<close>.
  \<^item> \<open>Transport\<close> (the model), \<open>Transport_Inv\<close> (its run and invariant), \<open>Transport_Props\<close>,
    \<open>Transport_Wire\<close>, \<open>Transport_Peer\<close> (its properties): \<open>protohopz/protohopz.hpp, .cpp\<close>.
  \<^item> \<open>Reorder\<close>, \<open>Stream\<close>: \<open>protohopz/protostream.hpp, .cpp\<close>.
  \<^item> \<open>Session_Log\<close>, \<open>Handshake\<close>, \<open>Network\<close>: two transports and a stream together: the handshake of
    both sides, the log of what a session sends, and the delivery of the log over any network.
  \<^item> \<open>Filesystem\<close>: what the program uses of \<open>std::filesystem\<close> and of file streams, on an explicit
    store: path resolution with links, \<open>create_directories\<close>, \<open>rename\<close> and so on.
  \<^item> \<open>File_Builder\<close> (the model and confinement), \<open>Staging\<close> (requests on plain names),
    \<open>New_Builder\<close> (the constructor), \<open>Commit\<close>: \<open>utils/file_builder.hpp, .cpp\<close>.
  \<^item> \<open>File_Transfer\<close>, \<open>File_Walker\<close>, \<open>Sender\<close>, \<open>Receiver\<close>: the sources of these names.
  \<^item> \<open>Tree_Transfer\<close>: sender and receiver together. \<open>Program\<close>: the sender over the walker, the
    refusal, and \<open>main.cpp\<close>.

  \<^bold>\<open>How code is modelled.\<close> An object is a record of its members; an operation is a function on
  that record that returns the new record and its error code. A coroutine is cut at its
  \<open>co_await\<close> points; each piece between two of them is one function, the results of the awaited
  operations, the clock, the user's input and the answers of the disk are arguments. The program
  runs its \<open>io_context\<close> on one thread, so the pieces do not interleave inside; every order of
  pieces is covered by the runs over lists of events. A resumed waiter runs inside the call that
  resumes it. The posts to the strand at the head of some operations are no steps of their own.
  Fixed-width integers are words. Multi-byte fields are little endian. A packet object that is not
  initialised starts with arbitrary bytes, which are an argument (\<open>stale\<close>); reading beyond an
  array is a value of its own (\<open>Overflow\<close>, \<open>Undefined\<close>).

  \<^bold>\<open>Assumptions on code outside the repository.\<close> The OpenSSL calls are a parameter; two named
  hypotheses state that both sides of the key agreement compute the same secret and that
  decryption inverts encryption. The iterator of the standard library reports a directory before
  its content, and every entry once (\<open>walk_order\<close>, \<open>iterates\<close>).

  \<^bold>\<open>What is proved.\<close>
  \<^item> Transfers: C1 end to end (with C20 from the sender's disk and C29 for the receiver's start),
    C9 the accounting of the announced bytes, C10 a failed transfer leaves no trace, C35 a refusal,
    C18, C19, C21 what the sender sends, on reliable and on failing channels, C22 the walk, C28
    links, C34 the prompt, C38 the progress.
  \<^item> Builder: C4 confinement, C30 failed writes, C31 the accepted paths, C40 the escape through
    links. \<open>commit_is_not_atomic\<close> shows a commit that fails half way.
  \<^item> Stream and transport: C3, C6, C17, C32, C39 order, completeness and failure of the stream,
    C2 its delivery across the network, from the sends of one endpoint to the receives of the other;
    C5, C11 to C16 uniqueness, liveness of a waiting sender, bounds of the windows, retransmission,
    strangers, duplicates, timeouts.
  \<^item> Session and formats: C7, C8, C33 the handshake and the session it starts; C25, C26, C27 the
    formats; C23, C24 the queue and the value; C36, C37 the command line.

  \<^bold>\<open>Bounds and fuel.\<close> Path resolution follows at most \<open>MAXSYMLINKS\<close> = 40 links, the limit of the
  kernel, and fails then with \<open>ELOOP\<close>, so it needs no other bound. The reorder window is 65536
  packets, as in the code. The only loop that may not end, the prompt, is a partial function whose
  value is \<open>None\<close> exactly when it does not return (C34). Everything else terminates by a measure.

  \<^bold>\<open>Not modelled.\<close> The logger and all printing; the tests and the build; exceptions of the directory
  iterator while it advances; permissions, name lengths and a full disk (the store has none, but
  every write and close may fail); that the network delivers a packet in the end (C11 and C16 show that
  what is lost stays registered and is sent again; C1 takes as its channel the ordered stream
  that C2 and C3 prove); what the program does about signals; other users of the same output
  directory.
\<close>

end
